(* ===== verification/Prelude.thy ===== *)
theory Prelude
  imports Main "HOL-Library.Finite_Map" "HOL-Library.Monad_Syntax" "HOL-Library.Multiset"
begin

text \<open>
  The vocabulary the components share: the names of the machine integers of the Rust code, the
  wrap-around and saturating operations the code uses on them, the option monad in which
  \<open>None\<close> is a panic of the process (the release profile sets \<open>panic = 'abort'\<close>), and the generic
  lemmas on monadic folds, ordered maps and sets, sorted lists and weighted sums.

  Rust's \<open>BTreeMap\<close> and \<open>HashMap\<close> are finite maps \<open>fmap\<close>, its \<open>BTreeSet\<close> and \<open>HashSet\<close> finite sets
  \<open>fset\<close>; iteration over a B-tree is in ascending key order, \<open>sorted_list_of_fmap\<close> and
  \<open>sorted_list_of_fset\<close>.
\<close>

section \<open>Machine integers\<close>

text \<open>
  Epoch, Stake and BlockTimestampMs are \<open>u64\<close>, Round, CommitIndex, WaveNumber and the content of
  AuthorityIndex are \<open>u32\<close>, TransactionIndex is \<open>u16\<close>. They are natural numbers here. Stake
  arithmetic carries its 64-bit wrap-around (\<open>wrap64\<close>); round and index arithmetic does not, so
  the model speaks of epochs with fewer than \<open>2 ^ 32 - 1\<close> rounds and commits. Subtraction on
  natural numbers is Rust's \<open>saturating_sub\<close>.
\<close>

type_synonym epoch = nat
type_synonym stake = nat
type_synonym round = nat
type_synonym authority_index = nat
type_synonym commit_index = nat
type_synonym wave_number = nat
type_synonym timestamp_ms = nat
type_synonym transaction_index = nat

definition u32_max :: nat where
  "u32_max = 2 ^ 32 - 1"

definition wrap64 :: "nat \<Rightarrow> nat" where
  "wrap64 n = n mod 2 ^ 64"

definition saturating_add32 :: "nat \<Rightarrow> nat \<Rightarrow> nat" where
  "saturating_add32 a b = min (a + b) u32_max"

section \<open>Panics\<close>

text \<open>\<open>assert!(b)\<close>: the process aborts when the condition fails.\<close>

definition assert_that :: "bool \<Rightarrow> unit option" where
  "assert_that b = (if b then Some () else None)"

text \<open>\<open>v[i]\<close> on a vector, with the bounds check.\<close>

definition vec_get :: "'a list \<Rightarrow> nat \<Rightarrow> 'a option" where
  "vec_get xs i = (if i < length xs then Some (xs ! i) else None)"

text \<open>\<open>v[i] = x\<close> on a vector, with the bounds check.\<close>

definition vec_set :: "'a list \<Rightarrow> nat \<Rightarrow> 'a \<Rightarrow> 'a list option" where
  "vec_set xs i x = (if i < length xs then Some (xs[i := x]) else None)"

text \<open>A \<open>for\<close> loop whose body can panic.\<close>

fun foldM :: "('s \<Rightarrow> 'a \<Rightarrow> 's option) \<Rightarrow> 's \<Rightarrow> 'a list \<Rightarrow> 's option" where
  "foldM f s [] = Some s"
| "foldM f s (x # xs) = Option.bind (f s x) (\<lambda>s'. foldM f s' xs)"

text \<open>An iterator \<open>map\<close> whose closure can panic.\<close>

fun mapM :: "('a \<Rightarrow> 'b option) \<Rightarrow> 'a list \<Rightarrow> 'b list option" where
  "mapM f [] = Some []"
| "mapM f (x # xs) =
     Option.bind (f x) (\<lambda>y. Option.bind (mapM f xs) (\<lambda>ys. Some (y # ys)))"

section \<open>Results\<close>

text \<open>
  \<open>Result<T, E>\<close> is the sum \<open>E + T\<close>: \<open>Inl e\<close> is \<open>Err(e)\<close>. The operator \<open>?\<close> is \<open>result_bind\<close>.
\<close>

fun result_bind :: "'e + 'a \<Rightarrow> ('a \<Rightarrow> 'e + 'b) \<Rightarrow> 'e + 'b" where
  "result_bind (Inl e) f = Inl e"
| "result_bind (Inr x) f = f x"

fun map_err :: "('e \<Rightarrow> 'f) \<Rightarrow> 'e + 'a \<Rightarrow> 'f + 'a" where
  "map_err g (Inl e) = Inl (g e)"
| "map_err g (Inr x) = Inr x"

text \<open>\<open>Result::expect\<close>: an error aborts the process.\<close>

fun expect_ok :: "'e + 'a \<Rightarrow> 'a option" where
  "expect_ok (Inl e) = None"
| "expect_ok (Inr x) = Some x"

section \<open>Collections of facts\<close>

named_theorems panic_simps \<open>when an operation does not panic, and what it returns then\<close>
named_theorems wf_intros \<open>operations keep the well-formedness of a component\<close>

section \<open>Lemmas\<close>

lemma wrap64_id [simp]: "n < 2 ^ 64 \<Longrightarrow> wrap64 n = n"
  by (simp add: wrap64_def)

text \<open>Code equations that keep the large bounds out of the unary natural numbers.\<close>

lemma wrap64_code [code]: "wrap64 n = nat (int n mod 18446744073709551616)"
  by (simp add: wrap64_def nat_mod_distrib)

lemma saturating_add32_code [code]: "saturating_add32 a b = nat (min (int a + int b) 4294967295)"
  by (simp add: saturating_add32_def u32_max_def)

lemma wrap64_less: "wrap64 n < 2 ^ 64"
  by (simp add: wrap64_def)

lemma assert_that_True [simp]: "assert_that True = Some ()"
  by (simp add: assert_that_def)

lemma assert_that_False [simp]: "assert_that False = None"
  by (simp add: assert_that_def)

lemma assert_that_eq_Some [simp]: "assert_that b = Some u \<longleftrightarrow> b"
  by (simp add: assert_that_def)

lemma bind_assert_that [simp]:
  "Option.bind (assert_that b) f = (if b then f () else None)"
  by (simp add: assert_that_def)

lemma bind_SomeE:
  assumes "Option.bind m f = Some y"
  obtains x where "m = Some x" and "f x = Some y"
  using assms by (cases m) auto

lemma vec_get_eq_Some: "vec_get xs i = Some x \<longleftrightarrow> i < length xs \<and> xs ! i = x"
  by (auto simp: vec_get_def)

lemma vec_set_eq_Some: "vec_set xs i x = Some ys \<longleftrightarrow> i < length xs \<and> ys = xs[i := x]"
  by (auto simp: vec_set_def)

lemma vec_get_in_range [simp]: "i < length xs \<Longrightarrow> vec_get xs i = Some (xs ! i)"
  by (simp add: vec_get_def)

lemma vec_set_in_range [simp]: "i < length xs \<Longrightarrow> vec_set xs i x = Some (xs[i := x])"
  by (simp add: vec_set_def)

lemma result_bind_eq_Inr: "result_bind m f = Inr y \<longleftrightarrow> (\<exists>x. m = Inr x \<and> f x = Inr y)"
  by (cases m) auto

lemma map_err_eq_Inr: "map_err g m = Inr y \<longleftrightarrow> m = Inr y"
  by (cases m) auto

subsection \<open>Monadic folds\<close>

lemma foldM_append: "foldM f s (xs @ ys) = Option.bind (foldM f s xs) (\<lambda>s'. foldM f s' ys)"
  by (induction xs arbitrary: s) (auto split: bind_splits)

lemma foldM_invariant:
  assumes "foldM f s xs = Some t" and "I s"
    and "\<And>s x s'. x \<in> set xs \<Longrightarrow> I s \<Longrightarrow> f s x = Some s' \<Longrightarrow> I s'"
  shows "I t"
  using assms
proof (induction xs arbitrary: s)
  case (Cons x xs)
  from Cons.prems(1) obtain s' where s': "f s x = Some s'" and t: "foldM f s' xs = Some t"
    by (auto elim: bind_SomeE)
  have "I s'"
    using Cons.prems(2) s' by (rule Cons.prems(3) [rotated]) simp
  with t show ?case
    by (rule Cons.IH) (auto intro: Cons.prems(3))
qed simp

lemma foldM_total:
  assumes "I s"
    and "\<And>s x. x \<in> set xs \<Longrightarrow> I s \<Longrightarrow> \<exists>s'. f s x = Some s' \<and> I s'"
  shows "\<exists>t. foldM f s xs = Some t \<and> I t"
  using assms
proof (induction xs arbitrary: s)
  case (Cons x xs)
  then obtain s' where "f s x = Some s'" and "I s'"
    by (metis list.set_intros(1))
  moreover from this Cons have "\<exists>t. foldM f s' xs = Some t \<and> I t"
    by (metis list.set_intros(2))
  ultimately show ?case by auto
qed auto

lemma foldM_Some: "foldM (\<lambda>s x. Some (g s x)) s xs = Some (foldl g s xs)"
  by (induction xs arbitrary: s) auto

lemma foldM_cong_Some:
  assumes "\<And>s x. x \<in> set xs \<Longrightarrow> I s \<Longrightarrow> f s x = Some (g s x) \<and> I (g s x)" and "I s"
  shows "foldM f s xs = Some (foldl g s xs)"
  using assms
proof (induction xs arbitrary: s)
  case (Cons x xs)
  then have "f s x = Some (g s x)" and "I (g s x)" by auto
  with Cons show ?case by auto
qed simp

lemma mapM_eq_Some_iff: "mapM f xs = Some ys \<longleftrightarrow> list_all2 (\<lambda>x y. f x = Some y) xs ys"
proof (induction xs arbitrary: ys)
  case (Cons x xs)
  then show ?case
    by (cases ys) (auto simp: Option.bind_eq_Some_conv)
qed auto

lemma mapM_Some: "(\<And>x. x \<in> set xs \<Longrightarrow> f x = Some (g x)) \<Longrightarrow> mapM f xs = Some (map g xs)"
  by (induction xs) auto

lemma mapM_length: "mapM f xs = Some ys \<Longrightarrow> length ys = length xs"
  by (auto simp: mapM_eq_Some_iff dest: list_all2_lengthD)

lemma mapM_nth: "mapM f xs = Some ys \<Longrightarrow> i < length xs \<Longrightarrow> f (xs ! i) = Some (ys ! i)"
  by (auto simp: mapM_eq_Some_iff dest: list_all2_nthD)

lemma mapM_total: "(\<forall>x \<in> set xs. f x \<noteq> None) \<longleftrightarrow> (\<exists>ys. mapM f xs = Some ys)"
  by (induction xs) (auto elim!: bind_SomeE)

lemma mapM_in_set:
  assumes "mapM f xs = Some ys" and "y \<in> set ys"
  shows "\<exists>x \<in> set xs. f x = Some y"
  using assms
proof (induction xs arbitrary: ys)
  case (Cons x xs)
  then show ?case by (auto elim!: bind_SomeE)
qed simp

subsection \<open>Ordered iteration\<close>

lemma sorted_last_ge: "sorted xs \<Longrightarrow> x \<in> set xs \<Longrightarrow> x \<le> last xs"
  by (induction xs) auto

lemma distinct_sorted_list_of_fset [simp]: "distinct (sorted_list_of_fset S)"
  by (simp add: sorted_list_of_fset.rep_eq)

lemma sorted_sorted_list_of_fset [simp]: "sorted (sorted_list_of_fset S)"
  by (simp add: sorted_list_of_fset.rep_eq)

lemma map_fst_sorted_list_of_fmap [simp]:
  "map fst (sorted_list_of_fmap m) = sorted_list_of_fset (fmdom m)"
  by (simp add: sorted_list_of_fmap_def comp_def)

lemma distinct_sorted_list_of_fmap [simp]: "distinct (sorted_list_of_fmap m)"
proof -
  have "distinct (map fst (sorted_list_of_fmap m))" by simp
  then show ?thesis unfolding distinct_map by blast
qed

lemma in_sorted_list_of_fmap [simp]:
  "(k, v) \<in> set (sorted_list_of_fmap m) \<longleftrightarrow> fmlookup m k = Some v"
proof -
  have "distinct (map fst (sorted_list_of_fmap m))" by simp
  then show ?thesis
    using map_of_eq_Some_iff map_of_sorted_list by metis
qed

subsection \<open>Weighted sums\<close>

lemma sum_list_map_distinct: "distinct xs \<Longrightarrow> sum_list (map f xs) = sum f (set xs)"
  by (rule sum_list_distinct_conv_sum_set)

lemma sum_Un_le_nat: "finite A \<Longrightarrow> finite B \<Longrightarrow> sum f (A \<union> B) \<le> sum f A + (sum f B :: nat)"
  by (simp add: sum_Un_nat)

lemma sum_inter_union:
  fixes f :: "'a \<Rightarrow> nat"
  assumes "finite A" and "finite B"
  shows "sum f A + sum f B = sum f (A \<union> B) + sum f (A \<inter> B)"
  using assms by (rule sum.union_inter [symmetric])

end
