(* ===== verification/Committee.thy ===== *)
theory Committee
  imports Prelude
begin

text \<open>
  The committee of an epoch and the aggregation of stake over it:
  \<open>consensus/config/src/committee.rs\<close> (\<open>Committee\<close>, \<open>Authority\<close>, \<open>AuthorityIndex\<close>) and
  \<open>consensus/core/src/stake_aggregator.rs\<close> (\<open>CommitteeThreshold\<close>, \<open>StakeAggregator\<close>).
  The lemmas show the two intersection laws every agreement argument rests on (two quorums share
  a validity amount of stake; a quorum and a validity amount share an authority) and that an
  aggregator counts each authority once, whatever the order of the votes, without overflow.
\<close>

section \<open>Committee\<close>

text \<open>Addresses and public keys are kept as the strings and bytes they serialise to.\<close>

record authority =
  auth_stake :: stake
  auth_address :: string
  auth_hostname :: string
  auth_authority_key :: "nat list"
  auth_protocol_key :: "nat list"
  auth_network_key :: "nat list"

record committee =
  cm_epoch :: epoch
  cm_total_stake :: stake
  cm_quorum_threshold :: stake
  cm_validity_threshold :: stake
  cm_authorities :: "authority list"

definition committee_new :: "epoch \<Rightarrow> authority list \<Rightarrow> committee option" where
  "committee_new ep as = do {
     assert_that (as \<noteq> []);
     assert_that (length as < u32_max);
     let total = foldl (\<lambda>s a. wrap64 (s + auth_stake a)) 0 as;
     assert_that (total \<noteq> 0);
     Some \<lparr>cm_epoch = ep, cm_total_stake = total,
       cm_quorum_threshold = wrap64 (2 * total) div 3 + 1,
       cm_validity_threshold = wrap64 (total + 2) div 3,
       cm_authorities = as\<rparr>
   }"

definition committee_size :: "committee \<Rightarrow> nat" where
  "committee_size c = length (cm_authorities c)"

definition committee_authority :: "committee \<Rightarrow> authority_index \<Rightarrow> authority option" where
  "committee_authority c i = vec_get (cm_authorities c) i"

definition committee_stake :: "committee \<Rightarrow> authority_index \<Rightarrow> stake option" where
  "committee_stake c i = map_option auth_stake (vec_get (cm_authorities c) i)"

definition committee_authorities :: "committee \<Rightarrow> (authority_index \<times> authority) list" where
  "committee_authorities c = zip [0..<length (cm_authorities c)] (cm_authorities c)"

definition reached_quorum :: "committee \<Rightarrow> stake \<Rightarrow> bool" where
  "reached_quorum c s \<longleftrightarrow> cm_quorum_threshold c \<le> s"

definition reached_validity :: "committee \<Rightarrow> stake \<Rightarrow> bool" where
  "reached_validity c s \<longleftrightarrow> cm_validity_threshold c \<le> s"

definition to_authority_index :: "committee \<Rightarrow> nat \<Rightarrow> authority_index option" where
  "to_authority_index c i = (if i < length (cm_authorities c) then Some i else None)"

definition is_valid_index :: "committee \<Rightarrow> authority_index \<Rightarrow> bool" where
  "is_valid_index c i \<longleftrightarrow> i < committee_size c"

section \<open>Stake aggregator\<close>

text \<open>The two implementations of the trait \<open>CommitteeThreshold\<close>.\<close>

datatype committee_threshold = QuorumThreshold | ValidityThreshold

fun is_threshold :: "committee_threshold \<Rightarrow> committee \<Rightarrow> stake \<Rightarrow> bool" where
  "is_threshold QuorumThreshold c amount = reached_quorum c amount"
| "is_threshold ValidityThreshold c amount = reached_validity c amount"

fun threshold_of :: "committee_threshold \<Rightarrow> committee \<Rightarrow> stake" where
  "threshold_of QuorumThreshold c = cm_quorum_threshold c"
| "threshold_of ValidityThreshold c = cm_validity_threshold c"

record stake_aggregator =
  sa_votes :: "authority_index fset"
  sa_stake :: stake

definition sa_new :: stake_aggregator where
  "sa_new = \<lparr>sa_votes = {||}, sa_stake = 0\<rparr>"

text \<open>
  \<open>add_unique\<close>, and \<open>add\<close>, which runs the same insertion and then tests the threshold. The Rust
  code inserts into the vote set before it reads the stake of the authority, whose index it checks.
\<close>

definition sa_add_unique ::
  "committee \<Rightarrow> stake_aggregator \<Rightarrow> authority_index \<Rightarrow> (stake_aggregator \<times> bool) option" where
  "sa_add_unique c sa vote =
     (if vote |\<in>| sa_votes sa then Some (sa, False)
      else do {
        s \<leftarrow> committee_stake c vote;
        Some (sa\<lparr>sa_votes := finsert vote (sa_votes sa), sa_stake := wrap64 (sa_stake sa + s)\<rparr>, True)
      })"

definition sa_add ::
  "committee_threshold \<Rightarrow> committee \<Rightarrow> stake_aggregator \<Rightarrow> authority_index \<Rightarrow>
     (stake_aggregator \<times> bool) option" where
  "sa_add T c sa vote =
     (if vote |\<in>| sa_votes sa then Some (sa, is_threshold T c (sa_stake sa))
      else do {
        s \<leftarrow> committee_stake c vote;
        let sa' = sa\<lparr>sa_votes := finsert vote (sa_votes sa), sa_stake := wrap64 (sa_stake sa + s)\<rparr>;
        Some (sa', is_threshold T c (sa_stake sa'))
      })"

definition sa_reached_threshold :: "committee_threshold \<Rightarrow> committee \<Rightarrow> stake_aggregator \<Rightarrow> bool" where
  "sa_reached_threshold T c sa = is_threshold T c (sa_stake sa)"

definition sa_threshold :: "committee_threshold \<Rightarrow> committee \<Rightarrow> stake_aggregator \<Rightarrow> stake" where
  "sa_threshold T c sa = threshold_of T c"

definition sa_clear :: "stake_aggregator \<Rightarrow> stake_aggregator" where
  "sa_clear sa = sa\<lparr>sa_votes := {||}, sa_stake := 0\<rparr>"

text \<open>
  The loop \<open>for v in votes { if aggregator.add(v) { return true; } } false\<close>, which the commit
  rules run on the authors of the blocks they select.
\<close>

fun vote_loop ::
  "committee_threshold \<Rightarrow> committee \<Rightarrow> stake_aggregator \<Rightarrow> authority_index list \<Rightarrow> bool option" where
  "vote_loop T c sa [] = Some False"
| "vote_loop T c sa (v # vs) = do {
     (sa', reached) \<leftarrow> sa_add T c sa v;
     if reached then Some True else vote_loop T c sa' vs
   }"

section \<open>Specification: the weight of a set of authorities\<close>

definition authority_weight :: "committee \<Rightarrow> authority_index \<Rightarrow> stake" where
  "authority_weight c i =
     (if i < committee_size c then auth_stake (cm_authorities c ! i) else 0)"

definition weight :: "committee \<Rightarrow> authority_index set \<Rightarrow> stake" where
  "weight c A = (\<Sum>i \<in> A \<inter> {..<committee_size c}. authority_weight c i)"

text \<open>
  A committee as \<open>committee_new\<close> builds it from stakes that do not overflow the 64-bit arithmetic
  (on chain they sum to 10,000).
\<close>

definition committee_ok :: "committee \<Rightarrow> bool" where
  "committee_ok c \<longleftrightarrow>
     cm_total_stake c = sum_list (map auth_stake (cm_authorities c)) \<and>
     0 < cm_total_stake c \<and> 2 * cm_total_stake c + 2 < 2 ^ 64 \<and>
     cm_quorum_threshold c = 2 * cm_total_stake c div 3 + 1 \<and>
     cm_validity_threshold c = (cm_total_stake c + 2) div 3"

text \<open>What an aggregator holds: valid voters and exactly their weight.\<close>

definition sa_inv :: "committee \<Rightarrow> stake_aggregator \<Rightarrow> bool" where
  "sa_inv c sa \<longleftrightarrow>
     fset (sa_votes sa) \<subseteq> {..<committee_size c} \<and> sa_stake sa = weight c (fset (sa_votes sa))"

section \<open>Lemmas on the committee\<close>

lemma foldl_wrap64_stakes:
  "s + sum_list (map auth_stake as) < 2 ^ 64 \<Longrightarrow>
     foldl (\<lambda>s a. wrap64 (s + auth_stake a)) s as = s + sum_list (map auth_stake as)"
proof (induction as arbitrary: s)
  case (Cons a as)
  then show ?case using Cons.IH [of "s + auth_stake a"] by (simp add: add.assoc)
qed simp

lemma foldl_wrap64_mod:
  "foldl (\<lambda>s a. wrap64 (s + auth_stake a)) 0 as = sum_list (map auth_stake as) mod 2 ^ 64"
proof (induction as rule: rev_induct)
  case (snoc a as)
  then show ?case by (simp add: wrap64_def mod_add_left_eq)
qed simp

lemma committee_new_ok:
  assumes "committee_new ep as = Some c" and "2 * sum_list (map auth_stake as) + 2 < 2 ^ 64"
  shows "committee_ok c"
  using assms foldl_wrap64_stakes [of 0 as]
  by (auto simp: committee_new_def committee_ok_def Let_def split: if_splits)

lemma committee_new_size: "committee_new ep as = Some c \<Longrightarrow> committee_size c = length as"
  by (auto simp: committee_new_def committee_size_def Let_def split: if_splits)

lemma committee_stake_eq [panic_simps]:
  "i < committee_size c \<Longrightarrow> committee_stake c i = Some (authority_weight c i)"
  by (simp add: committee_stake_def committee_size_def authority_weight_def)

lemma committee_stake_Some: "committee_stake c i = Some s \<longleftrightarrow> i < committee_size c \<and> s = authority_weight c i"
  by (auto simp: committee_stake_def committee_size_def authority_weight_def vec_get_def)

lemma length_committee_authorities [simp]: "length (committee_authorities c) = committee_size c"
  by (simp add: committee_authorities_def committee_size_def)

lemma nth_committee_authorities [simp]:
  "i < committee_size c \<Longrightarrow> committee_authorities c ! i = (i, cm_authorities c ! i)"
  by (simp add: committee_authorities_def committee_size_def)

lemma finite_weight_dom [simp]: "finite (A \<inter> {..<committee_size c})"
  by simp

lemma weight_empty [simp]: "weight c {} = 0"
  by (simp add: weight_def)

lemma weight_mono: "A \<subseteq> B \<Longrightarrow> weight c A \<le> weight c B"
  unfolding weight_def by (rule sum_mono2) auto

lemma weight_insert:
  "i \<notin> A \<Longrightarrow> weight c (insert i A) = authority_weight c i + weight c A"
  by (simp add: weight_def Int_insert_left authority_weight_def)

lemma weight_union_inter: "weight c A + weight c B = weight c (A \<union> B) + weight c (A \<inter> B)"
proof -
  let ?V = "{..<committee_size c}"
  have "(A \<union> B) \<inter> ?V = (A \<inter> ?V) \<union> (B \<inter> ?V)" and "A \<inter> B \<inter> ?V = (A \<inter> ?V) \<inter> (B \<inter> ?V)"
    by auto
  then show ?thesis
    unfolding weight_def
    using sum_inter_union [of "A \<inter> ?V" "B \<inter> ?V" "authority_weight c"] by simp
qed

lemma weight_all: "weight c {..<committee_size c} = sum_list (map auth_stake (cm_authorities c))"
  by (simp add: weight_def authority_weight_def committee_size_def sum_list_sum_nth atLeast0LessThan)

lemma weight_le_total: "committee_ok c \<Longrightarrow> weight c A \<le> cm_total_stake c"
proof -
  assume ok: "committee_ok c"
  have "weight c A = weight c (A \<inter> {..<committee_size c})"
    by (simp add: weight_def)
  also have "\<dots> \<le> weight c {..<committee_size c}"
    by (rule weight_mono) simp
  finally show ?thesis using ok by (simp add: weight_all committee_ok_def)
qed

lemma weight_nonzero_ex:
  "0 < weight c A \<Longrightarrow> \<exists>i \<in> A. i < committee_size c"
proof (rule ccontr)
  assume "0 < weight c A" and "\<not> (\<exists>i \<in> A. i < committee_size c)"
  moreover from this(2) have "A \<inter> {..<committee_size c} = {}" by auto
  ultimately show False by (simp add: weight_def)
qed

lemma threshold_arith_quorums: "t + (t + 2) div 3 \<le> 2 * (2 * (t::nat) div 3 + 1)"
  by presburger

lemma threshold_arith_blocking: "t < (2 * (t::nat) div 3 + 1) + (t + 2) div 3"
  by presburger

lemma threshold_arith_order: "(t + 2) div 3 \<le> 2 * (t::nat) div 3 + 1"
  by presburger

lemma threshold_arith_pos: "0 < (t::nat) \<Longrightarrow> 0 < (t + 2) div 3"
  by presburger

lemma threshold_arith_total: "0 < (t::nat) \<Longrightarrow> 2 * t div 3 + 1 \<le> t"
  by presburger

lemma threshold_arith_split: "(t + 2) div 3 + 2 * (t::nat) div 3 = t"
  by presburger

lemma threshold_arith_complement:
  assumes "s < (t + 2) div 3" and "s + r = t"
  shows "2 * (t::nat) div 3 + 1 \<le> r"
  using assms threshold_arith_split [of t] by linarith

lemmas threshold_arith = threshold_arith_quorums threshold_arith_blocking threshold_arith_order
  threshold_arith_pos threshold_arith_total

lemma committee_thresholds:
  assumes "committee_ok c"
  shows "cm_quorum_threshold c = 2 * cm_total_stake c div 3 + 1"
    and "cm_validity_threshold c = (cm_total_stake c + 2) div 3"
    and "0 < cm_total_stake c"
  using assms unfolding committee_ok_def by blast+

lemma quorum_plus_quorum:
  "committee_ok c \<Longrightarrow> cm_total_stake c + cm_validity_threshold c \<le> 2 * cm_quorum_threshold c"
  by (simp only: committee_thresholds threshold_arith)

lemma quorum_plus_validity:
  "committee_ok c \<Longrightarrow> cm_total_stake c < cm_quorum_threshold c + cm_validity_threshold c"
  by (simp only: committee_thresholds threshold_arith)

lemma validity_complement:
  "committee_ok c \<Longrightarrow> s < cm_validity_threshold c \<Longrightarrow> s + r = cm_total_stake c \<Longrightarrow> cm_quorum_threshold c \<le> r"
  using threshold_arith_complement [of s "cm_total_stake c" r] by (simp only: committee_thresholds)

lemma validity_positive: "committee_ok c \<Longrightarrow> 0 < cm_validity_threshold c"
  by (simp only: committee_thresholds threshold_arith)

lemma validity_le_quorum: "committee_ok c \<Longrightarrow> cm_validity_threshold c \<le> cm_quorum_threshold c"
  by (simp only: committee_thresholds threshold_arith)

lemma quorum_le_total: "committee_ok c \<Longrightarrow> cm_quorum_threshold c \<le> cm_total_stake c"
  by (simp only: committee_thresholds threshold_arith)

section \<open>The intersection laws as an interface\<close>

text \<open>
  What the agreement arguments use of a committee: weights of sets of authorities, and the two
  thresholds with their intersection law. \<open>Byz\<close> below is any set of authorities whose weight stays
  under the validity threshold.
\<close>

locale quorum_system =
  fixes ok :: "'c \<Rightarrow> bool"
    and wt :: "'c \<Rightarrow> 'a set \<Rightarrow> nat"
    and quorum :: "'c \<Rightarrow> nat \<Rightarrow> bool"
    and validity :: "'c \<Rightarrow> nat \<Rightarrow> bool"
  assumes wt_mono: "A \<subseteq> B \<Longrightarrow> wt c A \<le> wt c B"
    and quorum_up: "quorum c m \<Longrightarrow> m \<le> n \<Longrightarrow> quorum c n"
    and validity_up: "validity c m \<Longrightarrow> m \<le> n \<Longrightarrow> validity c n"
    and quorum_validity: "ok c \<Longrightarrow> quorum c m \<Longrightarrow> validity c m"
    and quorums_share: "ok c \<Longrightarrow> quorum c (wt c A) \<Longrightarrow> quorum c (wt c B) \<Longrightarrow> validity c (wt c (A \<inter> B))"
    and blocking: "ok c \<Longrightarrow> quorum c (wt c A) \<Longrightarrow> validity c (wt c B) \<Longrightarrow> A \<inter> B \<noteq> {}"
begin

lemma quorum_superset: "quorum c (wt c A) \<Longrightarrow> A \<subseteq> B \<Longrightarrow> quorum c (wt c B)"
  using quorum_up wt_mono by blast

lemma validity_not_subset:
  assumes "validity c (wt c A)" and "\<not> validity c (wt c Byz)"
  shows "\<exists>i \<in> A. i \<notin> Byz"
  using assms validity_up wt_mono by blast

lemma honest_in_quorum:
  "ok c \<Longrightarrow> quorum c (wt c A) \<Longrightarrow> \<not> validity c (wt c Byz) \<Longrightarrow> \<exists>i \<in> A. i \<notin> Byz"
  using validity_not_subset quorum_validity by blast

lemma honest_in_both:
  "ok c \<Longrightarrow> quorum c (wt c A) \<Longrightarrow> quorum c (wt c B) \<Longrightarrow> \<not> validity c (wt c Byz) \<Longrightarrow>
     \<exists>i \<in> A \<inter> B. i \<notin> Byz"
  using validity_not_subset quorums_share by blast

end

lemma reached_quorum_mono: "reached_quorum c m \<Longrightarrow> m \<le> n \<Longrightarrow> reached_quorum c n"
  by (simp add: reached_quorum_def)

lemma reached_validity_mono: "reached_validity c m \<Longrightarrow> m \<le> n \<Longrightarrow> reached_validity c n"
  by (simp add: reached_validity_def)

lemma quorums_share_validity:
  assumes "committee_ok c" and "reached_quorum c (weight c A)" and "reached_quorum c (weight c B)"
  shows "reached_validity c (weight c (A \<inter> B))"
  using assms weight_union_inter [of c A B] weight_le_total [of c "A \<union> B"] quorum_plus_quorum [of c]
  unfolding reached_quorum_def reached_validity_def by linarith

lemma quorum_meets_validity:
  assumes "committee_ok c" and "reached_quorum c (weight c A)" and "reached_validity c (weight c B)"
  shows "A \<inter> B \<noteq> {}"
proof
  assume "A \<inter> B = {}"
  then show False
    using assms weight_union_inter [of c A B] weight_le_total [of c "A \<union> B"] quorum_plus_validity [of c]
    unfolding reached_quorum_def reached_validity_def by simp
qed

interpretation cq: quorum_system committee_ok weight reached_quorum reached_validity
proof
  show "committee_ok c \<Longrightarrow> reached_quorum c m \<Longrightarrow> reached_validity c m" for c m
    unfolding reached_quorum_def reached_validity_def using validity_le_quorum by fastforce
qed (auto intro: weight_mono reached_quorum_mono reached_validity_mono quorums_share_validity
       dest: quorum_meets_validity)

section \<open>Lemmas on the stake aggregator\<close>

lemma sa_inv_new [simp, intro, wf_intros]: "sa_inv c sa_new"
  by (simp add: sa_inv_def sa_new_def)

lemma sa_inv_clear [simp, intro, wf_intros]: "sa_inv c (sa_clear sa)"
  by (simp add: sa_inv_def sa_clear_def)

lemma sa_votes_new [simp]: "sa_votes sa_new = {||}"
  by (simp add: sa_new_def)

lemma sa_stake_new [simp]: "sa_stake sa_new = 0"
  by (simp add: sa_new_def)

lemma sa_votes_clear [simp]: "sa_votes (sa_clear sa) = {||}"
  by (simp add: sa_clear_def)

lemma sa_stake_no_overflow:
  assumes "committee_ok c" and "sa_inv c sa" and "v |\<notin>| sa_votes sa"
  shows "wrap64 (sa_stake sa + authority_weight c v) = weight c (fset (finsert v (sa_votes sa)))"
proof -
  have eq: "sa_stake sa + authority_weight c v = weight c (fset (finsert v (sa_votes sa)))"
    using assms weight_insert [of v "fset (sa_votes sa)" c] by (simp add: sa_inv_def)
  have "\<dots> < 2 ^ 64"
    using assms(1) weight_le_total [OF assms(1), of "fset (finsert v (sa_votes sa))"]
    unfolding committee_ok_def by linarith
  with eq show ?thesis by simp
qed

text \<open>The aggregator after counting a vote, and what the two insertion methods return.\<close>

definition sa_count :: "committee \<Rightarrow> stake_aggregator \<Rightarrow> authority_index \<Rightarrow> stake_aggregator" where
  "sa_count c sa v =
     sa\<lparr>sa_votes := finsert v (sa_votes sa), sa_stake := weight c (fset (finsert v (sa_votes sa)))\<rparr>"

lemma sa_votes_count [simp]: "sa_votes (sa_count c sa v) = finsert v (sa_votes sa)"
  by (simp add: sa_count_def)

lemma sa_inv_count [wf_intros]: "sa_inv c sa \<Longrightarrow> v < committee_size c \<Longrightarrow> sa_inv c (sa_count c sa v)"
  by (simp add: sa_inv_def sa_count_def)

lemma sa_inv_stake: "sa_inv c sa \<Longrightarrow> sa_stake sa = weight c (fset (sa_votes sa))"
  by (simp add: sa_inv_def)

lemma sa_count_counted: "sa_inv c sa \<Longrightarrow> v |\<in>| sa_votes sa \<Longrightarrow> sa_count c sa v = sa"
  by (simp add: sa_count_def sa_inv_def finsert_absorb)

lemma sa_add_eq [panic_simps]:
  assumes "committee_ok c" and "sa_inv c sa" and "v < committee_size c"
  shows "sa_add T c sa v = Some (sa_count c sa v, is_threshold T c (sa_stake (sa_count c sa v)))"
proof (cases "v |\<in>| sa_votes sa")
  case True
  then show ?thesis using assms by (simp add: sa_add_def sa_count_counted)
next
  case False
  then show ?thesis
    using assms sa_stake_no_overflow [OF assms(1,2) False]
    by (simp add: sa_add_def sa_count_def committee_stake_eq)
qed

lemma sa_add_unique_eq [panic_simps]:
  assumes "committee_ok c" and "sa_inv c sa" and "v < committee_size c"
  shows "sa_add_unique c sa v = Some (sa_count c sa v, v |\<notin>| sa_votes sa)"
proof (cases "v |\<in>| sa_votes sa")
  case True
  then show ?thesis using assms by (simp add: sa_add_unique_def sa_count_counted)
next
  case False
  then show ?thesis
    using assms sa_stake_no_overflow [OF assms(1,2) False]
    by (simp add: sa_add_unique_def sa_count_def committee_stake_eq)
qed

lemma sa_add_invalid: "v |\<notin>| sa_votes sa \<Longrightarrow> committee_size c \<le> v \<Longrightarrow> sa_add T c sa v = None"
  by (simp add: sa_add_def committee_stake_def vec_get_def committee_size_def)

lemma is_threshold_mono: "is_threshold T c m \<Longrightarrow> m \<le> n \<Longrightarrow> is_threshold T c n"
  by (cases T) (auto intro: reached_quorum_mono reached_validity_mono)

lemma is_threshold_0: "committee_ok c \<Longrightarrow> \<not> is_threshold T c 0"
  using validity_positive [of c]
  by (cases T) (auto simp: reached_quorum_def reached_validity_def committee_thresholds)

text \<open>The early return does not change the outcome: the loop tests the weight of all its votes.\<close>

lemma vote_loop_eq:
  assumes "committee_ok c" and "sa_inv c sa" and "\<forall>v \<in> set vs. v < committee_size c"
    and "\<not> is_threshold T c (sa_stake sa)"
  shows "vote_loop T c sa vs = Some (is_threshold T c (weight c (fset (sa_votes sa) \<union> set vs)))"
  using assms
proof (induction vs arbitrary: sa)
  case Nil
  then show ?case by (simp add: sa_inv_stake)
next
  case (Cons v vs)
  let ?sa = "sa_count c sa v"
  have inv: "sa_inv c ?sa" using Cons.prems by (simp add: sa_inv_count)
  have un: "fset (sa_votes sa) \<union> set (v # vs) = fset (sa_votes ?sa) \<union> set vs" by auto
  show ?case
  proof (cases "is_threshold T c (sa_stake ?sa)")
    case True
    then have "is_threshold T c (weight c (fset (sa_votes ?sa) \<union> set vs))"
      using inv by (auto simp: sa_inv_stake intro: is_threshold_mono weight_mono)
    with True un show ?thesis using Cons.prems by (simp add: sa_add_eq)
  next
    case False
    with Cons inv show ?thesis unfolding un by (simp add: sa_add_eq)
  qed
qed

lemma vote_loop_new [panic_simps]:
  assumes "committee_ok c" and "\<forall>v \<in> set vs. v < committee_size c"
  shows "vote_loop T c sa_new vs = Some (is_threshold T c (weight c (set vs)))"
  using vote_loop_eq [of c sa_new vs T] assms is_threshold_0 [of c T] by simp

section \<open>Properties\<close>

lemma sa_fold_add:
  assumes "committee_ok c" and "sa_inv c sa" and "\<forall>v \<in> set vs. v < committee_size c"
  shows "foldM (\<lambda>sa v. map_option fst (sa_add T c sa v)) sa vs =
     Some \<lparr>sa_votes = sa_votes sa |\<union>| fset_of_list vs, sa_stake = weight c (fset (sa_votes sa) \<union> set vs)\<rparr>"
  using assms
proof (induction vs arbitrary: sa)
  case Nil
  then show ?case by (simp add: sa_inv_stake)
next
  case (Cons v vs)
  then show ?case by (simp add: sa_add_eq sa_inv_count)
qed

text \<open>
  C16: two quorums of a committee built by \<open>Committee::new\<close> share an authority outside any set of
  authorities whose stake stays below the validity threshold.
\<close>

theorem quorums_share_honest:
  assumes "committee_new ep as = Some c" and "2 * sum_list (map auth_stake as) + 2 < 2 ^ 64"
    and "reached_quorum c (weight c A)" and "reached_quorum c (weight c B)"
    and "\<not> reached_validity c (weight c Byz)"
  shows "\<exists>i. i \<in> A \<and> i \<in> B \<and> i \<notin> Byz \<and> is_valid_index c i"
proof -
  let ?V = "{..<committee_size c}"
  have ok: "committee_ok c" using assms(1,2) by (rule committee_new_ok)
  have "weight c (A \<inter> ?V) = weight c A" by (simp add: weight_def)
  with cq.honest_in_both [OF ok, of "A \<inter> ?V" B Byz] assms show ?thesis
    by (auto simp: is_valid_index_def)
qed

definition example_authority :: "stake \<Rightarrow> authority" where
  "example_authority s = \<lparr>auth_stake = s, auth_address = [], auth_hostname = [],
     auth_authority_key = [], auth_protocol_key = [], auth_network_key = []\<rparr>"

definition example_authorities :: "authority list" where
  "example_authorities = [example_authority 1, example_authority 1, example_authority 1, example_authority 1]"

definition example_committee :: committee where
  "example_committee = \<lparr>cm_epoch = 0, cm_total_stake = 4, cm_quorum_threshold = 3,
     cm_validity_threshold = 2, cm_authorities = example_authorities\<rparr>"

lemma committee_new_example [simp]:
  "committee_new 0 example_authorities = Some example_committee"
  by (simp add: committee_new_def example_committee_def example_authorities_def example_authority_def
      u32_max_def wrap64_def)

lemma example_authorities_total [simp]: "sum_list (map auth_stake example_authorities) = 4"
  by (simp add: example_authorities_def example_authority_def)

lemma example_committee_simps [simp]:
  "committee_size example_committee = 4"
  "cm_authorities example_committee = example_authorities"
  "cm_quorum_threshold example_committee = 3"
  "cm_validity_threshold example_committee = 2"
  by (simp_all add: example_committee_def example_authorities_def committee_size_def)

lemma committee_ok_example [simp]: "committee_ok example_committee"
  by (simp add: committee_ok_def example_committee_def example_authorities_def example_authority_def)

lemma weight_example [simp]: "A \<subseteq> {..<4} \<Longrightarrow> weight example_committee A = card A"
proof -
  assume A: "A \<subseteq> {..<4}"
  then have "\<And>i. i \<in> A \<Longrightarrow> authority_weight example_committee i = 1"
    by (auto simp: authority_weight_def example_authorities_def example_authority_def less_Suc_eq
        numeral_eq_Suc)
  with A show ?thesis by (simp add: weight_def Int_absorb2)
qed

theorem quorums_share_honest_witness:
  "\<exists>i. i \<in> {0, 1, 2} \<and> i \<in> {1, 2, 3} \<and> i \<notin> {1} \<and> is_valid_index example_committee i"
  by (rule quorums_share_honest [of 0 example_authorities])
    (simp_all add: reached_quorum_def reached_validity_def)

text \<open>
  C17: when the faulty authorities hold less than the validity threshold, the others hold a quorum,
  so waiting for a quorum never blocks on the faulty ones.
\<close>

theorem correct_authorities_form_quorum:
  assumes "committee_new ep as = Some c" and "2 * sum_list (map auth_stake as) + 2 < 2 ^ 64"
    and "\<not> reached_validity c (weight c Byz)"
  shows "reached_quorum c (weight c (- Byz))"
proof -
  have ok: "committee_ok c" using assms(1,2) by (rule committee_new_ok)
  have "weight c Byz + weight c (- Byz) = cm_total_stake c"
    using ok weight_union_inter [of c Byz "- Byz"] weight_all [of c]
    by (simp add: weight_def committee_ok_def)
  with assms(3) validity_complement [OF ok] show ?thesis
    unfolding reached_quorum_def reached_validity_def by (simp add: not_le)
qed

theorem correct_authorities_form_quorum_witness:
  "reached_quorum example_committee (weight example_committee (- {2}))"
  by (rule correct_authorities_form_quorum [of 0 example_authorities])
    (simp_all add: reached_validity_def)

text \<open>
  C18: adding votes one by one counts each authority once: after any sequence of valid votes the
  aggregator holds the set of voters and exactly its weight, without overflow.
\<close>

theorem aggregator_counts_once:
  assumes "committee_ok c" and "\<forall>v \<in> set vs. is_valid_index c v"
  shows "foldM (\<lambda>sa v. map_option fst (sa_add T c sa v)) sa_new vs =
     Some \<lparr>sa_votes = fset_of_list vs, sa_stake = weight c (set vs)\<rparr>"
  using sa_fold_add [of c sa_new vs T] assms by (simp add: is_valid_index_def)

theorem aggregator_counts_once_witness:
  "foldM (\<lambda>sa v. map_option fst (sa_add QuorumThreshold example_committee sa v)) sa_new [2, 0, 2] =
     Some \<lparr>sa_votes = {|2, 0|}, sa_stake = 2\<rparr>"
  using aggregator_counts_once [of example_committee "[2, 0, 2]" QuorumThreshold]
  by (simp add: is_valid_index_def insert_commute finsert_commute)

end
