(* ===== verification/Blocks.thy ===== *)
theory Blocks
  imports Committee "HOL-Library.Word"
begin

text \<open>
  Blocks and their references: \<open>consensus/types/src/block.rs\<close> (\<open>BlockRef\<close>, \<open>BlockDigest\<close>),
  \<open>consensus/core/src/block.rs\<close> (\<open>Block\<close>, \<open>Slot\<close>, \<open>SignedBlock\<close>, \<open>VerifiedBlock\<close>, genesis blocks)
  and the fields of \<open>consensus/core/src/context.rs\<close> the modelled code reads.

  Serialisation (bcs), hashing and the signature scheme are third-party code: they are the fields
  of the record \<open>crypto\<close>, an argument of the definitions that use them. A digest is the 256-bit
  number its 32 bytes spell, so that the derived order of the Rust arrays is the order of words.
\<close>

section \<open>References\<close>

type_synonym bytes = "nat list"
type_synonym digest = "256 word"

definition DIGEST_MIN :: digest where
  "DIGEST_MIN = 0"

definition DIGEST_MAX :: digest where
  "DIGEST_MAX = - 1"

datatype block_ref = BlockRef (br_round: round) (br_author: authority_index) (br_digest: digest)

text \<open>The derived \<open>Ord\<close> instance compares the fields in their order.\<close>

definition block_ref_le :: "block_ref \<Rightarrow> block_ref \<Rightarrow> bool" where
  "block_ref_le a b \<longleftrightarrow>
     br_round a < br_round b \<or>
     br_round a = br_round b \<and>
       (br_author a < br_author b \<or> br_author a = br_author b \<and> br_digest a \<le> br_digest b)"

instantiation block_ref :: linorder
begin

definition less_eq_block_ref :: "block_ref \<Rightarrow> block_ref \<Rightarrow> bool" where
  "less_eq_block_ref a b = block_ref_le a b"

definition less_block_ref :: "block_ref \<Rightarrow> block_ref \<Rightarrow> bool" where
  "less_block_ref a b \<longleftrightarrow>
     br_round a < br_round b \<or>
     br_round a = br_round b \<and>
       (br_author a < br_author b \<or> br_author a = br_author b \<and> br_digest a < br_digest b)"

instance
  by standard (auto simp: less_eq_block_ref_def block_ref_le_def less_block_ref_def block_ref.expand)

end

datatype commit_ref = CommitRef (cr_index: commit_index) (cr_digest: digest)

instantiation commit_ref :: linorder
begin

definition less_eq_commit_ref :: "commit_ref \<Rightarrow> commit_ref \<Rightarrow> bool" where
  "less_eq_commit_ref a b \<longleftrightarrow>
     cr_index a < cr_index b \<or> cr_index a = cr_index b \<and> cr_digest a \<le> cr_digest b"

definition less_commit_ref :: "commit_ref \<Rightarrow> commit_ref \<Rightarrow> bool" where
  "less_commit_ref a b \<longleftrightarrow>
     cr_index a < cr_index b \<or> cr_index a = cr_index b \<and> cr_digest a < cr_digest b"

instance
  by standard (auto simp: less_eq_commit_ref_def less_commit_ref_def commit_ref.expand)

end

type_synonym commit_vote = commit_ref

definition GENESIS_ROUND :: round where
  "GENESIS_ROUND = 0"

datatype slot = Slot (slot_round: round) (slot_authority: authority_index)

definition slot_of_ref :: "block_ref \<Rightarrow> slot" where
  "slot_of_ref r = Slot (br_round r) (br_author r)"

section \<open>Blocks\<close>

record transaction =
  tx_data :: bytes

record block_transaction_votes =
  btv_block_ref :: block_ref
  btv_rejects :: "transaction_index list"

datatype misbehavior_proof = InvalidBlock block_ref

record misbehavior_report =
  mr_target :: authority_index
  mr_proof :: misbehavior_proof

record block_v1 =
  b1_epoch :: epoch
  b1_round :: round
  b1_author :: authority_index
  b1_timestamp_ms :: timestamp_ms
  b1_ancestors :: "block_ref list"
  b1_transactions :: "transaction list"
  b1_commit_votes :: "commit_vote list"
  b1_misbehavior_reports :: "misbehavior_report list"

record block_v2 =
  b2_epoch :: epoch
  b2_round :: round
  b2_author :: authority_index
  b2_timestamp_ms :: timestamp_ms
  b2_ancestors :: "block_ref list"
  b2_transactions :: "transaction list"
  b2_transaction_votes :: "block_transaction_votes list"
  b2_commit_votes :: "commit_vote list"
  b2_misbehavior_reports :: "misbehavior_report list"

datatype block = BlockV1 block_v1 | BlockV2 block_v2

fun block_epoch :: "block \<Rightarrow> epoch" where
  "block_epoch (BlockV1 b) = b1_epoch b"
| "block_epoch (BlockV2 b) = b2_epoch b"

fun block_round :: "block \<Rightarrow> round" where
  "block_round (BlockV1 b) = b1_round b"
| "block_round (BlockV2 b) = b2_round b"

fun block_author :: "block \<Rightarrow> authority_index" where
  "block_author (BlockV1 b) = b1_author b"
| "block_author (BlockV2 b) = b2_author b"

definition block_slot :: "block \<Rightarrow> slot" where
  "block_slot b = Slot (block_round b) (block_author b)"

fun block_timestamp_ms :: "block \<Rightarrow> timestamp_ms" where
  "block_timestamp_ms (BlockV1 b) = b1_timestamp_ms b"
| "block_timestamp_ms (BlockV2 b) = b2_timestamp_ms b"

fun block_ancestors :: "block \<Rightarrow> block_ref list" where
  "block_ancestors (BlockV1 b) = b1_ancestors b"
| "block_ancestors (BlockV2 b) = b2_ancestors b"

fun block_transactions :: "block \<Rightarrow> transaction list" where
  "block_transactions (BlockV1 b) = b1_transactions b"
| "block_transactions (BlockV2 b) = b2_transactions b"

definition block_transactions_data :: "block \<Rightarrow> bytes list" where
  "block_transactions_data b = map tx_data (block_transactions b)"

fun block_commit_votes :: "block \<Rightarrow> commit_vote list" where
  "block_commit_votes (BlockV1 b) = b1_commit_votes b"
| "block_commit_votes (BlockV2 b) = b2_commit_votes b"

fun block_tx_votes :: "block \<Rightarrow> block_transaction_votes list" where
  "block_tx_votes (BlockV1 b) = []"
| "block_tx_votes (BlockV2 b) = b2_transaction_votes b"

fun block_misbehavior_reports :: "block \<Rightarrow> misbehavior_report list" where
  "block_misbehavior_reports (BlockV1 b) = b1_misbehavior_reports b"
| "block_misbehavior_reports (BlockV2 b) = b2_misbehavior_reports b"

record signed_block =
  sb_inner :: block
  sb_signature :: bytes

section \<open>Context\<close>

text \<open>The protocol configuration and the parameters, by the getters the modelled code calls.\<close>

record protocol_config =
  pc_enforce_checkpoint_timestamp_monotonicity :: bool
  pc_mysticeti_fastpath :: bool
  pc_max_transaction_size_bytes :: nat
  pc_max_num_transactions_in_block :: nat
  pc_max_transactions_in_block_bytes :: nat
  pc_mysticeti_num_leaders_per_round :: "nat option"
  pc_gc_depth :: round
  pc_bad_nodes_stake_threshold :: nat

record parameters =
  pm_min_round_delay :: nat
  pm_propagation_delay_stop_proposal_threshold :: round
  pm_dag_state_cached_rounds :: round

record consensus_context =
  cx_epoch_start_timestamp_ms :: timestamp_ms
  cx_own_index :: authority_index
  cx_committee :: committee
  cx_parameters :: parameters
  cx_protocol_config :: protocol_config

section \<open>Serialisation, hashing and signatures\<close>

text \<open>
  \<open>cr_bcs_block\<close>, \<open>cr_bcs_signed_block\<close> and \<open>cr_bcs_intent\<close> are \<open>bcs::to_bytes\<close> at the three types the
  code serialises (the last one is the digest wrapped in its intent message), \<open>cr_hash\<close> the hash
  function, \<open>cr_from_bytes\<close>, \<open>cr_verify\<close> and \<open>cr_sign\<close> the signature scheme. Signatures are kept as
  their bytes; the left summand is the text of the error.
\<close>

record crypto =
  cr_bcs_block :: "block \<Rightarrow> string + bytes"
  cr_bcs_signed_block :: "signed_block \<Rightarrow> string + bytes"
  cr_bcs_intent :: "digest \<Rightarrow> string + bytes"
  cr_hash :: "bytes \<Rightarrow> digest"
  cr_from_bytes :: "bytes \<Rightarrow> string + bytes"
  cr_verify :: "bytes \<Rightarrow> bytes \<Rightarrow> bytes \<Rightarrow> string + unit"
  cr_sign :: "bytes \<Rightarrow> bytes \<Rightarrow> bytes"

section \<open>Verified blocks\<close>

record verified_block =
  vb_block :: signed_block
  vb_digest :: digest
  vb_serialized :: bytes

definition new_verified :: "crypto \<Rightarrow> signed_block \<Rightarrow> bytes \<Rightarrow> verified_block" where
  "new_verified C sb serialized =
     \<lparr>vb_block = sb, vb_digest = cr_hash C serialized, vb_serialized = serialized\<rparr>"

definition vb_round :: "verified_block \<Rightarrow> round" where
  "vb_round b = block_round (sb_inner (vb_block b))"

definition vb_author :: "verified_block \<Rightarrow> authority_index" where
  "vb_author b = block_author (sb_inner (vb_block b))"

definition vb_slot :: "verified_block \<Rightarrow> slot" where
  "vb_slot b = block_slot (sb_inner (vb_block b))"

definition vb_timestamp_ms :: "verified_block \<Rightarrow> timestamp_ms" where
  "vb_timestamp_ms b = block_timestamp_ms (sb_inner (vb_block b))"

definition vb_ancestors :: "verified_block \<Rightarrow> block_ref list" where
  "vb_ancestors b = block_ancestors (sb_inner (vb_block b))"

definition vb_transactions :: "verified_block \<Rightarrow> transaction list" where
  "vb_transactions b = block_transactions (sb_inner (vb_block b))"

definition vb_commit_votes :: "verified_block \<Rightarrow> commit_vote list" where
  "vb_commit_votes b = block_commit_votes (sb_inner (vb_block b))"

definition vb_transaction_votes :: "verified_block \<Rightarrow> block_transaction_votes list" where
  "vb_transaction_votes b = block_tx_votes (sb_inner (vb_block b))"

definition vb_reference :: "verified_block \<Rightarrow> block_ref" where
  "vb_reference b = BlockRef (vb_round b) (vb_author b) (vb_digest b)"

record certified_block =
  cb_block :: verified_block
  cb_rejected :: "transaction_index list"

section \<open>Genesis\<close>

definition genesis_timestamp :: "consensus_context \<Rightarrow> timestamp_ms" where
  "genesis_timestamp cx =
     (if pc_enforce_checkpoint_timestamp_monotonicity (cx_protocol_config cx)
      then cx_epoch_start_timestamp_ms cx else 0)"

definition genesis_block_v1 :: "consensus_context \<Rightarrow> authority_index \<Rightarrow> block_v1" where
  "genesis_block_v1 cx a =
     \<lparr>b1_epoch = cm_epoch (cx_committee cx), b1_round = GENESIS_ROUND, b1_author = a,
      b1_timestamp_ms = genesis_timestamp cx, b1_ancestors = [], b1_transactions = [],
      b1_commit_votes = [], b1_misbehavior_reports = []\<rparr>"

definition genesis_block_v2 :: "consensus_context \<Rightarrow> authority_index \<Rightarrow> block_v2" where
  "genesis_block_v2 cx a =
     \<lparr>b2_epoch = cm_epoch (cx_committee cx), b2_round = GENESIS_ROUND, b2_author = a,
      b2_timestamp_ms = genesis_timestamp cx, b2_ancestors = [], b2_transactions = [],
      b2_transaction_votes = [], b2_commit_votes = [], b2_misbehavior_reports = []\<rparr>"

definition new_genesis :: "block \<Rightarrow> signed_block" where
  "new_genesis b = \<lparr>sb_inner = b, sb_signature = []\<rparr>"

definition genesis_blocks :: "crypto \<Rightarrow> consensus_context \<Rightarrow> verified_block list option" where
  "genesis_blocks C cx = mapM (\<lambda>(i, _). do {
       let b = (if pc_mysticeti_fastpath (cx_protocol_config cx)
                then BlockV2 (genesis_block_v2 cx i) else BlockV1 (genesis_block_v1 cx i));
       let sb = new_genesis b;
       serialized \<leftarrow> expect_ok (cr_bcs_signed_block C sb);
       Some (new_verified C sb serialized)
     }) (committee_authorities (cx_committee cx))"

section \<open>Lemmas\<close>

lemmas vb_accessors = vb_round_def vb_author_def vb_slot_def vb_timestamp_ms_def vb_ancestors_def
  vb_transactions_def vb_commit_votes_def vb_transaction_votes_def

lemma br_round_reference [simp]: "br_round (vb_reference b) = vb_round b"
  by (simp add: vb_reference_def)

lemma br_author_reference [simp]: "br_author (vb_reference b) = vb_author b"
  by (simp add: vb_reference_def)

lemma br_digest_reference [simp]: "br_digest (vb_reference b) = vb_digest b"
  by (simp add: vb_reference_def)

lemma slot_of_reference [simp]: "slot_of_ref (vb_reference b) = vb_slot b"
  by (simp add: slot_of_ref_def vb_accessors block_slot_def)

lemma slot_of_ref_sel [simp]:
  "slot_round (slot_of_ref r) = br_round r" "slot_authority (slot_of_ref r) = br_author r"
  by (simp_all add: slot_of_ref_def)

lemma vb_slot_eq: "vb_slot b = Slot (vb_round b) (vb_author b)"
  by (simp add: vb_accessors block_slot_def)

lemma DIGEST_MIN_le [simp]: "DIGEST_MIN \<le> d"
  by (simp add: DIGEST_MIN_def)

lemma DIGEST_MAX_ge [simp]: "d \<le> DIGEST_MAX"
  by (simp add: DIGEST_MAX_def)

text \<open>The reference order is by round first, so a sorted list of references is sorted by round.\<close>

lemma block_ref_le_round: "a \<le> b \<Longrightarrow> br_round a \<le> br_round (b::block_ref)"
  by (auto simp: less_eq_block_ref_def block_ref_le_def)

text \<open>A range between the extreme digests of a slot holds exactly the references of that slot.\<close>

lemma slot_range_iff:
  "BlockRef r a DIGEST_MIN \<le> x \<and> x \<le> BlockRef r a DIGEST_MAX \<longleftrightarrow> br_round x = r \<and> br_author x = a"
  by (auto simp: less_eq_block_ref_def block_ref_le_def)

text \<open>A range from the first reference of a round to the first of the next holds that round.\<close>

lemma round_range_iff:
  "BlockRef r 0 DIGEST_MIN \<le> x \<and> x < BlockRef (r + 1) 0 DIGEST_MIN \<longleftrightarrow> br_round x = r"
  by (auto simp: less_eq_block_ref_def block_ref_le_def less_block_ref_def DIGEST_MIN_def)

lemma genesis_blocks_nth:
  assumes "genesis_blocks C cx = Some gs" and "i < committee_size (cx_committee cx)"
  shows "i < length gs" and "vb_round (gs ! i) = 0" and "vb_author (gs ! i) = i"
    and "vb_ancestors (gs ! i) = []"
proof -
  let ?as = "committee_authorities (cx_committee cx)"
  show "i < length gs"
    using assms by (auto simp: genesis_blocks_def dest: mapM_length)
  have "?as ! i = (i, cm_authorities (cx_committee cx) ! i)" using assms(2) by simp
  then obtain sb bs where "gs ! i = new_verified C sb bs" and "block_round (sb_inner sb) = 0"
    and "block_author (sb_inner sb) = i" and "block_ancestors (sb_inner sb) = []"
    using mapM_nth [OF assms(1) [unfolded genesis_blocks_def], of i] assms(2)
    by (auto simp: new_genesis_def genesis_block_v1_def genesis_block_v2_def GENESIS_ROUND_def Let_def
        dest!: sym [of _ "gs ! i"] elim!: bind_SomeE split: if_splits)
  then show "vb_round (gs ! i) = 0" "vb_author (gs ! i) = i" "vb_ancestors (gs ! i) = []"
    by (simp_all add: vb_accessors new_verified_def)
qed

lemma length_genesis_blocks:
  "genesis_blocks C cx = Some gs \<Longrightarrow> length gs = committee_size (cx_committee cx)"
  by (auto simp: genesis_blocks_def dest: mapM_length)

lemma genesis_blocks_in_set:
  assumes "genesis_blocks C cx = Some gs" and "g \<in> set gs"
  shows "vb_round g = 0" and "vb_author g < committee_size (cx_committee cx)" and "vb_ancestors g = []"
proof -
  from assms(2) obtain i where "i < length gs" and "g = gs ! i" by (auto simp: in_set_conv_nth)
  with genesis_blocks_nth [OF assms(1), of i] length_genesis_blocks [OF assms(1)]
  show "vb_round g = 0" "vb_author g < committee_size (cx_committee cx)" "vb_ancestors g = []"
    by auto
qed

section \<open>Concrete instances\<close>

text \<open>
  A small instance the witnesses of the properties run on: a context over the committee of four
  authorities of stake 1, a signature scheme in which a signature is the key followed by the
  message, and blocks with chosen ancestors and digest.
\<close>

definition example_crypto :: crypto where
  "example_crypto = \<lparr>cr_bcs_block = (\<lambda>b. Inr [block_round b, block_author b]),
     cr_bcs_signed_block = (\<lambda>sb. Inr [block_round (sb_inner sb), block_author (sb_inner sb)]),
     cr_bcs_intent = (\<lambda>d. Inr [if d = 0 then 0 else 1]),
     cr_hash = (\<lambda>bs. if sum_list bs = 0 then 0 else 1),
     cr_from_bytes = Inr,
     cr_verify = (\<lambda>key message signature. if signature = key @ message then Inr () else Inl ''invalid''),
     cr_sign = (\<lambda>key message. key @ message)\<rparr>"

definition example_config :: protocol_config where
  "example_config = \<lparr>pc_enforce_checkpoint_timestamp_monotonicity = True,
     pc_mysticeti_fastpath = False, pc_max_transaction_size_bytes = 256,
     pc_max_num_transactions_in_block = 8, pc_max_transactions_in_block_bytes = 512,
     pc_mysticeti_num_leaders_per_round = Some 1, pc_gc_depth = 60, pc_bad_nodes_stake_threshold = 30\<rparr>"

definition example_context :: consensus_context where
  "example_context = \<lparr>cx_epoch_start_timestamp_ms = 0, cx_own_index = 0,
     cx_committee = example_committee, cx_parameters = \<lparr>pm_min_round_delay = 0, pm_propagation_delay_stop_proposal_threshold = 5,
       pm_dag_state_cached_rounds = 500\<rparr>,
     cx_protocol_config = example_config\<rparr>"

definition example_block ::
  "round \<Rightarrow> authority_index \<Rightarrow> digest \<Rightarrow> block_ref list \<Rightarrow> verified_block" where
  "example_block r a d ancestors = \<lparr>vb_block = \<lparr>sb_inner = BlockV1
       \<lparr>b1_epoch = 0, b1_round = r, b1_author = a, b1_timestamp_ms = 10 * r + a,
        b1_ancestors = ancestors, b1_transactions = [], b1_commit_votes = [],
        b1_misbehavior_reports = []\<rparr>, sb_signature = [1]\<rparr>,
     vb_digest = d, vb_serialized = [r, a]\<rparr>"

lemma example_block_sel [simp]:
  "vb_round (example_block r a d as) = r" "vb_author (example_block r a d as) = a"
  "vb_ancestors (example_block r a d as) = as" "vb_digest (example_block r a d as) = d"
  "vb_timestamp_ms (example_block r a d as) = 10 * r + a"
  "vb_commit_votes (example_block r a d as) = []"
  by (simp_all add: example_block_def vb_accessors)

lemma example_context_committee [simp]: "cx_committee example_context = example_committee"
  by (simp add: example_context_def)

end
