(* ===== verification/Commits.thy ===== *)
theory Commits
  imports Blocks "HOL-Library.Product_Lexorder"
begin

text \<open>
  Commits, committed sub-dags, leader decisions and ranges of commit indices
  (\<open>consensus/core/src/commit.rs\<close>), the reputation scores kept with a commit
  (\<open>leader_scoring.rs\<close>, struct \<open>ReputationScores\<close>) and the errors of \<open>error.rs\<close>.
\<close>

section \<open>Commits\<close>

definition GENESIS_COMMIT_INDEX :: commit_index where
  "GENESIS_COMMIT_INDEX = 0"

definition MINIMUM_WAVE_LENGTH :: round where
  "MINIMUM_WAVE_LENGTH = 3"

definition DEFAULT_WAVE_LENGTH :: round where
  "DEFAULT_WAVE_LENGTH = MINIMUM_WAVE_LENGTH"

record commit_v1 =
  c1_index :: commit_index
  c1_previous_digest :: digest
  c1_timestamp_ms :: timestamp_ms
  c1_leader :: block_ref
  c1_blocks :: "block_ref list"

datatype commit = CommitV1 commit_v1

definition commit_new ::
  "commit_index \<Rightarrow> digest \<Rightarrow> timestamp_ms \<Rightarrow> block_ref \<Rightarrow> block_ref list \<Rightarrow> commit" where
  "commit_new i prev ts leader blocks = CommitV1
     \<lparr>c1_index = i, c1_previous_digest = prev, c1_timestamp_ms = ts, c1_leader = leader,
      c1_blocks = blocks\<rparr>"

fun commit_round :: "commit \<Rightarrow> round" where
  "commit_round (CommitV1 c) = br_round (c1_leader c)"

fun commit_index_of :: "commit \<Rightarrow> commit_index" where
  "commit_index_of (CommitV1 c) = c1_index c"

fun commit_previous_digest :: "commit \<Rightarrow> digest" where
  "commit_previous_digest (CommitV1 c) = c1_previous_digest c"

fun commit_timestamp_ms :: "commit \<Rightarrow> timestamp_ms" where
  "commit_timestamp_ms (CommitV1 c) = c1_timestamp_ms c"

fun commit_leader :: "commit \<Rightarrow> block_ref" where
  "commit_leader (CommitV1 c) = c1_leader c"

fun commit_blocks :: "commit \<Rightarrow> block_ref list" where
  "commit_blocks (CommitV1 c) = c1_blocks c"

text \<open>A commit with its cached digest and serialisation.\<close>

record trusted_commit =
  tc_inner :: commit
  tc_digest :: digest
  tc_serialized :: bytes

definition new_trusted :: "(bytes \<Rightarrow> digest) \<Rightarrow> commit \<Rightarrow> bytes \<Rightarrow> trusted_commit" where
  "new_trusted hash c serialized =
     \<lparr>tc_inner = c, tc_digest = hash serialized, tc_serialized = serialized\<rparr>"

definition tc_index :: "trusted_commit \<Rightarrow> commit_index" where
  "tc_index t = commit_index_of (tc_inner t)"

definition tc_round :: "trusted_commit \<Rightarrow> round" where
  "tc_round t = commit_round (tc_inner t)"

definition tc_previous_digest :: "trusted_commit \<Rightarrow> digest" where
  "tc_previous_digest t = commit_previous_digest (tc_inner t)"

definition tc_timestamp_ms :: "trusted_commit \<Rightarrow> timestamp_ms" where
  "tc_timestamp_ms t = commit_timestamp_ms (tc_inner t)"

definition tc_leader :: "trusted_commit \<Rightarrow> block_ref" where
  "tc_leader t = commit_leader (tc_inner t)"

definition tc_blocks :: "trusted_commit \<Rightarrow> block_ref list" where
  "tc_blocks t = commit_blocks (tc_inner t)"

definition tc_reference :: "trusted_commit \<Rightarrow> commit_ref" where
  "tc_reference t = CommitRef (tc_index t) (tc_digest t)"

record certified_commit =
  cc_commit :: trusted_commit
  cc_blocks :: "verified_block list"

record certified_commits =
  ccs_commits :: "certified_commit list"
  ccs_votes :: "verified_block list"

record committed_sub_dag =
  sd_leader :: block_ref
  sd_blocks :: "verified_block list"
  sd_timestamp_ms :: timestamp_ms
  sd_commit_ref :: commit_ref
  sd_local :: bool
  sd_reputation_scores_desc :: "(authority_index \<times> nat) list"
  sd_rejected_transactions_by_block :: "(block_ref, transaction_index list) fmap"

definition committed_sub_dag_new ::
  "block_ref \<Rightarrow> verified_block list \<Rightarrow> timestamp_ms \<Rightarrow> commit_ref \<Rightarrow> committed_sub_dag" where
  "committed_sub_dag_new leader blocks ts cref =
     \<lparr>sd_leader = leader, sd_blocks = blocks, sd_timestamp_ms = ts, sd_commit_ref = cref,
      sd_local = True, sd_reputation_scores_desc = [], sd_rejected_transactions_by_block = fmempty\<rparr>"

text \<open>The slice sort of Rust is stable.\<close>

definition sort_sub_dag_blocks :: "verified_block list \<Rightarrow> verified_block list" where
  "sort_sub_dag_blocks blocks = sort_key (\<lambda>b. (vb_round b, vb_author b)) blocks"

section \<open>Decisions\<close>

datatype decision = Direct | Indirect | Certified

datatype leader_status = LCommit verified_block | LSkip slot | LUndecided slot

fun ls_round :: "leader_status \<Rightarrow> round" where
  "ls_round (LCommit b) = vb_round b"
| "ls_round (LSkip s) = slot_round s"
| "ls_round (LUndecided s) = slot_round s"

fun is_decided :: "leader_status \<Rightarrow> bool" where
  "is_decided (LCommit _) = True"
| "is_decided (LSkip _) = True"
| "is_decided (LUndecided _) = False"

datatype decided_leader = DCommit verified_block bool | DSkip slot

fun into_decided_leader :: "leader_status \<Rightarrow> bool \<Rightarrow> decided_leader option" where
  "into_decided_leader (LCommit b) direct = Some (DCommit b direct)"
| "into_decided_leader (LSkip s) direct = Some (DSkip s)"
| "into_decided_leader (LUndecided s) direct = None"

fun dl_slot :: "decided_leader \<Rightarrow> slot" where
  "dl_slot (DCommit b _) = slot_of_ref (vb_reference b)"
| "dl_slot (DSkip s) = s"

fun into_committed_block :: "decided_leader \<Rightarrow> verified_block option" where
  "into_committed_block (DCommit b _) = Some b"
| "into_committed_block (DSkip _) = None"

section \<open>Ranges of commit indices\<close>

text \<open>The end of the underlying \<open>Range\<close> is exclusive, the ends the methods speak of are inclusive.\<close>

datatype commit_range = CommitRange (range_start: commit_index) (range_end: commit_index)

definition commit_range_new :: "commit_index \<Rightarrow> commit_index \<Rightarrow> commit_range" where
  "commit_range_new s e = CommitRange s (saturating_add32 e 1)"

definition commit_range_default :: commit_range where
  "commit_range_default = CommitRange 0 0"

definition commit_range_start :: "commit_range \<Rightarrow> commit_index" where
  "commit_range_start r = range_start r"

definition commit_range_end :: "commit_range \<Rightarrow> commit_index" where
  "commit_range_end r = range_end r - 1"

definition commit_range_extend_to :: "commit_range \<Rightarrow> commit_index \<Rightarrow> commit_range option" where
  "commit_range_extend_to r other = do {
     let new_end = saturating_add32 other 1;
     assert_that (range_end r \<le> new_end);
     Some (CommitRange (range_start r) new_end)
   }"

definition commit_range_size :: "commit_range \<Rightarrow> nat option" where
  "commit_range_size r = do {
     assert_that (range_start r \<le> range_end r);
     Some (range_end r - range_start r)
   }"

definition is_equal_size :: "commit_range \<Rightarrow> commit_range \<Rightarrow> bool option" where
  "is_equal_size r r' = do {
     n \<leftarrow> commit_range_size r;
     m \<leftarrow> commit_range_size r';
     Some (n = m)
   }"

definition is_next_range :: "commit_range \<Rightarrow> commit_range \<Rightarrow> bool" where
  "is_next_range r r' \<longleftrightarrow> range_end r = range_start r'"

text \<open>\<open>Ord for CommitRange\<close>: by inclusive start, then inclusive end.\<close>

definition commit_range_le :: "commit_range \<Rightarrow> commit_range \<Rightarrow> bool" where
  "commit_range_le r r' \<longleftrightarrow>
     (commit_range_start r, commit_range_end r) \<le> (commit_range_start r', commit_range_end r')"

section \<open>Reputation scores and commit info\<close>

record reputation_scores =
  rs_scores_per_authority :: "nat list"
  rs_commit_range :: commit_range

definition reputation_scores_new :: "commit_range \<Rightarrow> nat list \<Rightarrow> reputation_scores" where
  "reputation_scores_new r scores = \<lparr>rs_scores_per_authority = scores, rs_commit_range = r\<rparr>"

definition highest_score :: "reputation_scores \<Rightarrow> nat" where
  "highest_score rs = fold max (rs_scores_per_authority rs) 0"

definition authorities_by_score ::
  "consensus_context \<Rightarrow> reputation_scores \<Rightarrow> (authority_index \<times> nat) list option" where
  "authorities_by_score cx rs =
     mapM (\<lambda>(index, score). do {
         a \<leftarrow> to_authority_index (cx_committee cx) index;
         Some (a, score)
       }) (zip [0..<length (rs_scores_per_authority rs)] (rs_scores_per_authority rs))"

record commit_info =
  ci_committed_rounds :: "round list"
  ci_reputation_scores :: reputation_scores

section \<open>Errors\<close>

text \<open>
  The variants the modelled code returns; those of the network and synchroniser layers are left
  out. The errors of third-party code carried by a variant are their texts.
\<close>

datatype consensus_error =
    MalformedBlock string
  | MalformedCommit string
  | SerializationFailure string
  | TransactionTooLarge nat nat
  | TooManyTransactions nat nat
  | TooManyTransactionBytes nat nat
  | WrongEpoch epoch epoch
  | UnexpectedGenesisBlock
  | InvalidAuthorityIndex authority_index nat
  | MalformedSignature string
  | SignatureVerificationFailure string
  | InvalidAncestorPosition authority_index authority_index nat
  | InvalidAncestorRound round round
  | InvalidGenesisAncestor block_ref
  | TooManyAncestors nat nat
  | DuplicatedAncestorsAuthority authority_index
  | InsufficientParentStakes stake stake
  | InvalidTransaction string
  | NoCommitReceived authority_index
  | UnexpectedStartCommit authority_index commit_index commit
  | UnexpectedCommitSequence authority_index commit commit
  | NotEnoughCommitVotes stake authority_index commit
  | UnexpectedBlockForCommit authority_index block_ref block_ref
  | UnexpectedCertifiedCommitIndex commit_index commit_index
  | Shutdown

section \<open>Lemmas\<close>

lemmas tc_accessors = tc_index_def tc_round_def tc_previous_digest_def tc_timestamp_ms_def
  tc_leader_def tc_blocks_def

lemma commit_new_sel [simp]:
  "commit_index_of (commit_new i p ts l bs) = i"
  "commit_previous_digest (commit_new i p ts l bs) = p"
  "commit_timestamp_ms (commit_new i p ts l bs) = ts"
  "commit_leader (commit_new i p ts l bs) = l"
  "commit_blocks (commit_new i p ts l bs) = bs"
  by (simp_all add: commit_new_def)

lemma tc_inner_new_trusted [simp]: "tc_inner (new_trusted h c bs) = c"
  by (simp add: new_trusted_def)

lemma set_sort_sub_dag_blocks [simp]: "set (sort_sub_dag_blocks bs) = set bs"
  by (simp add: sort_sub_dag_blocks_def)

lemma mset_sort_sub_dag_blocks [simp]: "mset (sort_sub_dag_blocks bs) = mset bs"
  by (simp add: sort_sub_dag_blocks_def)

lemma distinct_map_sort_sub_dag_blocks [simp]:
  "distinct (map f (sort_sub_dag_blocks bs)) \<longleftrightarrow> distinct (map f bs)"
proof -
  have "mset (map f (sort_sub_dag_blocks bs)) = mset (map f bs)" by simp
  then show ?thesis using mset_eq_imp_distinct_iff by blast
qed

lemma sorted_sort_sub_dag_blocks:
  "sorted (map (\<lambda>b. (vb_round b, vb_author b)) (sort_sub_dag_blocks bs))"
  by (simp add: sort_sub_dag_blocks_def)

text \<open>Below the saturation point a range has the ends it was made with.\<close>

lemma commit_range_new_sel [simp]:
  "e < u32_max \<Longrightarrow> commit_range_end (commit_range_new s e) = e"
  "commit_range_start (commit_range_new s e) = s"
  by (auto simp: commit_range_new_def commit_range_end_def commit_range_start_def saturating_add32_def)

lemma commit_range_extend_to_Some:
  "commit_range_extend_to r i = Some r' \<longleftrightarrow>
     range_end r \<le> saturating_add32 i 1 \<and> r' = CommitRange (range_start r) (saturating_add32 i 1)"
  by (auto simp: commit_range_extend_to_def Let_def)

lemma authorities_by_score_eq [panic_simps]:
  assumes "length (rs_scores_per_authority rs) \<le> committee_size (cx_committee cx)"
  shows "authorities_by_score cx rs =
     Some (zip [0..<length (rs_scores_per_authority rs)] (rs_scores_per_authority rs))"
proof -
  let ?xs = "zip [0..<length (rs_scores_per_authority rs)] (rs_scores_per_authority rs)"
  have "authorities_by_score cx rs = Some (map id ?xs)"
    unfolding authorities_by_score_def
    by (rule mapM_Some) (use assms in \<open>auto simp: to_authority_index_def committee_size_def
      dest!: set_zip_leftD\<close>)
  then show ?thesis by simp
qed

end
