(* ===== verification/Stake_Scan.thy ===== *)
theory Stake_Scan
  imports Committee "HOL-Library.Product_Lexorder"
begin

text \<open>
  Several components rank values reported by the authorities (commit indices, rounds, timestamps)
  and walk the ranked list until the stake collected reaches a threshold:
  \<open>commit_vote_monitor.rs\<close>, \<open>round_tracker.rs\<close>, \<open>ancestor.rs\<close> and \<open>linearizer.rs\<close>. This theory holds
  that loop and proves once what value it stops at, for any total preorder on the values.
\<close>

section \<open>Definitions\<close>

fun stake_scan :: "stake \<Rightarrow> stake \<Rightarrow> ('k \<times> stake) list \<Rightarrow> 'k option" where
  "stake_scan threshold total_stake [] = None"
| "stake_scan threshold total_stake ((v, s) # xs) = (
     let total_stake' = wrap64 (total_stake + s) in
     if total_stake' \<ge> threshold then Some v else stake_scan threshold total_stake' xs)"

text \<open>\<open>values.iter().zip(committee.authorities()).map(|(v, (_, a))| (v, a.stake))\<close>\<close>

definition with_stakes :: "committee \<Rightarrow> 'k list \<Rightarrow> ('k \<times> stake) list" where
  "with_stakes c vs = map (\<lambda>(v, (_, a)). (v, auth_stake a)) (zip vs (committee_authorities c))"

definition stake_where :: "('k \<Rightarrow> bool) \<Rightarrow> ('k \<times> stake) list \<Rightarrow> stake" where
  "stake_where P xs = sum_list (map snd (filter (\<lambda>p. P (fst p)) xs))"

section \<open>Where the scan stops\<close>

lemma stake_where_Nil [simp]: "stake_where P [] = 0"
  by (simp add: stake_where_def)

lemma stake_where_Cons [simp]:
  "stake_where P ((v, s) # xs) = (if P v then s + stake_where P xs else stake_where P xs)"
  by (simp add: stake_where_def)

lemma stake_where_append: "stake_where P (xs @ ys) = stake_where P xs + stake_where P ys"
  by (simp add: stake_where_def)

lemma stake_where_mset: "stake_where P xs = sum_mset (image_mset snd (filter_mset (\<lambda>p. P (fst p)) (mset xs)))"
  by (simp add: stake_where_def sum_mset_sum_list flip: mset_filter mset_map)

lemma stake_where_mset_cong: "mset xs = mset ys \<Longrightarrow> stake_where P xs = stake_where P ys"
  by (simp add: stake_where_mset)

lemma stake_where_sort [simp]: "stake_where P (sort xs) = stake_where P (xs :: ('k::linorder \<times> stake) list)"
  by (rule stake_where_mset_cong) simp

lemma stake_where_rev [simp]: "stake_where P (rev xs) = stake_where P xs"
  by (rule stake_where_mset_cong) simp

lemma stake_where_mono: "(\<And>v. v \<in> fst ` set xs \<Longrightarrow> P v \<Longrightarrow> Q v) \<Longrightarrow> stake_where P xs \<le> stake_where Q xs"
proof (induction xs)
  case (Cons x xs)
  then show ?case by (cases x) auto
qed simp

lemma stake_where_le: "stake_where P xs \<le> stake_where (\<lambda>_. True) xs"
  by (rule stake_where_mono) simp

lemma stake_where_False: "(\<And>v. v \<in> fst ` set xs \<Longrightarrow> \<not> P v) \<Longrightarrow> stake_where P xs = 0"
proof (induction xs)
  case (Cons x xs)
  then show ?case by (cases x) auto
qed simp

locale stake_order =
  fixes le :: "'k \<Rightarrow> 'k \<Rightarrow> bool"
  assumes le_refl: "le x x"
    and le_trans: "le x y \<Longrightarrow> le y z \<Longrightarrow> le x z"
begin

lemma scan_Some:
  assumes "stake_scan threshold tot xs = Some v"
    and "sorted_wrt (\<lambda>p q. le (fst p) (fst q)) xs"
    and "tot + stake_where (\<lambda>_. True) xs < 2 ^ 64" and "tot < threshold"
  shows "v \<in> fst ` set xs \<and> threshold \<le> tot + stake_where (\<lambda>k. le k v) xs \<and>
     tot + stake_where (\<lambda>k. \<not> le v k) xs < threshold"
  using assms
proof (induction xs arbitrary: tot)
  case (Cons x xs)
  obtain k s where x: "x = (k, s)" by (cases x)
  have wrap: "wrap64 (tot + s) = tot + s" using Cons.prems(3) x by simp
  have above: "\<forall>k' \<in> fst ` set xs. le k k'" using Cons.prems(2) x by auto
  show ?case
  proof (cases "threshold \<le> tot + s")
    case True
    then have v: "v = k" using Cons.prems(1) x wrap by simp
    have "stake_where (\<lambda>k'. \<not> le k k') xs = 0" using above by (intro stake_where_False) auto
    with True Cons.prems(4) v x show ?thesis by (simp add: le_refl)
  next
    case False
    then have "v \<in> fst ` set xs \<and> threshold \<le> (tot + s) + stake_where (\<lambda>k. le k v) xs \<and>
        (tot + s) + stake_where (\<lambda>k. \<not> le v k) xs < threshold"
      using Cons.prems x wrap by (intro Cons.IH) auto
    with above x show ?thesis by auto
  qed
qed simp

lemma scan_None:
  assumes "stake_scan threshold tot xs = None"
    and "tot + stake_where (\<lambda>_. True) xs < 2 ^ 64" and "tot < threshold"
  shows "tot + stake_where (\<lambda>_. True) xs < threshold"
  using assms
proof (induction xs arbitrary: tot)
  case (Cons x xs)
  obtain k s where x: "x = (k, s)" by (cases x)
  have "wrap64 (tot + s) = tot + s" using Cons.prems(2) x by simp
  then show ?case
    using Cons.prems x Cons.IH [of "tot + s"] by (auto simp: Let_def split: if_splits)
qed simp

end

text \<open>The two orders in which the components walk: ascending and descending.\<close>

interpretation asc: stake_order "(\<le>) :: 'k::linorder \<Rightarrow> 'k \<Rightarrow> bool"
  by unfold_locales auto

interpretation desc: stake_order "(\<ge>) :: 'k::linorder \<Rightarrow> 'k \<Rightarrow> bool"
  by unfold_locales auto

lemma sorted_wrt_fst_sort: "sorted_wrt (\<lambda>p q. fst p \<le> fst q) (sort (xs :: ('a::linorder \<times> 'b::linorder) list))"
proof -
  have "sorted_wrt (\<le>) (sort xs)" by (metis sorted_sort)
  then show ?thesis by (rule sorted_wrt_mono_rel [rotated]) (auto simp: less_eq_prod_def)
qed

lemma sorted_wrt_fst_rev_sort:
  "sorted_wrt (\<lambda>p q. fst p \<ge> fst q) (rev (sort (xs :: ('a::linorder \<times> 'b::linorder) list)))"
  using sorted_wrt_fst_sort [of xs] by (simp add: sorted_wrt_rev)

section \<open>Stakes of a committee\<close>

lemma with_stakes_eq:
  assumes "length vs = committee_size c"
  shows "with_stakes c vs = map (\<lambda>i. (vs ! i, authority_weight c i)) [0..<committee_size c]"
  unfolding with_stakes_def
  by (rule nth_equalityI) (use assms in \<open>simp_all add: authority_weight_def\<close>)

lemma stake_where_with_stakes:
  assumes "length vs = committee_size c"
  shows "stake_where P (with_stakes c vs) = weight c {i. i < committee_size c \<and> P (vs ! i)}"
proof -
  let ?n = "committee_size c"
  have "stake_where P (with_stakes c vs) = (\<Sum>i \<leftarrow> filter (\<lambda>i. P (vs ! i)) [0..<?n]. authority_weight c i)"
    by (simp add: with_stakes_eq [OF assms] stake_where_def filter_map comp_def)
  also have "\<dots> = (\<Sum>i \<in> {i. i < ?n \<and> P (vs ! i)}. authority_weight c i)"
    by (subst sum_list_map_distinct) (auto intro: sum.cong)
  also have "\<dots> = weight c {i. i < ?n \<and> P (vs ! i)}"
    unfolding weight_def by (rule sum.cong) auto
  finally show ?thesis .
qed

lemma total_with_stakes:
  assumes "committee_ok c" and "length vs = committee_size c"
  shows "stake_where (\<lambda>_. True) (with_stakes c vs) = cm_total_stake c"
  using assms weight_all [of c] by (simp add: stake_where_with_stakes committee_ok_def lessThan_def)

lemma committee_total_bound: "committee_ok c \<Longrightarrow> cm_total_stake c < 2 ^ 64"
  unfolding committee_ok_def by linarith

lemma quorum_threshold_pos: "committee_ok c \<Longrightarrow> 0 < cm_quorum_threshold c"
  by (simp add: committee_ok_def)

lemma quorum_scan_not_None:
  assumes "committee_ok c" and "stake_where (\<lambda>_. True) xs = cm_total_stake c"
  shows "stake_scan (cm_quorum_threshold c) 0 xs \<noteq> None"
proof
  assume "stake_scan (cm_quorum_threshold c) 0 xs = None"
  from asc.scan_None [OF this] assms committee_total_bound [OF assms(1)] quorum_threshold_pos [OF assms(1)]
    quorum_le_total [OF assms(1)]
  show False by simp
qed

text \<open>
  The descending scan stops at the highest value that a quorum reports or exceeds, the ascending
  scan at the lowest value that a quorum reports or stays below.
\<close>

lemma quorum_scan_desc:
  fixes vs :: "'k::linorder list"
  assumes "committee_ok c" and "length vs = committee_size c"
  obtains v where "stake_scan (cm_quorum_threshold c) 0 (rev (sort (with_stakes c vs))) = Some v"
    and "v \<in> set vs"
    and "reached_quorum c (weight c {i. i < committee_size c \<and> v \<le> vs ! i})"
    and "\<not> reached_quorum c (weight c {i. i < committee_size c \<and> v < vs ! i})"
proof -
  let ?xs = "rev (sort (with_stakes c vs))"
  have total: "stake_where (\<lambda>_. True) ?xs = cm_total_stake c" using assms by (simp add: total_with_stakes)
  obtain v where v: "stake_scan (cm_quorum_threshold c) 0 ?xs = Some v"
    using quorum_scan_not_None [OF assms(1) total] by blast
  have "v \<in> fst ` set ?xs \<and> cm_quorum_threshold c \<le> 0 + stake_where (\<lambda>k. k \<ge> v) ?xs \<and>
      0 + stake_where (\<lambda>k. \<not> v \<ge> k) ?xs < cm_quorum_threshold c"
    using total committee_total_bound [OF assms(1)] quorum_threshold_pos [OF assms(1)]
    by (intro desc.scan_Some [OF v sorted_wrt_fst_rev_sort]) simp_all
  moreover have "fst ` set ?xs \<subseteq> set vs"
    by (auto simp: with_stakes_def dest: set_zip_leftD)
  ultimately show ?thesis
    using that [OF v] assms by (auto simp: stake_where_with_stakes reached_quorum_def not_le)
qed

lemma quorum_scan_asc:
  fixes vs :: "'k::linorder list"
  assumes "committee_ok c" and "length vs = committee_size c"
  obtains v where "stake_scan (cm_quorum_threshold c) 0 (sort (with_stakes c vs)) = Some v"
    and "v \<in> set vs"
    and "reached_quorum c (weight c {i. i < committee_size c \<and> vs ! i \<le> v})"
    and "\<not> reached_quorum c (weight c {i. i < committee_size c \<and> vs ! i < v})"
proof -
  let ?xs = "sort (with_stakes c vs)"
  have total: "stake_where (\<lambda>_. True) ?xs = cm_total_stake c" using assms by (simp add: total_with_stakes)
  obtain v where v: "stake_scan (cm_quorum_threshold c) 0 ?xs = Some v"
    using quorum_scan_not_None [OF assms(1) total] by blast
  have "v \<in> fst ` set ?xs \<and> cm_quorum_threshold c \<le> 0 + stake_where (\<lambda>k. k \<le> v) ?xs \<and>
      0 + stake_where (\<lambda>k. \<not> v \<le> k) ?xs < cm_quorum_threshold c"
    using total committee_total_bound [OF assms(1)] quorum_threshold_pos [OF assms(1)]
    by (intro asc.scan_Some [OF v sorted_wrt_fst_sort]) simp_all
  moreover have "fst ` set ?xs \<subseteq> set vs"
    by (auto simp: with_stakes_def dest: set_zip_leftD)
  ultimately show ?thesis
    using that [OF v] assms by (auto simp: stake_where_with_stakes reached_quorum_def not_le)
qed

lemma quorum_where_mono:
  "reached_quorum c (weight c {i. i < n \<and> P i}) \<Longrightarrow> (\<And>i. P i \<Longrightarrow> Q i) \<Longrightarrow>
     reached_quorum c (weight c {i. i < n \<and> Q i})"
  by (erule cq.quorum_superset) auto

text \<open>What is left outside a set below the quorum reaches the validity threshold.\<close>

lemma below_quorum_complement:
  assumes "committee_ok c" and "\<not> reached_quorum c (weight c A)"
  shows "reached_validity c (weight c (- A))"
proof -
  have "weight c A + weight c (- A) = cm_total_stake c"
    using assms(1) weight_union_inter [of c A "- A"] weight_all [of c]
    by (simp add: weight_def committee_ok_def)
  with assms(2) quorum_plus_validity [OF assms(1)] committee_thresholds [OF assms(1)]
    threshold_arith_split [of "cm_total_stake c"]
  show ?thesis unfolding reached_quorum_def reached_validity_def by linarith
qed

end
