(* ===== verification/Commit_Vote_Monitor.thy ===== *)
theory Commit_Vote_Monitor
  imports Commits Stake_Scan
begin

text \<open>
  \<open>consensus/core/src/commit_vote_monitor.rs\<close>: the highest commit index voted by each authority, and
  the index that a quorum has voted for.
\<close>

section \<open>Definitions\<close>

record commit_vote_monitor =
  cvm_highest_voted_commits :: "commit_index list"

definition cvm_new :: "consensus_context \<Rightarrow> commit_vote_monitor" where
  "cvm_new cx = \<lparr>cvm_highest_voted_commits = replicate (committee_size (cx_committee cx)) 0\<rparr>"

definition observe_block :: "commit_vote_monitor \<Rightarrow> verified_block \<Rightarrow> commit_vote_monitor option" where
  "observe_block m b = do {
     hv \<leftarrow> foldM (\<lambda>hv vote. do {
         current \<leftarrow> vec_get hv (vb_author b);
         if cr_index vote > current then vec_set hv (vb_author b) (cr_index vote) else Some hv
       }) (cvm_highest_voted_commits m) (vb_commit_votes b);
     Some (m\<lparr>cvm_highest_voted_commits := hv\<rparr>)
   }"

text \<open>Sorting by \<open>a.cmp(b).reverse()\<close> is the reverse of the ascending sort: equal pairs are identical.\<close>

definition quorum_commit_index :: "consensus_context \<Rightarrow> commit_vote_monitor \<Rightarrow> commit_index" where
  "quorum_commit_index cx m = (
     let votes = rev (sort (with_stakes (cx_committee cx) (cvm_highest_voted_commits m))) in
     case stake_scan (cm_quorum_threshold (cx_committee cx)) 0 votes of
       Some index \<Rightarrow> index
     | None \<Rightarrow> GENESIS_COMMIT_INDEX)"

section \<open>Lemmas\<close>

definition cvm_inv :: "consensus_context \<Rightarrow> commit_vote_monitor \<Rightarrow> bool" where
  "cvm_inv cx m \<longleftrightarrow> length (cvm_highest_voted_commits m) = committee_size (cx_committee cx)"

lemma cvm_inv_new [wf_intros]: "cvm_inv cx (cvm_new cx)"
  by (simp add: cvm_inv_def cvm_new_def)

lemma observe_votes:
  assumes "a < length hv"
  shows "foldM (\<lambda>hv vote. do {
       current \<leftarrow> vec_get hv a;
       if cr_index vote > current then vec_set hv a (cr_index vote) else Some hv
     }) hv votes = Some (hv[a := fold max (map cr_index votes) (hv ! a)])"
  using assms
proof (induction votes arbitrary: hv)
  case (Cons vote votes)
  have "(if cr_index vote > hv ! a then hv[a := cr_index vote] else hv) = hv[a := max (cr_index vote) (hv ! a)]"
    using Cons.prems by (simp add: max_def)
  with Cons show ?case by (auto simp: max.commute split: if_splits)
qed simp

lemma fold_max_nat: "fold max xs (m::nat) = Max (insert m (set xs))"
proof (induction xs arbitrary: m)
  case (Cons x xs)
  then show ?case by (cases "xs = []") (simp_all add: max.left_commute max.commute)
qed simp

section \<open>Properties\<close>

text \<open>
  C23: the quorum commit index is the highest commit index that a quorum of authorities has voted
  for: a quorum voted for it or a higher one, and no quorum voted for anything higher.
\<close>

theorem quorum_commit_index_highest:
  assumes "committee_ok (cx_committee cx)"
    and "length (cvm_highest_voted_commits m) = committee_size (cx_committee cx)"
    and "voted = (\<lambda>s. {i. i < committee_size (cx_committee cx) \<and> s \<le> cvm_highest_voted_commits m ! i})"
  shows "reached_quorum (cx_committee cx) (weight (cx_committee cx) (voted s)) \<longleftrightarrow>
     s \<le> quorum_commit_index cx m"
proof -
  let ?c = "cx_committee cx"
  obtain v where scan: "stake_scan (cm_quorum_threshold ?c) 0
        (rev (sort (with_stakes ?c (cvm_highest_voted_commits m)))) = Some v"
    and reached: "reached_quorum ?c (weight ?c (voted v))"
    and not_above: "\<not> reached_quorum ?c (weight ?c {i. i < committee_size ?c \<and> v < cvm_highest_voted_commits m ! i})"
    using quorum_scan_desc [OF assms(1,2)] unfolding assms(3) by blast
  have q: "quorum_commit_index cx m = v" using scan by (simp add: quorum_commit_index_def)
  show ?thesis
  proof
    assume s: "reached_quorum ?c (weight ?c (voted s))"
    show "s \<le> quorum_commit_index cx m"
    proof (rule ccontr)
      assume "\<not> ?thesis"
      then have "voted s \<subseteq> {i. i < committee_size ?c \<and> v < cvm_highest_voted_commits m ! i}"
        using q by (auto simp: assms(3))
      with s not_above show False using cq.quorum_superset by blast
    qed
  next
    assume "s \<le> quorum_commit_index cx m"
    then have "voted v \<subseteq> voted s" using q by (auto simp: assms(3))
    with reached show "reached_quorum ?c (weight ?c (voted s))" using cq.quorum_superset by blast
  qed
qed

theorem quorum_commit_index_highest_witness:
  "reached_quorum example_committee (weight example_committee
      {i. i < 4 \<and> (5::nat) \<le> [7, 5, 3, 9] ! i}) \<and>
   5 = quorum_commit_index example_context \<lparr>cvm_highest_voted_commits = [7, 5, 3, 9]\<rparr>"
proof -
  let ?m = "\<lparr>cvm_highest_voted_commits = [7, 5, 3, 9]\<rparr>"
  have "quorum_commit_index example_context ?m = 5" by code_simp
  with quorum_commit_index_highest [of example_context ?m _ 5] show ?thesis by simp
qed

text \<open>
  observing a block of a valid author raises that author's entry to the highest commit index
  the block votes for and leaves the other entries alone.
\<close>

theorem observe_block_max:
  assumes "vb_author b < length (cvm_highest_voted_commits m)"
  shows "\<exists>m'. observe_block m b = Some m' \<and>
     (\<forall>i < length (cvm_highest_voted_commits m). cvm_highest_voted_commits m' ! i =
        (if i = vb_author b
         then Max (insert (cvm_highest_voted_commits m ! i) (cr_index ` set (vb_commit_votes b)))
         else cvm_highest_voted_commits m ! i))"
  using observe_votes [OF assms, of "vb_commit_votes b"] assms
  by (auto simp: observe_block_def fold_max_nat nth_list_update)

definition example_voting_block :: verified_block where
  "example_voting_block = \<lparr>vb_block = \<lparr>sb_inner = BlockV1
       \<lparr>b1_epoch = 0, b1_round = 3, b1_author = 2, b1_timestamp_ms = 0, b1_ancestors = [],
        b1_transactions = [], b1_commit_votes = [CommitRef 4 1, CommitRef 6 2, CommitRef 5 3],
        b1_misbehavior_reports = []\<rparr>, sb_signature = []\<rparr>,
     vb_digest = 7, vb_serialized = []\<rparr>"

theorem observe_block_max_witness:
  "\<exists>m'. observe_block (cvm_new example_context) example_voting_block = Some m' \<and>
     cvm_highest_voted_commits m' ! 1 = 0 \<and> cvm_highest_voted_commits m' ! 2 = 6"
  using observe_block_max [of example_voting_block "cvm_new example_context"]
  by (force simp: cvm_new_def example_voting_block_def vb_accessors)

end
