(* ===== verification/Round_Tracker.thy ===== *)
theory Round_Tracker
  imports Blocks Stake_Scan
begin

text \<open>
  \<open>consensus/core/src/round_tracker.rs\<close>: the rounds every authority reports for every other one, and
  the quorum round \<open>[low, high]\<close> computed from them. The lemmas give the meaning of the two bounds and
  prove the fault-tolerance statement of the type's documentation.
\<close>

section \<open>Definitions\<close>

type_synonym quorum_round = "round \<times> round"

record extended_block =
  eb_block :: verified_block
  eb_excluded_ancestors :: "block_ref list"

record peer_round_tracker =
  prt_block_accepted_rounds :: "round list list"
  prt_probed_accepted_rounds :: "round list list"
  prt_probed_received_rounds :: "round list list"

definition prt_new :: "consensus_context \<Rightarrow> peer_round_tracker" where
  "prt_new cx = (
     let size = committee_size (cx_committee cx); rounds = replicate size (replicate size 0) in
     \<lparr>prt_block_accepted_rounds = rounds, prt_probed_accepted_rounds = rounds,
      prt_probed_received_rounds = rounds\<rparr>)"

text \<open>\<open>m[i][j] = m[i][j].max(r)\<close>\<close>

definition raise_round :: "authority_index \<Rightarrow> round list list \<Rightarrow> authority_index \<Rightarrow> round \<Rightarrow> round list list option" where
  "raise_round i m j r = do {
     row \<leftarrow> vec_get m i;
     current \<leftarrow> vec_get row j;
     row' \<leftarrow> vec_set row j (max current r);
     vec_set m i row'
   }"

definition update_from_accepted_block ::
  "peer_round_tracker \<Rightarrow> extended_block \<Rightarrow> peer_round_tracker option" where
  "update_from_accepted_block t e = do {
     let b = eb_block e;
     let author = vb_author b;
     m \<leftarrow> raise_round author (prt_block_accepted_rounds t) author (vb_round b);
     m' \<leftarrow> foldM (\<lambda>m a. raise_round author m (br_author a) (br_round a)) m (vb_ancestors b);
     m'' \<leftarrow> foldM (\<lambda>m a. raise_round author m (br_author a) (br_round a)) m' (eb_excluded_ancestors e);
     Some (t\<lparr>prt_block_accepted_rounds := m''\<rparr>)
   }"

definition update_from_probe ::
  "peer_round_tracker \<Rightarrow> round list list \<Rightarrow> round list list \<Rightarrow> peer_round_tracker" where
  "update_from_probe t accepted received =
     t\<lparr>prt_probed_accepted_rounds := accepted, prt_probed_received_rounds := received\<rparr>"

definition compute_quorum_round ::
  "committee \<Rightarrow> authority_index \<Rightarrow> round list list \<Rightarrow> quorum_round option" where
  "compute_quorum_round c target highest_rounds = do {
     column \<leftarrow> mapM (\<lambda>(rounds, _). vec_get rounds target) (zip highest_rounds (committee_authorities c));
     let rounds_with_stake = sort (with_stakes c column);
     let low = (case stake_scan (cm_quorum_threshold c) 0 (rev rounds_with_stake) of Some r \<Rightarrow> r | None \<Rightarrow> 0);
     let high = (case stake_scan (cm_quorum_threshold c) 0 rounds_with_stake of Some r \<Rightarrow> r | None \<Rightarrow> 0);
     Some (low, high)
   }"

definition compute_accepted_quorum_rounds ::
  "consensus_context \<Rightarrow> peer_round_tracker \<Rightarrow> quorum_round list option" where
  "compute_accepted_quorum_rounds cx t = (
     let highest = map (\<lambda>(probed, block). map (\<lambda>(p, b). max p b) (zip probed block))
           (zip (prt_probed_accepted_rounds t) (prt_block_accepted_rounds t)) in
     mapM (\<lambda>(peer, _). compute_quorum_round (cx_committee cx) peer highest)
       (committee_authorities (cx_committee cx)))"

definition compute_received_quorum_rounds ::
  "consensus_context \<Rightarrow> peer_round_tracker \<Rightarrow> quorum_round list option" where
  "compute_received_quorum_rounds cx t =
     mapM (\<lambda>(peer, _). compute_quorum_round (cx_committee cx) peer (prt_probed_received_rounds t))
       (committee_authorities (cx_committee cx))"

definition calculate_propagation_delay ::
  "consensus_context \<Rightarrow> peer_round_tracker \<Rightarrow> round \<Rightarrow> round option" where
  "calculate_propagation_delay cx t last_proposed_round = do {
     received \<leftarrow> compute_received_quorum_rounds cx t;
     accepted \<leftarrow> compute_accepted_quorum_rounds cx t;
     (received_low, _) \<leftarrow> vec_get received (cx_own_index cx);
     (accepted_low, _) \<leftarrow> vec_get accepted (cx_own_index cx);
     Some (min (last_proposed_round - received_low) (last_proposed_round - accepted_low))
   }"

section \<open>Lemmas\<close>

definition square :: "nat \<Rightarrow> 'a list list \<Rightarrow> bool" where
  "square n m \<longleftrightarrow> length m = n \<and> (\<forall>row \<in> set m. length row = n)"

definition prt_inv :: "consensus_context \<Rightarrow> peer_round_tracker \<Rightarrow> bool" where
  "prt_inv cx t \<longleftrightarrow> (let n = committee_size (cx_committee cx) in
     square n (prt_block_accepted_rounds t) \<and> square n (prt_probed_accepted_rounds t) \<and>
     square n (prt_probed_received_rounds t))"

lemma prt_inv_new [wf_intros]: "prt_inv cx (prt_new cx)"
  by (simp add: prt_inv_def prt_new_def square_def Let_def)

lemma prt_inv_probe [wf_intros]:
  "prt_inv cx t \<Longrightarrow> square (committee_size (cx_committee cx)) a \<Longrightarrow> square (committee_size (cx_committee cx)) r \<Longrightarrow>
     prt_inv cx (update_from_probe t a r)"
  by (simp add: prt_inv_def update_from_probe_def Let_def)

lemma raise_round_square:
  assumes "square n m" and "i < n" and "j < n"
  shows "\<exists>m'. raise_round i m j r = Some m' \<and> square n m' \<and>
     (\<forall>k < n. \<forall>l < n. m' ! k ! l = (if k = i \<and> l = j then max (m ! k ! l) r else m ! k ! l))"
proof -
  have "length m = n" and "length (m ! i) = n" using assms by (auto simp: square_def)
  then have "raise_round i m j r = Some (m[i := (m ! i)[j := max (m ! i ! j) r]])"
    using assms(2,3) by (simp add: raise_round_def)
  moreover have "square n (m[i := (m ! i)[j := max (m ! i ! j) r]])"
    using assms \<open>length (m ! i) = n\<close> by (auto simp: square_def dest: set_update_subset_insert [THEN subsetD])
  ultimately show ?thesis
    using assms(2,3) \<open>length m = n\<close> \<open>length (m ! i) = n\<close> by (auto simp: nth_list_update)
qed

lemma raise_rounds_square:
  assumes "square n m" and "i < n" and "\<forall>a \<in> set as. br_author a < n"
  shows "\<exists>m'. foldM (\<lambda>m a. raise_round i m (br_author a) (br_round a)) m as = Some m' \<and> square n m' \<and>
     (\<forall>k < n. \<forall>l < n. m ! k ! l \<le> m' ! k ! l) \<and> (\<forall>a \<in> set as. br_round a \<le> m' ! i ! br_author a)"
  using assms
proof (induction as arbitrary: m)
  case (Cons a as)
  obtain m1 where m1: "raise_round i m (br_author a) (br_round a) = Some m1" "square n m1"
    and vals: "\<forall>k < n. \<forall>l < n. m1 ! k ! l =
        (if k = i \<and> l = br_author a then max (m ! k ! l) (br_round a) else m ! k ! l)"
    using raise_round_square [of n m i "br_author a" "br_round a"] Cons.prems by auto
  obtain m' where m': "foldM (\<lambda>m a. raise_round i m (br_author a) (br_round a)) m1 as = Some m'" "square n m'"
    and mono: "\<forall>k < n. \<forall>l < n. m1 ! k ! l \<le> m' ! k ! l" and rest: "\<forall>a \<in> set as. br_round a \<le> m' ! i ! br_author a"
    using Cons.IH [OF m1(2)] Cons.prems by auto
  have "m ! k ! l \<le> m' ! k ! l" if "k < n" "l < n" for k l
    using that mono [rule_format, of k l] vals by (auto split: if_splits)
  moreover have "br_round a \<le> m' ! i ! br_author a"
    using Cons.prems mono [rule_format, of i "br_author a"] vals by auto
  ultimately show ?case using m1(1) m' rest by auto
qed simp

lemma square_column:
  assumes "square n m" and "target < n" and "length as = n"
  shows "mapM (\<lambda>(rounds, _). vec_get rounds target) (zip m as) = Some (map (\<lambda>row. row ! target) m)"
proof -
  have "mapM (\<lambda>(rounds, _). vec_get rounds target) (zip m as) =
      Some (map (\<lambda>(rounds, _). rounds ! target) (zip m as))"
    by (rule mapM_Some) (use assms in \<open>auto simp: square_def dest!: set_zip_leftD\<close>)
  also have "map (\<lambda>(rounds, _). rounds ! target) (zip m as) = map ((\<lambda>row. row ! target) \<circ> fst) (zip m as)"
    by (auto simp: case_prod_beta)
  also have "\<dots> = map (\<lambda>row. row ! target) m"
    using assms by (simp add: square_def flip: map_map)
  finally show ?thesis .
qed

text \<open>The two bounds in terms of the weights of the authorities above and below them.\<close>

lemma compute_quorum_round_bounds:
  assumes "committee_ok c" and "square (committee_size c) m" and "target < committee_size c"
  obtains low high where "compute_quorum_round c target m = Some (low, high)"
    and "reached_quorum c (weight c {i. i < committee_size c \<and> low \<le> m ! i ! target})"
    and "\<not> reached_quorum c (weight c {i. i < committee_size c \<and> low < m ! i ! target})"
    and "reached_quorum c (weight c {i. i < committee_size c \<and> m ! i ! target \<le> high})"
    and "\<not> reached_quorum c (weight c {i. i < committee_size c \<and> m ! i ! target < high})"
proof -
  let ?col = "map (\<lambda>row. row ! target) m" and ?n = "committee_size c"
  have len: "length ?col = ?n" and len_m: "length m = ?n" using assms(2) by (simp_all add: square_def)
  have nth: "\<And>P. {i. i < ?n \<and> P (?col ! i)} = {i. i < ?n \<and> P (m ! i ! target)}"
    using len_m by auto
  obtain low where low: "stake_scan (cm_quorum_threshold c) 0 (rev (sort (with_stakes c ?col))) = Some low"
    "reached_quorum c (weight c {i. i < ?n \<and> low \<le> ?col ! i})"
    "\<not> reached_quorum c (weight c {i. i < ?n \<and> low < ?col ! i})"
    using quorum_scan_desc [OF assms(1) len] by blast
  obtain high where high: "stake_scan (cm_quorum_threshold c) 0 (sort (with_stakes c ?col)) = Some high"
    "reached_quorum c (weight c {i. i < ?n \<and> ?col ! i \<le> high})"
    "\<not> reached_quorum c (weight c {i. i < ?n \<and> ?col ! i < high})"
    using quorum_scan_asc [OF assms(1) len] by blast
  have "compute_quorum_round c target m = Some (low, high)"
    using low(1) high(1) square_column [OF assms(2,3), of "committee_authorities c"]
    by (simp add: compute_quorum_round_def Let_def)
  then show ?thesis
    using that low(2,3) [unfolded nth] high(2) [unfolded nth [of "\<lambda>r. r \<le> high"]]
      high(3) [unfolded nth [of "\<lambda>r. r < high"]] by blast
qed

section \<open>Properties\<close>

text \<open>
  C24: the quorum round of a peer is \<open>[low, high]\<close> where \<open>low\<close> is the highest round that a quorum
  reports or exceeds and \<open>high\<close> the lowest round that a quorum reports or stays below, with
  \<open>low \<le> high\<close>; with less than a validity threshold of faulty stake both lie between rounds reported
  by correct authorities.
\<close>

theorem quorum_round_bft:
  assumes "committee_ok c" and "square (committee_size c) m" and "target < committee_size c"
    and "\<not> reached_validity c (weight c Byz)"
  shows "\<exists>low high. compute_quorum_round c target m = Some (low, high) \<and> low \<le> high \<and>
     (\<forall>r. reached_quorum c (weight c {i. i < committee_size c \<and> r \<le> m ! i ! target}) \<longleftrightarrow> r \<le> low) \<and>
     (\<forall>r. reached_quorum c (weight c {i. i < committee_size c \<and> m ! i ! target \<le> r}) \<longleftrightarrow> high \<le> r) \<and>
     (\<exists>i < committee_size c. i \<notin> Byz \<and> m ! i ! target \<le> low) \<and>
     (\<exists>i < committee_size c. i \<notin> Byz \<and> high \<le> m ! i ! target)"
proof -
  let ?n = "committee_size c"
  obtain low high where eq: "compute_quorum_round c target m = Some (low, high)"
    and low: "reached_quorum c (weight c {i. i < ?n \<and> low \<le> m ! i ! target})"
      "\<not> reached_quorum c (weight c {i. i < ?n \<and> low < m ! i ! target})"
    and high: "reached_quorum c (weight c {i. i < ?n \<and> m ! i ! target \<le> high})"
      "\<not> reached_quorum c (weight c {i. i < ?n \<and> m ! i ! target < high})"
    using compute_quorum_round_bounds [OF assms(1-3)] by blast
  have "low \<le> high"
    using cq.honest_in_both [OF assms(1) low(1) high(1) assms(4)] by auto
  moreover have "reached_quorum c (weight c {i. i < ?n \<and> r \<le> m ! i ! target}) \<longleftrightarrow> r \<le> low" for r
    using quorum_where_mono [OF low(1), of "\<lambda>i. r \<le> m ! i ! target"] low(2)
      quorum_where_mono [of c ?n "\<lambda>i. r \<le> m ! i ! target" "\<lambda>i. low < m ! i ! target"]
    by (meson less_le_trans not_le order_trans)
  moreover have "reached_quorum c (weight c {i. i < ?n \<and> m ! i ! target \<le> r}) \<longleftrightarrow> high \<le> r" for r
    using quorum_where_mono [OF high(1), of "\<lambda>i. m ! i ! target \<le> r"] high(2)
      quorum_where_mono [of c ?n "\<lambda>i. m ! i ! target \<le> r" "\<lambda>i. m ! i ! target < high"]
    by (meson le_less_trans not_le order_trans)
  moreover have restrict: "weight c (A \<inter> {..<?n}) = weight c A" for A
    by (simp add: weight_def)
  have "\<exists>i < ?n. i \<notin> Byz \<and> m ! i ! target \<le> low"
    using cq.validity_not_subset [of c "- {i. i < ?n \<and> low < m ! i ! target} \<inter> {..<?n}", OF _ assms(4)]
      below_quorum_complement [OF assms(1) low(2)] by (auto simp: restrict not_less)
  moreover have "\<exists>i < ?n. i \<notin> Byz \<and> high \<le> m ! i ! target"
    using cq.validity_not_subset [of c "- {i. i < ?n \<and> m ! i ! target < high} \<inter> {..<?n}", OF _ assms(4)]
      below_quorum_complement [OF assms(1) high(2)] by (auto simp: restrict not_less)
  ultimately show ?thesis using eq by blast
qed

definition example_rounds :: "round list list" where
  "example_rounds = [[9, 4, 4, 4], [7, 4, 4, 4], [8, 4, 4, 4], [3, 4, 4, 4]]"

theorem quorum_round_bft_witness:
  "compute_quorum_round example_committee 0 example_rounds = Some (7, 8) \<and>
   reached_quorum example_committee (weight example_committee {i. i < 4 \<and> 7 \<le> example_rounds ! i ! 0})"
proof -
  have "compute_quorum_round example_committee 0 example_rounds = Some (7, 8)" by code_simp
  moreover have "square (committee_size example_committee) example_rounds"
    by (simp add: square_def example_rounds_def)
  ultimately show ?thesis
    using quorum_round_bft [of example_committee example_rounds 0 "{3}"]
    by (auto simp: reached_validity_def)
qed

text \<open>
  recording an accepted block of a valid author with valid ancestors never panics, never lowers
  a round, and afterwards the author's row covers the block's round and the rounds of its included
  and excluded ancestors.
\<close>

theorem accepted_block_recorded:
  assumes "prt_inv cx t" and "vb_author (eb_block e) < committee_size (cx_committee cx)"
    and "\<forall>a \<in> set (vb_ancestors (eb_block e)) \<union> set (eb_excluded_ancestors e).
           br_author a < committee_size (cx_committee cx)"
  shows "\<exists>t'. update_from_accepted_block t e = Some t' \<and> prt_inv cx t' \<and>
     (\<forall>i < committee_size (cx_committee cx). \<forall>j < committee_size (cx_committee cx).
        prt_block_accepted_rounds t ! i ! j \<le> prt_block_accepted_rounds t' ! i ! j) \<and>
     vb_round (eb_block e) \<le> prt_block_accepted_rounds t' ! vb_author (eb_block e) ! vb_author (eb_block e) \<and>
     (\<forall>a \<in> set (vb_ancestors (eb_block e)) \<union> set (eb_excluded_ancestors e).
        br_round a \<le> prt_block_accepted_rounds t' ! vb_author (eb_block e) ! br_author a)"
proof -
  let ?n = "committee_size (cx_committee cx)" and ?b = "eb_block e"
  let ?step = "\<lambda>m a. raise_round (vb_author ?b) m (br_author a) (br_round a)"
  have "\<forall>a \<in> set (vb_reference ?b # vb_ancestors ?b @ eb_excluded_ancestors e). br_author a < ?n"
    using assms(2,3) by auto
  then obtain m' where m': "foldM ?step (prt_block_accepted_rounds t)
        (vb_reference ?b # vb_ancestors ?b @ eb_excluded_ancestors e) = Some m'" "square ?n m'"
    and "\<forall>k < ?n. \<forall>l < ?n. prt_block_accepted_rounds t ! k ! l \<le> m' ! k ! l"
    and "\<forall>a \<in> set (vb_reference ?b # vb_ancestors ?b @ eb_excluded_ancestors e).
        br_round a \<le> m' ! vb_author ?b ! br_author a"
    using raise_rounds_square [OF _ assms(2)] assms(1) unfolding prt_inv_def Let_def by blast
  moreover have "update_from_accepted_block t e = Some (t\<lparr>prt_block_accepted_rounds := m'\<rparr>)"
    using m'(1) by (auto simp: update_from_accepted_block_def Let_def foldM_append elim!: bind_SomeE)
  ultimately show ?thesis using assms(1) by (auto simp: prt_inv_def Let_def)
qed

theorem accepted_block_recorded_witness:
  "\<exists>t'. update_from_accepted_block (prt_new example_context)
       \<lparr>eb_block = example_block 5 1 0 [BlockRef 4 1 0, BlockRef 4 2 0],
        eb_excluded_ancestors = [BlockRef 3 3 0]\<rparr> = Some t' \<and>
     5 \<le> prt_block_accepted_rounds t' ! 1 ! 1 \<and> 3 \<le> prt_block_accepted_rounds t' ! 1 ! 3"
  using accepted_block_recorded [OF prt_inv_new [of example_context], of
      "\<lparr>eb_block = example_block 5 1 0 [BlockRef 4 1 0, BlockRef 4 2 0],
        eb_excluded_ancestors = [BlockRef 3 3 0]\<rparr>"]
  by auto

end
