(* ===== verification/Ancestor_State.thy ===== *)
theory Ancestor_State
  imports Commits Stake_Scan Round_Tracker
begin

text \<open>
  \<open>consensus/core/src/ancestor.rs\<close>: the manager that excludes authorities with poor propagation
  scores from the ancestors of proposed blocks. The clock round it reads from the DAG state is an
  argument. The lemmas show that the excluded stake it tracks is the stake of the excluded
  authorities, stays within its threshold, and that the underflow and transition panics of
  \<open>apply_state_change\<close> are unreachable.
\<close>

section \<open>Definitions\<close>

datatype ancestor_state = AInclude | AExclude nat

record ancestor_info =
  ai_state :: ancestor_state
  ai_lock_until_round :: round

definition ancestor_info_new :: ancestor_info where
  "ancestor_info_new = \<lparr>ai_state = AInclude, ai_lock_until_round = 0\<rparr>"

definition is_locked :: "ancestor_info \<Rightarrow> round \<Rightarrow> bool" where
  "is_locked ai clock_round \<longleftrightarrow> ai_lock_until_round ai \<ge> clock_round"

record state_transition =
  st_authority_id :: authority_index
  st_score :: nat
  st_stake :: stake
  st_high_quorum_round :: round

record ancestor_state_manager =
  asm_state_map :: "ancestor_info list"
  asm_excluded_nodes_stake_threshold :: stake
  asm_total_excluded_stake :: stake
  asm_propagation_scores :: reputation_scores

definition STATE_LOCK_CLOCK_ROUNDS :: round where
  "STATE_LOCK_CLOCK_ROUNDS = 450"

definition SCORE_EXCLUSION_THRESHOLD_PERCENTAGE :: nat where
  "SCORE_EXCLUSION_THRESHOLD_PERCENTAGE = 20"

definition asm_new :: "consensus_context \<Rightarrow> ancestor_state_manager" where
  "asm_new cx = (
     let percentage = wrap64 (2 * pc_bad_nodes_stake_threshold (cx_protocol_config cx)) div 3 in
     \<lparr>asm_state_map = replicate (committee_size (cx_committee cx)) ancestor_info_new,
      asm_excluded_nodes_stake_threshold =
        wrap64 (percentage * cm_total_stake (cx_committee cx)) div 100,
      asm_total_excluded_stake = 0,
      asm_propagation_scores = reputation_scores_new commit_range_default []\<rparr>)"

definition set_propagation_scores ::
  "ancestor_state_manager \<Rightarrow> reputation_scores \<Rightarrow> ancestor_state_manager" where
  "set_propagation_scores m scores = m\<lparr>asm_propagation_scores := scores\<rparr>"

definition get_ancestor_states :: "ancestor_state_manager \<Rightarrow> ancestor_state list" where
  "get_ancestor_states m = map ai_state (asm_state_map m)"

definition calculate_network_high_quorum_round :: "consensus_context \<Rightarrow> quorum_round list \<Rightarrow> round" where
  "calculate_network_high_quorum_round cx rounds = (
     case stake_scan (cm_quorum_threshold (cx_committee cx)) 0
         (sort (with_stakes (cx_committee cx) (map snd rounds))) of
       Some r \<Rightarrow> r
     | None \<Rightarrow> 0)"

definition apply_state_change ::
  "consensus_context \<Rightarrow> ancestor_state_manager \<Rightarrow> state_transition \<Rightarrow> ancestor_state \<Rightarrow> round \<Rightarrow>
     ancestor_state_manager option" where
  "apply_state_change cx m t new_state clock_round = do {
     _ \<leftarrow> committee_authority (cx_committee cx) (st_authority_id t);
     ai \<leftarrow> vec_get (asm_state_map m) (st_authority_id t);
     total \<leftarrow> (case (ai_state ai, new_state) of
         (AExclude _, AInclude) \<Rightarrow>
           if st_stake t \<le> asm_total_excluded_stake m
           then Some (asm_total_excluded_stake m - st_stake t) else None
       | (AInclude, AExclude _) \<Rightarrow> Some (wrap64 (asm_total_excluded_stake m + st_stake t))
       | _ \<Rightarrow> None);
     let lock = clock_round + STATE_LOCK_CLOCK_ROUNDS;
     states \<leftarrow> vec_set (asm_state_map m) (st_authority_id t)
       (ai\<lparr>ai_state := new_state, ai_lock_until_round := lock\<rparr>);
     Some (m\<lparr>asm_state_map := states, asm_total_excluded_stake := total\<rparr>)
   }"

text \<open>One iteration of the loop that collects the transitions.\<close>

definition collect_transition ::
  "consensus_context \<Rightarrow> ancestor_state_manager \<Rightarrow> quorum_round list \<Rightarrow> round \<Rightarrow> round \<Rightarrow> nat \<Rightarrow>
     state_transition list \<times> state_transition list \<Rightarrow> nat \<times> nat \<Rightarrow>
     (state_transition list \<times> state_transition list) option" where
  "collect_transition cx m rounds network_high clock_round low_score = (\<lambda>(e2i, i2e) (idx, score). do {
     authority_id \<leftarrow> to_authority_index (cx_committee cx) idx;
     ai \<leftarrow> vec_get (asm_state_map m) idx;
     (_, high) \<leftarrow> vec_get rounds idx;
     authority \<leftarrow> committee_authority (cx_committee cx) authority_id;
     let t = \<lparr>st_authority_id = authority_id, st_score = score, st_stake = auth_stake authority,
              st_high_quorum_round = high\<rparr>;
     if is_locked ai clock_round then Some (e2i, i2e)
     else case ai_state ai of
       AInclude \<Rightarrow> if score \<le> low_score then Some (e2i, i2e @ [t]) else Some (e2i, i2e)
     | AExclude _ \<Rightarrow>
         if score > low_score \<or> high \<ge> network_high then Some (e2i @ [t], i2e) else Some (e2i, i2e)
   })"

definition update_all_ancestors_state ::
  "consensus_context \<Rightarrow> round \<Rightarrow> ancestor_state_manager \<Rightarrow> quorum_round list \<Rightarrow>
     ancestor_state_manager option" where
  "update_all_ancestors_state cx clock_round m rounds = do {
     let network_high = calculate_network_high_quorum_round cx rounds;
     let low_score = wrap64 (highest_score (asm_propagation_scores m) * SCORE_EXCLUSION_THRESHOLD_PERCENTAGE) div 100;
     let scores = rs_scores_per_authority (asm_propagation_scores m);
     (e2i, i2e) \<leftarrow> foldM (collect_transition cx m rounds network_high clock_round low_score) ([], [])
       (zip [0..<length scores] scores);
     m1 \<leftarrow> foldM (\<lambda>m t. apply_state_change cx m t AInclude clock_round) m e2i;
     foldM (\<lambda>m t.
         if wrap64 (asm_total_excluded_stake m + st_stake t) \<le> asm_excluded_nodes_stake_threshold m
         then apply_state_change cx m t (AExclude (st_score t)) clock_round
         else Some m) m1 (sort_key st_score i2e)
   }"

section \<open>Invariant\<close>

fun is_excluded :: "ancestor_state \<Rightarrow> bool" where
  "is_excluded AInclude = False"
| "is_excluded (AExclude _) = True"

definition excluded :: "ancestor_state_manager \<Rightarrow> authority_index set" where
  "excluded m = {i. i < length (asm_state_map m) \<and> is_excluded (ai_state (asm_state_map m ! i))}"

definition asm_inv :: "consensus_context \<Rightarrow> ancestor_state_manager \<Rightarrow> bool" where
  "asm_inv cx m \<longleftrightarrow>
     length (asm_state_map m) = committee_size (cx_committee cx) \<and>
     asm_total_excluded_stake m = weight (cx_committee cx) (excluded m) \<and>
     asm_total_excluded_stake m \<le> asm_excluded_nodes_stake_threshold m"

text \<open>A transition for a member of the committee, with its stake.\<close>

definition transition_ok :: "consensus_context \<Rightarrow> state_transition \<Rightarrow> bool" where
  "transition_ok cx t \<longleftrightarrow> st_authority_id t < committee_size (cx_committee cx) \<and>
     st_stake t = authority_weight (cx_committee cx) (st_authority_id t)"

section \<open>Lemmas\<close>

lemma asm_inv_new [wf_intros]: "asm_inv cx (asm_new cx)"
proof -
  have "excluded (asm_new cx) = {}"
    by (auto simp: excluded_def asm_new_def Let_def ancestor_info_new_def)
  then show ?thesis by (simp add: asm_inv_def) (simp add: asm_new_def Let_def)
qed

lemma asm_inv_set_scores [wf_intros]: "asm_inv cx m \<Longrightarrow> asm_inv cx (set_propagation_scores m s)"
  by (auto simp: asm_inv_def set_propagation_scores_def excluded_def)

lemma committee_authority_eq [panic_simps]:
  "i < committee_size c \<Longrightarrow> committee_authority c i = Some (cm_authorities c ! i)"
  by (simp add: committee_authority_def committee_size_def)

lemma weight_remove:
  assumes "i \<in> A"
  shows "weight c A = authority_weight c i + weight c (A - {i})"
  using weight_insert [of i "A - {i}" c] assms by (simp add: insert_absorb)

definition asm_set ::
  "ancestor_state_manager \<Rightarrow> authority_index \<Rightarrow> ancestor_state \<Rightarrow> round \<Rightarrow> stake \<Rightarrow> ancestor_state_manager" where
  "asm_set m i st lock tot = m\<lparr>asm_state_map :=
     (asm_state_map m)[i := (asm_state_map m ! i)\<lparr>ai_state := st, ai_lock_until_round := lock\<rparr>],
     asm_total_excluded_stake := tot\<rparr>"

lemma excluded_asm_set:
  "i < length (asm_state_map m) \<Longrightarrow>
     excluded (asm_set m i st lock tot) = (if is_excluded st then insert i (excluded m) else excluded m - {i})"
  by (auto simp: excluded_def asm_set_def nth_list_update)

lemma asm_set_sel [simp]:
  "length (asm_state_map (asm_set m i st lock tot)) = length (asm_state_map m)"
  "asm_total_excluded_stake (asm_set m i st lock tot) = tot"
  "asm_excluded_nodes_stake_threshold (asm_set m i st lock tot) = asm_excluded_nodes_stake_threshold m"
  by (simp_all add: asm_set_def)

lemma apply_include:
  assumes "asm_inv cx m" and "transition_ok cx t" and "st_authority_id t \<in> excluded m"
  shows "\<exists>m'. apply_state_change cx m t AInclude clk = Some m' \<and> asm_inv cx m' \<and>
     excluded m' = excluded m - {st_authority_id t} \<and>
     asm_excluded_nodes_stake_threshold m' = asm_excluded_nodes_stake_threshold m"
proof -
  let ?i = "st_authority_id t" and ?c = "cx_committee cx"
  let ?m = "asm_set m ?i AInclude (clk + STATE_LOCK_CLOCK_ROUNDS) (asm_total_excluded_stake m - st_stake t)"
  have w: "asm_total_excluded_stake m = st_stake t + weight ?c (excluded m - {?i})"
    using assms weight_remove [OF assms(3), of ?c] by (simp add: asm_inv_def transition_ok_def)
  have i: "?i < length (asm_state_map m)" "?i < committee_size ?c"
    using assms(1,2) by (simp_all add: asm_inv_def transition_ok_def)
  obtain s where "ai_state (asm_state_map m ! ?i) = AExclude s"
    using assms(3) by (cases "ai_state (asm_state_map m ! ?i)") (auto simp: excluded_def)
  then have "apply_state_change cx m t AInclude clk = Some ?m"
    using i w by (simp add: apply_state_change_def committee_authority_eq asm_set_def)
  moreover have "asm_inv cx ?m"
    using assms(1) w i by (auto simp: asm_inv_def excluded_asm_set)
  ultimately show ?thesis using i by (simp add: excluded_asm_set)
qed

lemma apply_exclude:
  assumes "committee_ok (cx_committee cx)" and "asm_inv cx m" and "transition_ok cx t"
    and "st_authority_id t \<notin> excluded m"
  shows "wrap64 (asm_total_excluded_stake m + st_stake t) = asm_total_excluded_stake m + st_stake t"
    and "asm_total_excluded_stake m + st_stake t \<le> asm_excluded_nodes_stake_threshold m \<Longrightarrow>
     \<exists>m'. apply_state_change cx m t (AExclude s) clk = Some m' \<and> asm_inv cx m' \<and>
       excluded m' = insert (st_authority_id t) (excluded m) \<and>
       asm_excluded_nodes_stake_threshold m' = asm_excluded_nodes_stake_threshold m"
proof -
  let ?i = "st_authority_id t" and ?c = "cx_committee cx"
  let ?m = "asm_set m ?i (AExclude s) (clk + STATE_LOCK_CLOCK_ROUNDS) (asm_total_excluded_stake m + st_stake t)"
  have w: "asm_total_excluded_stake m + st_stake t = weight ?c (insert ?i (excluded m))"
    using assms weight_insert [of ?i "excluded m" ?c] by (simp add: asm_inv_def transition_ok_def)
  then show wrap: "wrap64 (asm_total_excluded_stake m + st_stake t) = asm_total_excluded_stake m + st_stake t"
    using weight_le_total [OF assms(1), of "insert ?i (excluded m)"] committee_total_bound [OF assms(1)]
    by simp
  assume le: "asm_total_excluded_stake m + st_stake t \<le> asm_excluded_nodes_stake_threshold m"
  have i: "?i < length (asm_state_map m)" "?i < committee_size ?c"
    using assms(2,3) by (simp_all add: asm_inv_def transition_ok_def)
  have "ai_state (asm_state_map m ! ?i) = AInclude"
    using assms(4) i by (cases "ai_state (asm_state_map m ! ?i)") (auto simp: excluded_def)
  then have "apply_state_change cx m t (AExclude s) clk = Some ?m"
    using i wrap by (simp add: apply_state_change_def committee_authority_eq asm_set_def)
  moreover have "asm_inv cx ?m"
    using assms(2) w i le by (simp add: asm_inv_def excluded_asm_set)
  ultimately show "\<exists>m'. apply_state_change cx m t (AExclude s) clk = Some m' \<and> asm_inv cx m' \<and>
       excluded m' = insert ?i (excluded m) \<and>
       asm_excluded_nodes_stake_threshold m' = asm_excluded_nodes_stake_threshold m"
    using i by (simp add: excluded_asm_set)
qed

text \<open>The two loops that apply the transitions.\<close>

lemma include_loop:
  assumes "asm_inv cx m" and "\<forall>t \<in> set ts. transition_ok cx t \<and> st_authority_id t \<in> excluded m"
    and "distinct (map st_authority_id ts)"
  shows "\<exists>m'. foldM (\<lambda>m t. apply_state_change cx m t AInclude clk) m ts = Some m' \<and> asm_inv cx m' \<and>
     excluded m' = excluded m - st_authority_id ` set ts \<and>
     asm_excluded_nodes_stake_threshold m' = asm_excluded_nodes_stake_threshold m"
  using assms
proof (induction ts arbitrary: m)
  case (Cons t ts)
  obtain m1 where m1: "apply_state_change cx m t AInclude clk = Some m1" "asm_inv cx m1"
    "excluded m1 = excluded m - {st_authority_id t}"
    "asm_excluded_nodes_stake_threshold m1 = asm_excluded_nodes_stake_threshold m"
    using apply_include [of cx m t clk] Cons.prems by auto
  have "\<forall>t' \<in> set ts. transition_ok cx t' \<and> st_authority_id t' \<in> excluded m1"
    using Cons.prems m1(3) by (auto simp: image_iff)
  with Cons.IH [OF m1(2)] Cons.prems(3) m1 show ?case by auto
qed simp

lemma exclude_loop:
  assumes "committee_ok (cx_committee cx)" and "asm_inv cx m"
    and "\<forall>t \<in> set ts. transition_ok cx t \<and> st_authority_id t \<notin> excluded m"
    and "distinct (map st_authority_id ts)"
  shows "\<exists>m'. foldM (\<lambda>m t.
         if wrap64 (asm_total_excluded_stake m + st_stake t) \<le> asm_excluded_nodes_stake_threshold m
         then apply_state_change cx m t (AExclude (st_score t)) clk else Some m) m ts = Some m' \<and>
     asm_inv cx m' \<and> excluded m \<subseteq> excluded m' \<and> excluded m' \<subseteq> excluded m \<union> st_authority_id ` set ts \<and>
     asm_excluded_nodes_stake_threshold m' = asm_excluded_nodes_stake_threshold m"
  using assms(2-)
proof (induction ts arbitrary: m)
  case (Cons t ts)
  let ?fits = "asm_total_excluded_stake m + st_stake t \<le> asm_excluded_nodes_stake_threshold m"
  have wrap: "wrap64 (asm_total_excluded_stake m + st_stake t) = asm_total_excluded_stake m + st_stake t"
    using apply_exclude(1) [OF assms(1), of m t] Cons.prems by auto
  obtain m1 where m1: "(if ?fits then apply_state_change cx m t (AExclude (st_score t)) clk else Some m) = Some m1"
    "asm_inv cx m1" "excluded m \<subseteq> excluded m1" "excluded m1 \<subseteq> insert (st_authority_id t) (excluded m)"
    "asm_excluded_nodes_stake_threshold m1 = asm_excluded_nodes_stake_threshold m"
    using apply_exclude(2) [OF assms(1), of m t "st_score t" clk] Cons.prems by (cases ?fits) auto
  have "\<forall>t' \<in> set ts. transition_ok cx t' \<and> st_authority_id t' \<notin> excluded m1"
    using Cons.prems m1(4) by (fastforce simp: image_iff)
  then obtain m' where "foldM (\<lambda>m t.
         if wrap64 (asm_total_excluded_stake m + st_stake t) \<le> asm_excluded_nodes_stake_threshold m
         then apply_state_change cx m t (AExclude (st_score t)) clk else Some m) m1 ts = Some m'"
    "asm_inv cx m'" "excluded m1 \<subseteq> excluded m'" "excluded m' \<subseteq> excluded m1 \<union> st_authority_id ` set ts"
    "asm_excluded_nodes_stake_threshold m' = asm_excluded_nodes_stake_threshold m1"
    using Cons.IH [OF m1(2)] Cons.prems(3) by auto
  with m1 wrap show ?case by (auto simp del: foldM.simps(1) dest: subsetD)
qed simp

text \<open>The transitions collected: one per unlocked authority that is to change state.\<close>

definition transition_at :: "consensus_context \<Rightarrow> quorum_round list \<Rightarrow> nat list \<Rightarrow> nat \<Rightarrow> state_transition" where
  "transition_at cx rounds scores i = \<lparr>st_authority_id = i, st_score = scores ! i,
     st_stake = auth_stake (cm_authorities (cx_committee cx) ! i), st_high_quorum_round = snd (rounds ! i)\<rparr>"

definition to_include :: "ancestor_state_manager \<Rightarrow> quorum_round list \<Rightarrow> round \<Rightarrow> round \<Rightarrow> nat \<Rightarrow> nat list \<Rightarrow> nat \<Rightarrow> bool" where
  "to_include m rounds network_high clk low scores i \<longleftrightarrow>
     \<not> is_locked (asm_state_map m ! i) clk \<and> is_excluded (ai_state (asm_state_map m ! i)) \<and>
     (scores ! i > low \<or> snd (rounds ! i) \<ge> network_high)"

definition to_exclude :: "ancestor_state_manager \<Rightarrow> round \<Rightarrow> nat \<Rightarrow> nat list \<Rightarrow> nat \<Rightarrow> bool" where
  "to_exclude m clk low scores i \<longleftrightarrow>
     \<not> is_locked (asm_state_map m ! i) clk \<and> \<not> is_excluded (ai_state (asm_state_map m ! i)) \<and> scores ! i \<le> low"

lemma collect_one:
  assumes "asm_inv cx m" and "i < length scores" and "length scores \<le> committee_size (cx_committee cx)"
    and "length scores \<le> length rounds"
  shows "collect_transition cx m rounds nh clk low (e2i, i2e) (i, scores ! i) = Some
     (if to_include m rounds nh clk low scores i then e2i @ [transition_at cx rounds scores i] else e2i,
      if to_exclude m clk low scores i then i2e @ [transition_at cx rounds scores i] else i2e)"
proof -
  have "i < committee_size (cx_committee cx)" "i < length (asm_state_map m)" "i < length rounds"
    "i < length (cm_authorities (cx_committee cx))"
    using assms by (auto simp: asm_inv_def committee_size_def)
  then show ?thesis
    by (cases "rounds ! i"; cases "ai_state (asm_state_map m ! i)")
      (simp_all add: collect_transition_def to_authority_index_def committee_authority_eq
        to_include_def to_exclude_def transition_at_def Let_def)
qed

lemma collect_all:
  assumes "asm_inv cx m" and "length scores \<le> committee_size (cx_committee cx)"
    and "length scores \<le> length rounds" and "n \<le> length scores"
  shows "foldM (collect_transition cx m rounds nh clk low) ([], []) (zip [0..<n] (take n scores)) = Some
     (map (transition_at cx rounds scores) (filter (to_include m rounds nh clk low scores) [0..<n]),
      map (transition_at cx rounds scores) (filter (to_exclude m clk low scores) [0..<n]))"
  using assms(4)
proof (induction n)
  case (Suc n)
  then have "zip [0..<Suc n] (take (Suc n) scores) = zip [0..<n] (take n scores) @ [(n, scores ! n)]"
    by (simp add: take_Suc_conv_app_nth)
  with Suc assms(1-3) show ?case
    by (simp add: foldM_append collect_one)
qed simp

lemma update_all_total:
  assumes "committee_ok (cx_committee cx)" and "asm_inv cx m"
    and "length (rs_scores_per_authority (asm_propagation_scores m)) \<le> committee_size (cx_committee cx)"
    and "length (rs_scores_per_authority (asm_propagation_scores m)) \<le> length rounds"
  shows "\<exists>m'. update_all_ancestors_state cx clk m rounds = Some m' \<and> asm_inv cx m' \<and>
     asm_excluded_nodes_stake_threshold m' = asm_excluded_nodes_stake_threshold m \<and>
     (\<forall>i < committee_size (cx_committee cx). is_locked (asm_state_map m ! i) clk \<longrightarrow>
        (i \<in> excluded m' \<longleftrightarrow> i \<in> excluded m))"
proof -
  define scores where "scores = rs_scores_per_authority (asm_propagation_scores m)"
  define nh where "nh = calculate_network_high_quorum_round cx rounds"
  define low where "low = wrap64 (highest_score (asm_propagation_scores m) * SCORE_EXCLUSION_THRESHOLD_PERCENTAGE) div 100"
  define incl where "incl = filter (to_include m rounds nh clk low scores) [0..<length scores]"
  define excl where "excl = filter (to_exclude m clk low scores) [0..<length scores]"
  let ?t = "transition_at cx rounds scores"
  have ok: "transition_ok cx (?t i)" if "i < length scores" for i
    using that assms(3) by (simp add: transition_ok_def transition_at_def authority_weight_def scores_def)
  have id: "st_authority_id (?t i) = i" for i by (simp add: transition_at_def)
  have len: "length (asm_state_map m) = committee_size (cx_committee cx)" using assms(2) by (simp add: asm_inv_def)
  have coll: "foldM (collect_transition cx m rounds nh clk low) ([], []) (zip [0..<length scores] scores) =
      Some (map ?t incl, map ?t excl)"
    using collect_all [OF assms(2-4), of "length scores" nh clk low]
    by (simp add: incl_def excl_def flip: scores_def)
  have ids: "map st_authority_id (map ?t is) = is" "st_authority_id ` set (map ?t is) = set is" for "is"
    by (simp_all add: id comp_def image_comp)
  have h1: "\<forall>t \<in> set (map ?t incl). transition_ok cx t \<and> st_authority_id t \<in> excluded m"
    using ok assms(3) [folded scores_def] len by (auto simp: incl_def id to_include_def excluded_def)
  have h2: "distinct (map st_authority_id (map ?t incl))"
    unfolding ids by (simp add: incl_def)
  obtain m1 where m1: "foldM (\<lambda>m t. apply_state_change cx m t AInclude clk) m (map ?t incl) = Some m1"
    "asm_inv cx m1" "excluded m1 = excluded m - set incl"
    "asm_excluded_nodes_stake_threshold m1 = asm_excluded_nodes_stake_threshold m"
    using include_loop [OF assms(2) h1 h2, of clk, unfolded ids(2)] by blast
  let ?es = "sort_key st_score (map ?t excl)"
  have h3: "\<forall>t \<in> set ?es. transition_ok cx t \<and> st_authority_id t \<notin> excluded m1"
    using ok m1(3) by (auto simp: excl_def id to_exclude_def excluded_def)
  have "mset (map st_authority_id ?es) = mset excl"
    by (simp add: id multiset.map_comp comp_def)
  then have h4: "distinct (map st_authority_id ?es)"
    using mset_eq_imp_distinct_iff by (fastforce simp: excl_def)
  have h5: "st_authority_id ` set ?es = set excl" using ids(2) [of excl] by simp
  obtain m' where m': "foldM (\<lambda>m t.
        if wrap64 (asm_total_excluded_stake m + st_stake t) \<le> asm_excluded_nodes_stake_threshold m
        then apply_state_change cx m t (AExclude (st_score t)) clk else Some m) m1 ?es = Some m'"
    "asm_inv cx m'" "excluded m1 \<subseteq> excluded m'" "excluded m' \<subseteq> excluded m1 \<union> set excl"
    "asm_excluded_nodes_stake_threshold m' = asm_excluded_nodes_stake_threshold m1"
    using exclude_loop [OF assms(1) m1(2) h3 h4, of clk, unfolded h5] by blast
  have "update_all_ancestors_state cx clk m rounds = Some m'"
    using coll m1(1) m'(1)
    by (simp add: update_all_ancestors_state_def Let_def flip: scores_def nh_def low_def)
  moreover have "i \<in> excluded m' \<longleftrightarrow> i \<in> excluded m" if "is_locked (asm_state_map m ! i) clk" for i
    using that m1(3) m'(3,4) by (auto simp: incl_def excl_def to_include_def to_exclude_def)
  ultimately show ?thesis using m1 m' by auto
qed

lemma excluded_eq:
  assumes "length (asm_state_map m) = n"
  shows "excluded m = {i. i < n \<and> get_ancestor_states m ! i \<noteq> AInclude}"
proof -
  have iff: "is_excluded st \<longleftrightarrow> st \<noteq> AInclude" for st by (cases st) auto
  show ?thesis
    unfolding excluded_def iff assms
    by (rule Collect_cong) (use assms in \<open>auto simp: get_ancestor_states_def\<close>)
qed

section \<open>Properties\<close>

text \<open>
  A history of the manager: each step installs scores and updates all states at a clock round with
  the quorum rounds known then.
\<close>

fun asm_step ::
  "consensus_context \<Rightarrow> ancestor_state_manager \<Rightarrow> reputation_scores \<times> round \<times> quorum_round list \<Rightarrow>
     ancestor_state_manager option" where
  "asm_step cx m (scores, clock_round, rounds) =
     update_all_ancestors_state cx clock_round (set_propagation_scores m scores) rounds"

text \<open>
  C25: over any history with one score and one quorum round per authority, the manager never
  panics, the excluded stake it tracks is the stake of the excluded authorities, and that stake
  stays within the exclusion threshold.
\<close>

theorem excluded_stake_bounded:
  assumes "committee_ok (cx_committee cx)"
    and "\<forall>(scores, clk, rounds) \<in> set steps.
           length (rs_scores_per_authority scores) = committee_size (cx_committee cx) \<and>
           length rounds = committee_size (cx_committee cx)"
  shows "\<exists>m. foldM (asm_step cx) (asm_new cx) steps = Some m \<and>
     asm_total_excluded_stake m = weight (cx_committee cx)
       {i. i < committee_size (cx_committee cx) \<and> get_ancestor_states m ! i \<noteq> AInclude} \<and>
     asm_total_excluded_stake m \<le> asm_excluded_nodes_stake_threshold (asm_new cx)"
proof -
  let ?I = "\<lambda>m. asm_inv cx m \<and>
     asm_excluded_nodes_stake_threshold m = asm_excluded_nodes_stake_threshold (asm_new cx)"
  have "\<exists>m. foldM (asm_step cx) (asm_new cx) steps = Some m \<and> ?I m"
  proof (rule foldM_total)
    show "?I (asm_new cx)" by (simp add: asm_inv_new)
  next
    fix m x assume x: "x \<in> set steps" and I: "?I m"
    obtain scores clk rounds where eq: "x = (scores, clk, rounds)" by (cases x)
    let ?m = "set_propagation_scores m scores"
    have inv: "asm_inv cx ?m" using I by (simp add: asm_inv_set_scores)
    have sel: "rs_scores_per_authority (asm_propagation_scores ?m) = rs_scores_per_authority scores"
      "asm_excluded_nodes_stake_threshold ?m = asm_excluded_nodes_stake_threshold m"
      by (simp_all add: set_propagation_scores_def)
    have "length (rs_scores_per_authority scores) = committee_size (cx_committee cx)"
      "length rounds = committee_size (cx_committee cx)"
      using assms(2) x eq by auto
    with update_all_total [OF assms(1) inv, of rounds clk] sel
    obtain m' where "update_all_ancestors_state cx clk ?m rounds = Some m'" "asm_inv cx m'"
      "asm_excluded_nodes_stake_threshold m' = asm_excluded_nodes_stake_threshold m"
      by auto
    with eq I show "\<exists>m'. asm_step cx m x = Some m' \<and> ?I m'" by simp
  qed
  then obtain m where m: "foldM (asm_step cx) (asm_new cx) steps = Some m" "?I m" by blast
  have "excluded m = {i. i < committee_size (cx_committee cx) \<and> get_ancestor_states m ! i \<noteq> AInclude}"
    using m(2) by (intro excluded_eq) (simp add: asm_inv_def)
  moreover have "asm_total_excluded_stake m = weight (cx_committee cx) (excluded m)"
    "asm_total_excluded_stake m \<le> asm_excluded_nodes_stake_threshold (asm_new cx)"
    using m(2) by (auto simp: asm_inv_def)
  ultimately show ?thesis using m(1) by metis
qed

definition example_scores :: reputation_scores where
  "example_scores = reputation_scores_new (CommitRange 1 300) [50, 40, 1, 60]"

text \<open>A committee with uneven stakes: the third authority can be excluded.\<close>

definition uneven_committee :: committee where
  "uneven_committee = \<lparr>cm_epoch = 0, cm_total_stake = 40, cm_quorum_threshold = 27, cm_validity_threshold = 14,
     cm_authorities = map example_authority [10, 10, 5, 15]\<rparr>"

definition uneven_context :: consensus_context where
  "uneven_context = example_context\<lparr>cx_committee := uneven_committee\<rparr>"

lemma uneven_committee_ok: "committee_ok (cx_committee uneven_context)"
proof -
  have "committee_new 0 (map example_authority [10, 10, 5, 15]) = Some uneven_committee"
    by (simp add: committee_new_def uneven_committee_def example_authority_def u32_max_def wrap64_def)
  from committee_new_ok [OF this] show ?thesis by (simp add: uneven_context_def example_authority_def)
qed

lemma uneven_size: "committee_size (cx_committee uneven_context) = 4"
  by code_simp

definition example_history :: "(reputation_scores \<times> round \<times> quorum_round list) list" where
  "example_history = [(example_scores, 1, [(1, 1), (1, 1), (0, 0), (1, 1)])]"

lemma example_history_run:
  "map_option (\<lambda>m. (get_ancestor_states m ! 2, ai_lock_until_round (asm_state_map m ! 2), rs_scores_per_authority (asm_propagation_scores m)))
     (foldM (asm_step uneven_context) (asm_new uneven_context) example_history) = Some (AExclude 1, 451, [50, 40, 1, 60])"
  by code_simp

theorem excluded_stake_bounded_witness:
  "\<exists>m. foldM (asm_step uneven_context) (asm_new uneven_context) example_history = Some m \<and> get_ancestor_states m ! 2 = AExclude 1 \<and>
     0 < asm_total_excluded_stake m \<and> asm_total_excluded_stake m \<le> asm_excluded_nodes_stake_threshold (asm_new uneven_context)"
proof -
  have "\<forall>(scores, clk, rounds) \<in> set example_history. length (rs_scores_per_authority scores) = committee_size (cx_committee uneven_context) \<and>
      length rounds = committee_size (cx_committee uneven_context)"
    by (simp add: example_history_def example_scores_def reputation_scores_new_def uneven_size)
  from excluded_stake_bounded [OF uneven_committee_ok this] obtain m where m: "foldM (asm_step uneven_context) (asm_new uneven_context) example_history = Some m"
    "asm_total_excluded_stake m = weight (cx_committee uneven_context) {i. i < committee_size (cx_committee uneven_context) \<and> get_ancestor_states m ! i \<noteq> AInclude}"
    "asm_total_excluded_stake m \<le> asm_excluded_nodes_stake_threshold (asm_new uneven_context)" by blast
  have out: "get_ancestor_states m ! 2 = AExclude 1" using example_history_run m(1) by simp
  have "weight (cx_committee uneven_context) {2} \<le> asm_total_excluded_stake m"
    unfolding m(2) using out by (intro weight_mono) (simp add: uneven_size)
  moreover have "0 < weight (cx_committee uneven_context) {2}" by (simp add: weight_def authority_weight_def uneven_context_def uneven_committee_def committee_size_def example_authority_def)
  ultimately show ?thesis using m(1,3) out by auto
qed

text \<open>
  C26: an update keeps the include or exclude state of every authority that is locked at the clock
  round of the update.
\<close>

theorem locked_states_kept:
  assumes "committee_ok (cx_committee cx)" and "asm_inv cx m"
    and "length (rs_scores_per_authority (asm_propagation_scores m)) \<le> committee_size (cx_committee cx)"
    and "length (rs_scores_per_authority (asm_propagation_scores m)) \<le> length rounds"
    and "i < committee_size (cx_committee cx)" and "is_locked (asm_state_map m ! i) clk"
  shows "\<exists>m'. update_all_ancestors_state cx clk m rounds = Some m' \<and>
     (get_ancestor_states m' ! i = AInclude \<longleftrightarrow> get_ancestor_states m ! i = AInclude)"
proof -
  obtain m' where m': "update_all_ancestors_state cx clk m rounds = Some m'" "asm_inv cx m'"
    "i \<in> excluded m' \<longleftrightarrow> i \<in> excluded m"
    using update_all_total [OF assms(1-4)] assms(5,6) by blast
  have "excluded m = {i. i < committee_size (cx_committee cx) \<and> get_ancestor_states m ! i \<noteq> AInclude}"
    "excluded m' = {i. i < committee_size (cx_committee cx) \<and> get_ancestor_states m' ! i \<noteq> AInclude}"
    using assms(2) m'(2) by (simp_all add: excluded_eq asm_inv_def)
  with m' assms(5) show ?thesis by blast
qed

theorem locked_states_kept_witness:
  "\<exists>m m'. foldM (asm_step uneven_context) (asm_new uneven_context) example_history = Some m \<and>
     update_all_ancestors_state uneven_context 400 m [(9, 9), (9, 9), (9, 9), (9, 9)] = Some m' \<and> get_ancestor_states m' ! 2 \<noteq> AInclude"
proof -
  obtain m where run: "foldM (asm_step uneven_context) (asm_new uneven_context) example_history = Some m"
    and m: "get_ancestor_states m ! 2 = AExclude 1" "ai_lock_until_round (asm_state_map m ! 2) = 451"
      "rs_scores_per_authority (asm_propagation_scores m) = [50, 40, 1, 60]"
    using example_history_run by auto
  have "asm_inv uneven_context m"
  proof -
    let ?m = "set_propagation_scores (asm_new uneven_context) example_scores"
    have len: "length (rs_scores_per_authority (asm_propagation_scores ?m)) = 4"
      by (simp add: set_propagation_scores_def example_scores_def reputation_scores_new_def)
    have "asm_inv uneven_context ?m" by (intro asm_inv_set_scores asm_inv_new)
    from update_all_total [OF uneven_committee_ok this, of "[(1, 1), (1, 1), (0, 0), (1, 1)]" 1] len run
    show ?thesis by (auto simp: example_history_def uneven_size)
  qed
  from locked_states_kept [OF uneven_committee_ok this, of "[(9, 9), (9, 9), (9, 9), (9, 9)]" 2 400] m
  obtain m' where "update_all_ancestors_state uneven_context 400 m [(9, 9), (9, 9), (9, 9), (9, 9)] = Some m'" "get_ancestor_states m' ! 2 \<noteq> AInclude"
    by (auto simp: uneven_size is_locked_def)
  with run show ?thesis by blast
qed

end
