(* ===== verification/Block_Verifier.thy ===== *)
theory Block_Verifier
  imports Commits
begin

text \<open>
  Signing and verifying blocks: the signature functions of \<open>consensus/core/src/block.rs\<close> and
  \<open>SignedBlockVerifier\<close> of \<open>consensus/core/src/block_verifier.rs\<close>. The lemmas show that verification
  never panics and accepts exactly the blocks a declarative validity predicate describes, and that
  a signed block verifies under the key it was signed with.
\<close>

section \<open>Signatures of blocks\<close>

definition compute_inner_block_digest :: "crypto \<Rightarrow> block \<Rightarrow> consensus_error + digest" where
  "compute_inner_block_digest C b =
     result_bind (map_err SerializationFailure (cr_bcs_block C b)) (\<lambda>bs. Inr (cr_hash C bs))"

definition compute_block_signature :: "crypto \<Rightarrow> block \<Rightarrow> bytes \<Rightarrow> consensus_error + bytes" where
  "compute_block_signature C b keypair =
     result_bind (compute_inner_block_digest C b) (\<lambda>digest.
     result_bind (map_err SerializationFailure (cr_bcs_intent C digest)) (\<lambda>message.
     Inr (cr_sign C keypair message)))"

definition verify_block_signature :: "crypto \<Rightarrow> block \<Rightarrow> bytes \<Rightarrow> bytes \<Rightarrow> consensus_error + unit" where
  "verify_block_signature C b signature pubkey =
     result_bind (compute_inner_block_digest C b) (\<lambda>digest.
     result_bind (map_err SerializationFailure (cr_bcs_intent C digest)) (\<lambda>message.
     result_bind (map_err MalformedSignature (cr_from_bytes C signature)) (\<lambda>sig.
     map_err SignatureVerificationFailure (cr_verify C pubkey message sig))))"

definition signed_block_new :: "crypto \<Rightarrow> block \<Rightarrow> bytes \<Rightarrow> consensus_error + signed_block" where
  "signed_block_new C b keypair =
     result_bind (compute_block_signature C b keypair) (\<lambda>signature.
     Inr \<lparr>sb_inner = b, sb_signature = signature\<rparr>)"

definition verify_signature ::
  "crypto \<Rightarrow> consensus_context \<Rightarrow> signed_block \<Rightarrow> (consensus_error + unit) option" where
  "verify_signature C cx sb = (
     let b = sb_inner sb; c = cx_committee cx in
     if \<not> is_valid_index c (block_author b)
     then Some (Inl (InvalidAuthorityIndex (block_author b) (committee_size c - 1)))
     else do {
       a \<leftarrow> committee_authority c (block_author b);
       Some (verify_block_signature C b (sb_signature sb) (auth_protocol_key a))
     })"

section \<open>The verifier\<close>

text \<open>
  The transaction verifier is a trait object of the application: its two methods are the fields
  \<open>sv_verify_batch\<close> and \<open>sv_verify_and_vote_batch\<close>.
\<close>

record signed_block_verifier =
  sv_context :: consensus_context
  sv_genesis :: "block_ref fset"
  sv_verify_batch :: "bytes list \<Rightarrow> string + unit"
  sv_verify_and_vote_batch :: "bytes list \<Rightarrow> string + transaction_index list"

definition signed_block_verifier_new ::
  "crypto \<Rightarrow> consensus_context \<Rightarrow> (bytes list \<Rightarrow> string + unit) \<Rightarrow>
     (bytes list \<Rightarrow> string + transaction_index list) \<Rightarrow> signed_block_verifier option" where
  "signed_block_verifier_new C cx vb vvb = do {
     gs \<leftarrow> genesis_blocks C cx;
     Some \<lparr>sv_context = cx, sv_genesis = fset_of_list (map vb_reference gs),
       sv_verify_batch = vb, sv_verify_and_vote_batch = vvb\<rparr>
   }"

text \<open>The loop over the ancestors: position, authorities seen so far, stake of the parents.\<close>

fun verify_ancestors ::
  "committee \<Rightarrow> block_ref fset \<Rightarrow> block \<Rightarrow> nat \<Rightarrow> bool list \<Rightarrow> stake \<Rightarrow> block_ref list \<Rightarrow>
     (consensus_error + stake) option" where
  "verify_ancestors c genesis b i seen parent_stakes [] = Some (Inr parent_stakes)"
| "verify_ancestors c genesis b i seen parent_stakes (ancestor # ancestors) =
     (if \<not> is_valid_index c (br_author ancestor)
      then Some (Inl (InvalidAuthorityIndex (br_author ancestor) (committee_size c - 1)))
      else if i = 0 \<and> br_author ancestor \<noteq> block_author b \<or> i > 0 \<and> br_author ancestor = block_author b
      then Some (Inl (InvalidAncestorPosition (block_author b) (br_author ancestor) i))
      else if br_round ancestor \<ge> block_round b
      then Some (Inl (InvalidAncestorRound (br_round ancestor) (block_round b)))
      else if br_round ancestor = GENESIS_ROUND \<and> ancestor |\<notin>| genesis
      then Some (Inl (InvalidGenesisAncestor ancestor))
      else do {
        dup \<leftarrow> vec_get seen (br_author ancestor);
        if dup then Some (Inl (DuplicatedAncestorsAuthority (br_author ancestor)))
        else do {
          seen' \<leftarrow> vec_set seen (br_author ancestor) True;
          assert_that (block_round b \<ge> 1);
          parent_stakes' \<leftarrow>
            (if br_round ancestor = block_round b - 1
             then do {
               s \<leftarrow> committee_stake c (br_author ancestor);
               Some (wrap64 (parent_stakes + s))
             }
             else Some parent_stakes);
          verify_ancestors c genesis b (i + 1) seen' parent_stakes' ancestors
        }
      })"

definition check_transactions :: "consensus_context \<Rightarrow> bytes list \<Rightarrow> consensus_error + unit" where
  "check_transactions cx batch = (
     let pc = cx_protocol_config cx;
         max_size = pc_max_transaction_size_bytes pc;
         max_num = pc_max_num_transactions_in_block pc;
         max_total = pc_max_transactions_in_block_bytes pc in
     case find (\<lambda>t. length t > max_size \<and> max_size > 0) batch of
       Some t \<Rightarrow> Inl (TransactionTooLarge (length t) max_size)
     | None \<Rightarrow>
         if length batch > max_num \<and> max_num > 0
         then Inl (TooManyTransactions (length batch) max_num)
         else if sum_list (map length batch) > max_total \<and> max_total > 0
         then Inl (TooManyTransactionBytes (length batch) max_total)
         else Inr ())"

definition verify_block ::
  "crypto \<Rightarrow> signed_block_verifier \<Rightarrow> signed_block \<Rightarrow> (consensus_error + unit) option" where
  "verify_block C V sb = (
     let cx = sv_context V; c = cx_committee cx; b = sb_inner sb in
     if block_epoch b \<noteq> cm_epoch c then Some (Inl (WrongEpoch (cm_epoch c) (block_epoch b)))
     else if block_round b = 0 then Some (Inl UnexpectedGenesisBlock)
     else if \<not> is_valid_index c (block_author b)
     then Some (Inl (InvalidAuthorityIndex (block_author b) (committee_size c - 1)))
     else do {
       verified \<leftarrow> verify_signature C cx sb;
       case verified of
         Inl e \<Rightarrow> Some (Inl e)
       | Inr _ \<Rightarrow>
           if length (block_ancestors b) > committee_size c
           then Some (Inl (TooManyAncestors (length (block_ancestors b)) (committee_size c)))
           else if block_ancestors b = []
           then Some (Inl (InsufficientParentStakes 0 (cm_quorum_threshold c)))
           else do {
             checked \<leftarrow> verify_ancestors c (sv_genesis V) b 0 (replicate (committee_size c) False) 0
               (block_ancestors b);
             case checked of
               Inl e \<Rightarrow> Some (Inl e)
             | Inr parent_stakes \<Rightarrow>
                 if \<not> reached_quorum c parent_stakes
                 then Some (Inl (InsufficientParentStakes parent_stakes (cm_quorum_threshold c)))
                 else Some (check_transactions cx (map tx_data (block_transactions b)))
           }
     })"

definition verify_and_vote ::
  "crypto \<Rightarrow> signed_block_verifier \<Rightarrow> signed_block \<Rightarrow>
     (consensus_error + transaction_index list) option" where
  "verify_and_vote C V sb = do {
     verified \<leftarrow> verify_block C V sb;
     Some (result_bind verified (\<lambda>_.
       if pc_mysticeti_fastpath (cx_protocol_config (sv_context V))
       then map_err InvalidTransaction
              (sv_verify_and_vote_batch V (block_transactions_data (sb_inner sb)))
       else result_bind
              (map_err InvalidTransaction (sv_verify_batch V (block_transactions_data (sb_inner sb))))
              (\<lambda>_. Inr [])))
   }"

section \<open>What a valid block is\<close>

definition ancestors_valid :: "committee \<Rightarrow> block_ref fset \<Rightarrow> block \<Rightarrow> bool" where
  "ancestors_valid c genesis b \<longleftrightarrow>
     block_ancestors b \<noteq> [] \<and>
     br_author (hd (block_ancestors b)) = block_author b \<and>
     distinct (map br_author (block_ancestors b)) \<and>
     (\<forall>a \<in> set (block_ancestors b).
        br_author a < committee_size c \<and> br_round a < block_round b \<and>
        (br_round a = 0 \<longrightarrow> a |\<in>| genesis)) \<and>
     reached_quorum c
       (weight c {br_author a |a. a \<in> set (block_ancestors b) \<and> br_round a + 1 = block_round b})"

definition transactions_valid :: "protocol_config \<Rightarrow> block \<Rightarrow> bool" where
  "transactions_valid pc b \<longleftrightarrow> (
     let sizes = map (\<lambda>t. length (tx_data t)) (block_transactions b) in
     (pc_max_transaction_size_bytes pc > 0 \<longrightarrow> (\<forall>s \<in> set sizes. s \<le> pc_max_transaction_size_bytes pc)) \<and>
     (pc_max_num_transactions_in_block pc > 0 \<longrightarrow> length sizes \<le> pc_max_num_transactions_in_block pc) \<and>
     (pc_max_transactions_in_block_bytes pc > 0 \<longrightarrow>
        sum_list sizes \<le> pc_max_transactions_in_block_bytes pc))"

definition signed_block_valid :: "crypto \<Rightarrow> signed_block_verifier \<Rightarrow> signed_block \<Rightarrow> bool" where
  "signed_block_valid C V sb \<longleftrightarrow> (
     let cx = sv_context V; c = cx_committee cx; b = sb_inner sb in
     block_epoch b = cm_epoch c \<and> 0 < block_round b \<and> block_author b < committee_size c \<and>
     verify_block_signature C b (sb_signature sb) (auth_protocol_key (cm_authorities c ! block_author b))
       = Inr () \<and>
     ancestors_valid c (sv_genesis V) b \<and> transactions_valid (cx_protocol_config cx) b)"

section \<open>Lemmas\<close>

lemma check_transactions_Inr:
  "check_transactions cx batch = Inr () \<longleftrightarrow> (
     let pc = cx_protocol_config cx in
     \<not> (\<exists>t \<in> set batch. length t > pc_max_transaction_size_bytes pc \<and> pc_max_transaction_size_bytes pc > 0) \<and>
     \<not> (length batch > pc_max_num_transactions_in_block pc \<and> pc_max_num_transactions_in_block pc > 0) \<and>
     \<not> (sum_list (map length batch) > pc_max_transactions_in_block_bytes pc \<and>
        pc_max_transactions_in_block_bytes pc > 0))"
  unfolding check_transactions_def Let_def find_None_iff [symmetric] Bex_def
  by (simp split: option.split)

lemma check_transactions_iff:
  "check_transactions cx (map tx_data (block_transactions b)) = Inr () \<longleftrightarrow>
     transactions_valid (cx_protocol_config cx) b"
  unfolding check_transactions_Inr transactions_valid_def Let_def
  by (auto simp: not_less comp_def)

lemma verify_signature_eq [panic_simps]:
  assumes "block_author (sb_inner sb) < committee_size (cx_committee cx)"
  shows "verify_signature C cx sb = Some (verify_block_signature C (sb_inner sb) (sb_signature sb)
     (auth_protocol_key (cm_authorities (cx_committee cx) ! block_author (sb_inner sb))))"
  using assms
  by (simp add: verify_signature_def Let_def is_valid_index_def committee_authority_def committee_size_def)

text \<open>What the ancestor loop checks of the ancestors from position \<open>i\<close> on.\<close>

definition suffix_valid ::
  "committee \<Rightarrow> block_ref fset \<Rightarrow> block \<Rightarrow> nat \<Rightarrow> bool list \<Rightarrow> block_ref list \<Rightarrow> bool" where
  "suffix_valid c genesis b i seen as \<longleftrightarrow>
     (\<forall>a \<in> set as. br_author a < committee_size c \<and> br_round a < block_round b \<and>
        (br_round a = 0 \<longrightarrow> a |\<in>| genesis) \<and> \<not> seen ! br_author a) \<and>
     (\<forall>k < length as. i + k = 0 \<longleftrightarrow> br_author (as ! k) = block_author b) \<and>
     distinct (map br_author as)"

lemma nth_set_True: "i < length xs \<Longrightarrow> xs[i := True] ! j \<longleftrightarrow> i = j \<or> xs ! j"
  by (simp add: nth_list_update)

lemma suffix_valid_Cons:
  assumes "length seen = committee_size c"
  shows "suffix_valid c genesis b i seen (a # as) \<longleftrightarrow>
     br_author a < committee_size c \<and> br_round a < block_round b \<and> (br_round a = 0 \<longrightarrow> a |\<in>| genesis) \<and>
     \<not> seen ! br_author a \<and> (i = 0 \<longleftrightarrow> br_author a = block_author b) \<and>
     suffix_valid c genesis b (i + 1) (seen[br_author a := True]) as"
  using assms
  by (simp add: suffix_valid_def nth_set_True All_less_Suc2 image_iff cong: conj_cong) blast

definition parents_of :: "block \<Rightarrow> block_ref list \<Rightarrow> authority_index set" where
  "parents_of b as = {br_author a |a. a \<in> set as \<and> br_round a + 1 = block_round b}"

lemma parents_of_Cons:
  "parents_of b (a # as) =
     (if br_round a + 1 = block_round b then insert (br_author a) (parents_of b as) else parents_of b as)"
  by (auto simp: parents_of_def)

lemma verify_ancestors_iff:
  assumes "committee_ok c" and "length seen = committee_size c" and "0 < block_round b"
    and "\<forall>p \<in> P. p < committee_size c \<and> seen ! p" and "s = weight c P"
  shows "verify_ancestors c genesis b i seen s as = Some (Inr s') \<longleftrightarrow>
     suffix_valid c genesis b i seen as \<and> s' = weight c (P \<union> parents_of b as)"
  using assms
proof (induction as arbitrary: i seen s P)
  case Nil
  then show ?case by (auto simp: suffix_valid_def parents_of_def)
next
  case (Cons a as)
  let ?seen = "seen[br_author a := True]"
  let ?P = "if br_round a = block_round b - 1 then insert (br_author a) P else P"
  let ?ok = "br_author a < committee_size c \<and> br_round a < block_round b \<and>
     (br_round a = 0 \<longrightarrow> a |\<in>| genesis) \<and> \<not> seen ! br_author a \<and> (i = 0 \<longleftrightarrow> br_author a = block_author b)"
  show ?case
  proof (cases ?ok)
    case True
    have "wrap64 (weight c P + authority_weight c (br_author a)) = weight c (insert (br_author a) P)"
      using True Cons.prems weight_insert [of "br_author a" P c]
        weight_le_total [OF Cons.prems(1), of "insert (br_author a) P"]
      by (subst wrap64_id) (auto simp: committee_ok_def)
    then have step: "verify_ancestors c genesis b i seen s (a # as) =
        verify_ancestors c genesis b (i + 1) ?seen (weight c ?P) as"
      using True Cons.prems
      by (auto simp: is_valid_index_def GENESIS_ROUND_def committee_stake_eq)
    have "?P \<union> parents_of b as = P \<union> parents_of b (a # as)"
      using Cons.prems(3) by (auto simp: parents_of_Cons)
    moreover have "verify_ancestors c genesis b (i + 1) ?seen (weight c ?P) as = Some (Inr s') \<longleftrightarrow>
        suffix_valid c genesis b (i + 1) ?seen as \<and> s' = weight c (?P \<union> parents_of b as)"
      by (rule Cons.IH) (use True Cons.prems in \<open>auto simp: nth_list_update\<close>)
    ultimately show ?thesis
      using True Cons.prems(2) by (simp only: step suffix_valid_Cons) blast
  next
    case False
    then show ?thesis
      using Cons.prems(2)
      by (auto simp: suffix_valid_Cons is_valid_index_def GENESIS_ROUND_def vec_get_def split: if_splits)
  qed
qed

lemma suffix_valid_all:
  assumes "block_ancestors b \<noteq> []"
  shows "suffix_valid c genesis b 0 (replicate (committee_size c) False) (block_ancestors b) \<longleftrightarrow>
     br_author (hd (block_ancestors b)) = block_author b \<and> distinct (map br_author (block_ancestors b)) \<and>
     (\<forall>a \<in> set (block_ancestors b). br_author a < committee_size c \<and> br_round a < block_round b \<and>
        (br_round a = 0 \<longrightarrow> a |\<in>| genesis))"
proof -
  obtain a as where eq: "block_ancestors b = a # as" using assms by (cases "block_ancestors b") auto
  have "(\<forall>k < length (a # as). 0 + k = 0 \<longleftrightarrow> br_author ((a # as) ! k) = block_author b) \<longleftrightarrow>
      br_author a = block_author b \<and> block_author b \<notin> br_author ` set as"
    by (simp add: All_less_Suc2 image_iff all_set_conv_all_nth [symmetric] Bex_def) (metis in_set_conv_nth)
  then show ?thesis by (auto simp: eq suffix_valid_def)
qed

lemma distinct_authors_length:
  assumes "distinct (map br_author as)" and "\<forall>a \<in> set as. br_author a < n"
  shows "length as \<le> n"
proof -
  have "length as = card (br_author ` set as)" using assms(1) distinct_card by fastforce
  also have "\<dots> \<le> card {..<n}" by (rule card_mono) (use assms(2) in auto)
  finally show ?thesis by simp
qed

lemma verify_ancestors_total:
  assumes "length seen = committee_size c" and "0 < block_round b"
  shows "verify_ancestors c genesis b i seen s as \<noteq> None"
  using assms
proof (induction as arbitrary: i seen s)
  case (Cons a as)
  then show ?case
    by (auto simp: is_valid_index_def committee_stake_eq simp del: not_None_eq)
qed simp

text \<open>The ancestor loop as a whole, for a block with ancestors and a positive round.\<close>

lemma verify_ancestors_block:
  assumes "committee_ok c" and "0 < block_round b" and "block_ancestors b \<noteq> []"
  shows "(\<exists>s. verify_ancestors c genesis b 0 (replicate (committee_size c) False) 0 (block_ancestors b)
       = Some (Inr s) \<and> reached_quorum c s) \<longleftrightarrow> ancestors_valid c genesis b"
  using verify_ancestors_iff [of c "replicate (committee_size c) False" b "{}" 0 genesis 0
      "block_ancestors b"] assms suffix_valid_all [OF assms(3), of c genesis]
  unfolding ancestors_valid_def parents_of_def by auto

section \<open>Properties\<close>

text \<open>
  C19: \<open>verify_block\<close> accepts exactly the valid blocks: right epoch, positive round, a signature under
  the author's key, at most one ancestor per authority, the author's own first, all of lower
  rounds, round-zero ancestors among the genesis blocks, parents of the previous round holding a
  quorum, and transactions within the configured limits.
\<close>

theorem verify_block_iff:
  assumes "committee_ok (cx_committee (sv_context V))"
  shows "verify_block C V sb = Some (Inr ()) \<longleftrightarrow> signed_block_valid C V sb"
proof -
  let ?c = "cx_committee (sv_context V)" and ?b = "sb_inner sb"
  show ?thesis
  proof (cases "block_epoch ?b = cm_epoch ?c \<and> 0 < block_round ?b \<and> block_author ?b < committee_size ?c \<and>
      block_ancestors ?b \<noteq> []")
    case True
    have "ancestors_valid ?c (sv_genesis V) ?b \<Longrightarrow> length (block_ancestors ?b) \<le> committee_size ?c"
      by (rule distinct_authors_length) (auto simp: ancestors_valid_def)
    moreover have "ancestors_valid ?c (sv_genesis V) ?b \<longleftrightarrow>
        (\<exists>s. verify_ancestors ?c (sv_genesis V) ?b 0 (replicate (committee_size ?c) False) 0
          (block_ancestors ?b) = Some (Inr s) \<and> reached_quorum ?c s)"
      using verify_ancestors_block [OF assms] True by simp
    ultimately show ?thesis
      using True
      by (auto simp: verify_block_def signed_block_valid_def Let_def verify_signature_eq is_valid_index_def
          check_transactions_iff elim!: bind_SomeE split: sum.splits if_splits)
  next
    case False
    then show ?thesis
      by (auto simp: verify_block_def signed_block_valid_def Let_def verify_signature_eq is_valid_index_def
          ancestors_valid_def split: sum.splits if_splits)
  qed
qed

definition example_verifier :: signed_block_verifier where
  "example_verifier = \<lparr>sv_context = example_context,
     sv_genesis = {|BlockRef 0 0 0, BlockRef 0 1 1, BlockRef 0 2 2, BlockRef 0 3 3|},
     sv_verify_batch = (\<lambda>_. Inr ()), sv_verify_and_vote_batch = (\<lambda>_. Inr [])\<rparr>"

definition example_signed_block :: signed_block where
  "example_signed_block = \<lparr>sb_inner = BlockV1
     \<lparr>b1_epoch = 0, b1_round = 1, b1_author = 1, b1_timestamp_ms = 5,
      b1_ancestors = [BlockRef 0 1 1, BlockRef 0 0 0, BlockRef 0 3 3], b1_transactions = [],
      b1_commit_votes = [], b1_misbehavior_reports = []\<rparr>, sb_signature = [1]\<rparr>"

theorem verify_block_iff_witness:
  "committee_ok (cx_committee (sv_context example_verifier)) \<and>
   verify_block example_crypto example_verifier example_signed_block = Some (Inr ()) \<and>
   signed_block_valid example_crypto example_verifier example_signed_block"
proof -
  have "committee_ok (cx_committee (sv_context example_verifier))"
    by (simp add: example_verifier_def)
  moreover have "verify_block example_crypto example_verifier example_signed_block = Some (Inr ())"
    by code_simp
  ultimately show ?thesis using verify_block_iff by blast
qed

text \<open>\<open>verify_block\<close> returns a result on every block, valid or not: none of its checked accesses can panic.\<close>

theorem verify_block_never_panics: "\<exists>result. verify_block C V sb = Some result"
proof (cases "0 < block_round (sb_inner sb)")
  case True
  let ?c = "cx_committee (sv_context V)" and ?b = "sb_inner sb"
  obtain r where "verify_ancestors ?c (sv_genesis V) ?b 0 (replicate (committee_size ?c) False) 0
      (block_ancestors ?b) = Some r"
    using verify_ancestors_total [OF _ True, of "replicate (committee_size ?c) False" ?c] by fastforce
  then show ?thesis
    by (cases r) (auto simp: verify_block_def Let_def verify_signature_eq is_valid_index_def split: sum.splits)
next
  case False
  then show ?thesis by (simp add: verify_block_def Let_def)
qed

text \<open>
  C20: a block signed with \<open>SignedBlock::new\<close> passes \<open>verify_signature\<close> when the committee holds the
  public key of the signing key pair, for every signature scheme whose own signatures parse and
  verify.
\<close>

theorem sign_then_verify:
  assumes "\<And>message. cr_from_bytes C (cr_sign C keypair message) = Inr (cr_sign C keypair message)"
    and "\<And>message. cr_verify C pubkey message (cr_sign C keypair message) = Inr ()"
    and "signed_block_new C b keypair = Inr sb"
    and "committee_authority (cx_committee cx) (block_author b) = Some a"
    and "auth_protocol_key a = pubkey"
  shows "sb_inner sb = b \<and> verify_signature C cx sb = Some (Inr ())"
proof -
  from assms(3) obtain signature where sig: "compute_block_signature C b keypair = Inr signature"
    and sb: "sb = \<lparr>sb_inner = b, sb_signature = signature\<rparr>"
    by (auto simp: signed_block_new_def result_bind_eq_Inr)
  have "verify_block_signature C b signature pubkey = Inr ()"
    using sig assms(1,2)
    by (auto simp: compute_block_signature_def verify_block_signature_def result_bind_eq_Inr)
  with sb assms(4,5) show ?thesis
    by (auto simp: verify_signature_def is_valid_index_def committee_authority_def committee_size_def
        vec_get_eq_Some)
qed

theorem sign_then_verify_witness:
  "\<exists>sb. signed_block_new example_crypto (sb_inner example_signed_block) [] = Inr sb \<and>
     verify_signature example_crypto example_context sb = Some (Inr ())"
proof -
  obtain sb where sb: "signed_block_new example_crypto (sb_inner example_signed_block) [] = Inr sb"
    by (simp add: signed_block_new_def compute_block_signature_def compute_inner_block_digest_def
        example_crypto_def)
  have "committee_authority (cx_committee example_context) (block_author (sb_inner example_signed_block)) =
      Some (example_authority 1)"
    by (simp add: committee_authority_def example_signed_block_def example_authorities_def vec_get_def)
  moreover have "auth_protocol_key (example_authority 1) = []"
    by (simp add: example_authority_def)
  moreover have "cr_from_bytes example_crypto (cr_sign example_crypto [] m) = Inr (cr_sign example_crypto [] m)"
    and "cr_verify example_crypto [] m (cr_sign example_crypto [] m) = Inr ()" for m
    by (simp_all add: example_crypto_def)
  ultimately show ?thesis
    using sign_then_verify [of example_crypto "[]" "[]", OF _ _ sb] sb by blast
qed

end
