(* ===== verification/Store.thy ===== *)
theory Store
  imports Commits
begin

text \<open>
  The storage interface of \<open>consensus/core/src/storage/mod.rs\<close> and its in-memory implementation
  \<open>storage/mem_store.rs\<close>, with \<open>load_committed_subdag_from_store\<close> of \<open>commit.rs\<close>. The five tables are
  ordered maps and sets; a range between the extreme keys of a prefix is a filter on that prefix.
\<close>

section \<open>Ordered tables\<close>

definition last_key_value :: "('k::linorder, 'v) fmap \<Rightarrow> ('k \<times> 'v) option" where
  "last_key_value m = (let kvs = sorted_list_of_fmap m in if kvs = [] then None else Some (last kvs))"

text \<open>
  A \<open>VecDeque\<close> filled by \<open>push_front\<close> only, as a ring buffer: capacity, head and length. The buffer
  doubles when it is full, from a first capacity of four, and moves the part behind the head when
  it grows. \<open>as_slices().0\<close> is the part from the head to the end of the buffer.
\<close>

definition vecdeque_grow :: "nat \<times> nat \<times> nat \<Rightarrow> nat \<times> nat \<times> nat" where
  "vecdeque_grow = (\<lambda>(cap, head, len). (
     let cap' = max (2 * cap) 4; head_len = cap - head; tail_len = len - head_len in
     if head \<le> cap - len then (cap', head, len)
     else if head_len > tail_len \<and> cap' - cap \<ge> tail_len then (cap', head, len)
     else (cap', cap' - head_len, len)))"

definition vecdeque_push_front :: "nat \<times> nat \<times> nat \<Rightarrow> nat \<times> nat \<times> nat" where
  "vecdeque_push_front v = (
     let (cap, head, len) = (if snd (snd v) = fst v then vecdeque_grow v else v) in
     (cap, (head + cap - 1) mod cap, len + 1))"

definition first_slice_length :: "nat \<Rightarrow> nat" where
  "first_slice_length n = (
     let (cap, head, len) = (vecdeque_push_front ^^ n) (0, 0, 0) in min len (cap - head))"

section \<open>The in-memory store\<close>

record mem_store =
  ms_blocks :: "(round \<times> authority_index \<times> digest, verified_block) fmap"
  ms_digests_by_authorities :: "(authority_index \<times> round \<times> digest) fset"
  ms_commits :: "(commit_index \<times> digest, trusted_commit) fmap"
  ms_commit_votes :: "(commit_index \<times> digest \<times> block_ref) fset"
  ms_commit_info :: "(commit_index \<times> digest, commit_info) fmap"

record write_batch =
  wb_blocks :: "verified_block list"
  wb_commits :: "trusted_commit list"
  wb_commit_info :: "(commit_ref \<times> commit_info) list"

definition mem_store_new :: mem_store where
  "mem_store_new = \<lparr>ms_blocks = fmempty, ms_digests_by_authorities = {||}, ms_commits = fmempty,
     ms_commit_votes = {||}, ms_commit_info = fmempty\<rparr>"

definition block_key :: "block_ref \<Rightarrow> round \<times> authority_index \<times> digest" where
  "block_key r = (br_round r, br_author r, br_digest r)"

definition author_key :: "block_ref \<Rightarrow> authority_index \<times> round \<times> digest" where
  "author_key r = (br_author r, br_round r, br_digest r)"

definition ms_write_block :: "mem_store \<Rightarrow> verified_block \<Rightarrow> mem_store" where
  "ms_write_block ms b = (let r = vb_reference b in
     ms\<lparr>ms_blocks := fmupd (block_key r) b (ms_blocks ms),
        ms_digests_by_authorities := finsert (author_key r) (ms_digests_by_authorities ms),
        ms_commit_votes := ms_commit_votes ms |\<union>|
          fset_of_list (map (\<lambda>v. (cr_index v, cr_digest v, r)) (vb_commit_votes b))\<rparr>)"

definition ms_write :: "mem_store \<Rightarrow> write_batch \<Rightarrow> mem_store" where
  "ms_write ms wb = (
     let ms1 = foldl ms_write_block ms (wb_blocks wb);
         ms2 = foldl (\<lambda>ms c. ms\<lparr>ms_commits := fmupd (tc_index c, tc_digest c) c (ms_commits ms)\<rparr>) ms1 (wb_commits wb) in
     foldl (\<lambda>ms (cr, ci). ms\<lparr>ms_commit_info := fmupd (cr_index cr, cr_digest cr) ci (ms_commit_info ms)\<rparr>)
       ms2 (wb_commit_info wb))"

definition ms_read_blocks :: "mem_store \<Rightarrow> block_ref list \<Rightarrow> verified_block option list" where
  "ms_read_blocks ms refs = map (\<lambda>r. fmlookup (ms_blocks ms) (block_key r)) refs"

definition ms_contains_blocks :: "mem_store \<Rightarrow> block_ref list \<Rightarrow> bool list" where
  "ms_contains_blocks ms refs = map (\<lambda>r. block_key r |\<in>| fmdom (ms_blocks ms)) refs"

definition ms_scan_blocks_by_author ::
  "mem_store \<Rightarrow> authority_index \<Rightarrow> round \<Rightarrow> verified_block list option" where
  "ms_scan_blocks_by_author ms author start_round = (
     let keys = filter (\<lambda>(a, r, d). a = author \<and> start_round \<le> r)
           (sorted_list_of_fset (ms_digests_by_authorities ms));
         refs = map (\<lambda>(a, r, d). BlockRef r a d) keys in
     mapM id (ms_read_blocks ms refs))"

text \<open>
  The reverse scan takes \<open>num_of_rounds\<close> keys and pushes each to the front of the deque; only the
  first slice of the deque is read back, and the zip drops the references beyond it.
\<close>

definition ms_scan_last_blocks_by_author ::
  "mem_store \<Rightarrow> authority_index \<Rightarrow> nat \<Rightarrow> round option \<Rightarrow> verified_block list option" where
  "ms_scan_last_blocks_by_author ms author num_of_rounds before_round = (
     let keys = filter (\<lambda>(a, r, d). a = author \<and> (case before_round of Some before \<Rightarrow> r \<le> before | None \<Rightarrow> True))
           (sorted_list_of_fset (ms_digests_by_authorities ms));
         refs = rev (map (\<lambda>(a, r, d). BlockRef r a d) (take num_of_rounds (rev keys)));
         results = ms_read_blocks ms (take (first_slice_length (length refs)) refs) in
     mapM snd (zip refs results))"

definition ms_read_last_commit :: "mem_store \<Rightarrow> trusted_commit option" where
  "ms_read_last_commit ms = map_option snd (last_key_value (ms_commits ms))"

text \<open>
  A range with its start above its end holds no commits, as in the RocksDB store; the \<open>BTreeMap::range\<close> of the
  in-memory store panics there.
\<close>

definition ms_scan_commits :: "mem_store \<Rightarrow> commit_range \<Rightarrow> trusted_commit list" where
  "ms_scan_commits ms rng =
     map snd (filter (\<lambda>(k, c). (commit_range_start rng, DIGEST_MIN) \<le> k \<and> k \<le> (commit_range_end rng, DIGEST_MAX))
       (sorted_list_of_fmap (ms_commits ms)))"

definition ms_read_commit_votes :: "mem_store \<Rightarrow> commit_index \<Rightarrow> block_ref list" where
  "ms_read_commit_votes ms index =
     map (\<lambda>(_, _, r). r) (filter (\<lambda>(i, d, r). i = index) (sorted_list_of_fset (ms_commit_votes ms)))"

definition ms_read_last_commit_info :: "mem_store \<Rightarrow> (commit_ref \<times> commit_info) option" where
  "ms_read_last_commit_info ms = map_option (\<lambda>(k, ci). (CommitRef (fst k) (snd k), ci)) (last_key_value (ms_commit_info ms))"

section \<open>Recovering a committed sub-dag\<close>

definition load_committed_subdag_from_store ::
  "mem_store \<Rightarrow> trusted_commit \<Rightarrow> (authority_index \<times> nat) list \<Rightarrow> committed_sub_dag option" where
  "load_committed_subdag_from_store ms commit scores_desc = do {
     blocks \<leftarrow> mapM id (ms_read_blocks ms (tc_blocks commit));
     let leader_idxs = filter (\<lambda>i. vb_reference (blocks ! i) = tc_leader commit) [0..<length blocks];
     assert_that (leader_idxs \<noteq> []);
     leader_block \<leftarrow> vec_get blocks (last leader_idxs);
     let subdag = committed_sub_dag_new (vb_reference leader_block) blocks (tc_timestamp_ms commit) (tc_reference commit);
     Some (subdag\<lparr>sd_reputation_scores_desc := scores_desc\<rparr>)
   }"

section \<open>Lemmas\<close>

lemma find_SomeD: "find P xs = Some x \<Longrightarrow> x \<in> set xs \<and> P x"
  by (induction xs) (auto split: if_splits)

lemma block_key_inject [simp]: "block_key r = block_key r' \<longleftrightarrow> r = r'"
  by (cases r; cases r') (simp add: block_key_def)

lemma ms_write_block_blocks [simp]:
  "ms_blocks (ms_write_block ms b) = fmupd (block_key (vb_reference b)) b (ms_blocks ms)"
  by (simp add: ms_write_block_def Let_def)

lemma ms_write_block_digests [simp]:
  "ms_digests_by_authorities (ms_write_block ms b) =
     finsert (author_key (vb_reference b)) (ms_digests_by_authorities ms)"
  by (simp add: ms_write_block_def Let_def)

text \<open>What a store holds, as a function of references.\<close>

definition ms_lookup :: "mem_store \<Rightarrow> block_ref \<Rightarrow> verified_block option" where
  "ms_lookup ms r = fmlookup (ms_blocks ms) (block_key r)"

lemma ms_read_blocks_lookup: "ms_read_blocks ms refs = map (ms_lookup ms) refs"
  by (simp add: ms_read_blocks_def ms_lookup_def)

lemma ms_contains_blocks_lookup: "ms_contains_blocks ms refs = map (\<lambda>r. ms_lookup ms r \<noteq> None) refs"
  by (simp add: ms_contains_blocks_def ms_lookup_def fmlookup_dom_iff)

lemma ms_lookup_write_block:
  "ms_lookup (ms_write_block ms b) r = (if r = vb_reference b then Some b else ms_lookup ms r)"
  by (simp add: ms_lookup_def)

lemma ms_write_commit_info_frame:
  "ms_blocks (foldl (\<lambda>ms (cr, ci). ms\<lparr>ms_commit_info := f ms cr ci\<rparr>) ms xs) = ms_blocks ms"
  "ms_digests_by_authorities (foldl (\<lambda>ms (cr, ci). ms\<lparr>ms_commit_info := f ms cr ci\<rparr>) ms xs) =
     ms_digests_by_authorities ms"
  "ms_commits (foldl (\<lambda>ms (cr, ci). ms\<lparr>ms_commit_info := f ms cr ci\<rparr>) ms xs) = ms_commits ms"
  by (induction xs arbitrary: ms) (simp_all add: case_prod_beta)

lemma ms_write_commits_frame:
  "ms_blocks (foldl (\<lambda>ms c. ms\<lparr>ms_commits := g ms c\<rparr>) ms ys) = ms_blocks ms"
  "ms_digests_by_authorities (foldl (\<lambda>ms c. ms\<lparr>ms_commits := g ms c\<rparr>) ms ys) = ms_digests_by_authorities ms"
  by (induction ys arbitrary: ms) simp_all

lemma ms_write_blocks_frame: "ms_commits (foldl ms_write_block ms bs) = ms_commits ms"
  by (induction bs arbitrary: ms) (simp_all add: ms_write_block_def Let_def)

lemmas ms_write_frame = ms_write_commit_info_frame ms_write_commits_frame ms_write_blocks_frame

lemma ms_write_blocks_eq: "ms_blocks (ms_write ms wb) = ms_blocks (foldl ms_write_block ms (wb_blocks wb))"
  by (simp add: ms_write_def Let_def ms_write_frame)

lemma ms_write_digests_eq:
  "ms_digests_by_authorities (ms_write ms wb) = ms_digests_by_authorities (foldl ms_write_block ms (wb_blocks wb))"
  by (simp add: ms_write_def Let_def ms_write_frame)

lemma ms_lookup_write:
  "ms_lookup (ms_write ms wb) r =
     (case find (\<lambda>b. vb_reference b = r) (rev (wb_blocks wb)) of Some b \<Rightarrow> Some b | None \<Rightarrow> ms_lookup ms r)"
proof -
  have "ms_lookup (foldl ms_write_block ms bs) r =
      (case find (\<lambda>b. vb_reference b = r) (rev bs) of Some b \<Rightarrow> Some b | None \<Rightarrow> ms_lookup ms r)" for bs
    by (induction bs rule: rev_induct) (auto simp: ms_lookup_write_block)
  then show ?thesis by (simp add: ms_lookup_def ms_write_blocks_eq)
qed

text \<open>A store holds every block under its own reference and indexes it by its author.\<close>

definition ms_inv :: "mem_store \<Rightarrow> bool" where
  "ms_inv ms \<longleftrightarrow>
     (\<forall>r b. ms_lookup ms r = Some b \<longrightarrow> vb_reference b = r) \<and>
     (\<forall>r. author_key r |\<in>| ms_digests_by_authorities ms \<longleftrightarrow> ms_lookup ms r \<noteq> None)"

lemma ms_lookup_reference: "ms_inv ms \<Longrightarrow> ms_lookup ms r = Some b \<Longrightarrow> vb_reference b = r"
  by (simp add: ms_inv_def)

lemma author_key_inject [simp]: "author_key r = author_key r' \<longleftrightarrow> r = r'"
  by (cases r; cases r') (auto simp: author_key_def)

lemma ms_inv_new [wf_intros]: "ms_inv mem_store_new"
  by (simp add: ms_inv_def mem_store_new_def ms_lookup_def)

lemma ms_inv_write_block [wf_intros]: "ms_inv ms \<Longrightarrow> ms_inv (ms_write_block ms b)"
  by (auto simp: ms_inv_def ms_lookup_write_block split: if_splits)

lemma ms_inv_write_blocks: "ms_inv ms \<Longrightarrow> ms_inv (foldl ms_write_block ms bs)"
  by (induction bs arbitrary: ms) (auto intro: ms_inv_write_block)

lemma ms_inv_write [wf_intros]: "ms_inv ms \<Longrightarrow> ms_inv (ms_write ms wb)"
  using ms_inv_write_blocks [of ms "wb_blocks wb"]
  by (simp add: ms_inv_def ms_lookup_def ms_write_blocks_eq ms_write_digests_eq)

text \<open>The references a scan of an author visits, in ascending order.\<close>

definition author_refs :: "mem_store \<Rightarrow> authority_index \<Rightarrow> (round \<Rightarrow> bool) \<Rightarrow> block_ref list" where
  "author_refs ms author P = map (\<lambda>(a, r, d). BlockRef r a d)
     (filter (\<lambda>(a, r, d). a = author \<and> P r) (sorted_list_of_fset (ms_digests_by_authorities ms)))"

lemma set_author_refs:
  assumes "ms_inv ms"
  shows "set (author_refs ms author P) = {r. ms_lookup ms r \<noteq> None \<and> br_author r = author \<and> P (br_round r)}"
proof -
  have "r \<in> set (author_refs ms author P) \<longleftrightarrow>
      author_key r |\<in>| ms_digests_by_authorities ms \<and> br_author r = author \<and> P (br_round r)" for r
    by (cases r) (force simp: author_refs_def author_key_def)
  with assms show ?thesis by (auto simp: ms_inv_def)
qed

lemma sorted_wrt_author_refs: "sorted_wrt (<) (author_refs ms author P)"
proof -
  let ?keys = "filter (\<lambda>(a, r, d). a = author \<and> P r) (sorted_list_of_fset (ms_digests_by_authorities ms))"
  have "sorted_wrt (<) (sorted_list_of_fset (ms_digests_by_authorities ms))"
    by (simp add: strict_sorted_iff)
  then have "sorted_wrt (<) ?keys" by (rule sorted_wrt_filter)
  then have "sorted_wrt (\<lambda>k k'. (case k of (a, r, d) \<Rightarrow> BlockRef r a d) < (case k' of (a, r, d) \<Rightarrow> BlockRef r a d)) ?keys"
    by (rule sorted_wrt_mono_rel [rotated]) (auto simp: less_block_ref_def less_prod_def less_eq_prod_def)
  then show ?thesis by (simp add: author_refs_def sorted_wrt_map)
qed

lemma mapM_lookup_known:
  assumes "\<forall>r \<in> set refs. ms_lookup ms r \<noteq> None"
  shows "mapM id (ms_read_blocks ms refs) = Some (map (\<lambda>r. the (ms_lookup ms r)) refs)"
  using assms by (induction refs) (auto simp: ms_read_blocks_lookup)

lemma ms_scan_blocks_by_author_eq [panic_simps]:
  assumes "ms_inv ms"
  shows "ms_scan_blocks_by_author ms author start =
     Some (map (\<lambda>r. the (ms_lookup ms r)) (author_refs ms author (\<lambda>r. start \<le> r)))"
  unfolding ms_scan_blocks_by_author_def Let_def author_refs_def [symmetric]
  by (rule mapM_lookup_known) (simp add: set_author_refs [OF assms])

lemma map_reference_lookup:
  assumes "ms_inv ms" and "\<forall>r \<in> set refs. ms_lookup ms r \<noteq> None"
  shows "map vb_reference (map (\<lambda>r. the (ms_lookup ms r)) refs) = refs"
  using assms by (induction refs) (auto simp: ms_inv_def)

text \<open>The part of the reverse scan that is read back.\<close>

definition last_refs :: "mem_store \<Rightarrow> authority_index \<Rightarrow> nat \<Rightarrow> round option \<Rightarrow> block_ref list" where
  "last_refs ms author n before = (
     let refs = author_refs ms author (\<lambda>r. case before of Some b \<Rightarrow> r \<le> b | None \<Rightarrow> True) in
     drop (length refs - n) refs)"

lemma rev_take_rev: "rev (take n (rev xs)) = drop (length xs - n) xs"
  by (simp add: take_rev)

lemma mapM_zip_front: "mapM snd (zip xs (map f (take k xs))) = mapM f (take k xs)"
proof (induction xs arbitrary: k)
  case (Cons x xs)
  then show ?case by (cases k) simp_all
qed simp

lemma ms_scan_last_eq [panic_simps]:
  assumes "ms_inv ms"
  shows "ms_scan_last_blocks_by_author ms author n before =
     Some (map (\<lambda>r. the (ms_lookup ms r))
       (take (first_slice_length (length (last_refs ms author n before))) (last_refs ms author n before)))"
proof -
  let ?refs = "last_refs ms author n before"
  let ?front = "take (first_slice_length (length ?refs)) ?refs"
  have known: "\<forall>r \<in> set ?front. ms_lookup ms r \<noteq> None"
    using set_author_refs [OF assms] by (auto simp: last_refs_def Let_def dest!: in_set_takeD in_set_dropD)
  have "ms_scan_last_blocks_by_author ms author n before = mapM snd (zip ?refs (ms_read_blocks ms ?front))"
    by (simp add: ms_scan_last_blocks_by_author_def Let_def last_refs_def author_refs_def
        rev_take_rev [symmetric] rev_map take_map)
  also have "\<dots> = mapM (ms_lookup ms) ?front"
    by (simp add: ms_read_blocks_lookup mapM_zip_front)
  also have "\<dots> = Some (map (\<lambda>r. the (ms_lookup ms r)) ?front)"
    by (rule mapM_Some) (use known in auto)
  finally show ?thesis .
qed

lemma first_slice_small: "n \<le> 4 \<Longrightarrow> first_slice_length n = n"
proof -
  assume "n \<le> 4"
  then have "n = 0 \<or> n = 1 \<or> n = 2 \<or> n = 3 \<or> n = 4" by auto
  moreover have "first_slice_length 0 = 0" "first_slice_length 1 = 1" "first_slice_length 2 = 2"
    "first_slice_length 3 = 3" "first_slice_length 4 = 4" by code_simp+
  ultimately show ?thesis by auto
qed

lemma length_last_refs_le: "length (last_refs ms author n before) \<le> n"
  by (simp add: last_refs_def Let_def)

section \<open>The store as an interface\<close>

text \<open>
  What the users of a store rely on: a block that was written is found, the others are as before,
  and a scan of an author returns the author's blocks from a round on, in order.
\<close>

locale block_store =
  fixes inv :: "'s \<Rightarrow> bool"
    and lookup :: "'s \<Rightarrow> block_ref \<Rightarrow> verified_block option"
    and put :: "'s \<Rightarrow> write_batch \<Rightarrow> 's"
    and scan :: "'s \<Rightarrow> authority_index \<Rightarrow> round \<Rightarrow> verified_block list option"
  assumes inv_write: "inv s \<Longrightarrow> inv (put s wb)"
    and lookup_write: "inv s \<Longrightarrow> lookup (put s wb) r =
          (case find (\<lambda>b. vb_reference b = r) (rev (wb_blocks wb)) of Some b \<Rightarrow> Some b | None \<Rightarrow> lookup s r)"
    and lookup_reference: "inv s \<Longrightarrow> lookup s r = Some b \<Longrightarrow> vb_reference b = r"
    and scan_Some: "inv s \<Longrightarrow> \<exists>bs. scan s a start = Some bs \<and> sorted_wrt (<) (map vb_reference bs) \<and>
          set bs = {b. lookup s (vb_reference b) = Some b \<and> vb_author b = a \<and> start \<le> vb_round b}"
begin

text \<open>Writing never loses a reference.\<close>

lemma write_keeps: "inv s \<Longrightarrow> lookup s r \<noteq> None \<Longrightarrow> lookup (put s wb) r \<noteq> None"
  by (auto simp: lookup_write split: option.splits)

lemma written_found: "inv s \<Longrightarrow> b \<in> set (wb_blocks wb) \<Longrightarrow> lookup (put s wb) (vb_reference b) \<noteq> None"
  by (auto simp: lookup_write find_None_iff split: option.splits)

lemma lookup_write_cases:
  assumes "inv s" and "lookup (put s wb) r = Some b"
  shows "b \<in> set (wb_blocks wb) \<and> vb_reference b = r \<or> lookup s r = Some b"
  using assms by (auto simp: lookup_write split: option.splits dest: find_SomeD)

end

interpretation mem: block_store ms_inv ms_lookup ms_write ms_scan_blocks_by_author
proof
  show "\<exists>bs. ms_scan_blocks_by_author ms a start = Some bs \<and> sorted_wrt (<) (map vb_reference bs) \<and>
      set bs = {b. ms_lookup ms (vb_reference b) = Some b \<and> vb_author b = a \<and> start \<le> vb_round b}"
    if inv: "ms_inv ms" for ms a start
  proof -
    let ?refs = "author_refs ms a (\<lambda>r. start \<le> r)"
    let ?bs = "map (\<lambda>r. the (ms_lookup ms r)) ?refs"
    have known: "\<forall>r \<in> set ?refs. ms_lookup ms r \<noteq> None" using set_author_refs [OF inv] by auto
    have "map vb_reference ?bs = ?refs" using inv known by (rule map_reference_lookup)
    then have "sorted_wrt (<) (map vb_reference ?bs)" using sorted_wrt_author_refs by metis
    moreover have "set ?bs = {b. ms_lookup ms (vb_reference b) = Some b \<and> vb_author b = a \<and> start \<le> vb_round b}"
      using inv by (force simp: set_author_refs [OF inv] ms_inv_def image_iff)
    ultimately show ?thesis using ms_scan_blocks_by_author_eq [OF inv] by blast
  qed
qed (auto intro: ms_inv_write simp: ms_lookup_write ms_lookup_reference)

section \<open>Properties\<close>

text \<open>
  C27: a scan by author returns exactly the stored blocks of the author from the start round on, each
  once, in ascending order of their references, after any sequence of writes.
\<close>

theorem scan_blocks_complete:
  "\<exists>bs. ms_scan_blocks_by_author (foldl ms_write mem_store_new batches) author start = Some bs \<and>
     sorted_wrt (<) (map vb_reference bs) \<and>
     vb_reference ` set bs = {vb_reference b |b. b \<in> (\<Union>wb \<in> set batches. set (wb_blocks wb)) \<and>
       vb_author b = author \<and> start \<le> vb_round b}"
proof -
  let ?s = "foldl ms_write mem_store_new batches"
  have inv: "ms_inv ?s \<and> (\<forall>r. ms_lookup ?s r \<noteq> None \<longleftrightarrow> r \<in> vb_reference ` (\<Union>wb \<in> set batches. set (wb_blocks wb)))"
  proof (induction batches rule: rev_induct)
    case Nil
    then show ?case by (simp add: ms_inv_new) (simp add: mem_store_new_def ms_lookup_def)
  next
    case (snoc wb batches)
    have "ms_lookup (ms_write (foldl ms_write mem_store_new batches) wb) r \<noteq> None \<longleftrightarrow>
        r \<in> vb_reference ` set (wb_blocks wb) \<or> ms_lookup (foldl ms_write mem_store_new batches) r \<noteq> None" for r
      by (auto simp: ms_lookup_write find_None_iff split: option.splits dest: find_SomeD)
    with snoc show ?case by (simp only: foldl_append foldl.simps ms_inv_write) auto
  qed
  obtain bs where bs: "ms_scan_blocks_by_author ?s author start = Some bs" "sorted_wrt (<) (map vb_reference bs)"
    "set bs = {b. ms_lookup ?s (vb_reference b) = Some b \<and> vb_author b = author \<and> start \<le> vb_round b}"
    using mem.scan_Some [OF conjunct1 [OF inv]] by blast
  have LR: "vb_reference ` {b. ms_lookup ?s (vb_reference b) = Some b \<and> vb_author b = author \<and> start \<le> vb_round b}
      = {r. ms_lookup ?s r \<noteq> None \<and> br_author r = author \<and> start \<le> br_round r}" (is "?L = ?R")
  proof
    show "?L \<subseteq> ?R" by auto
    show "?R \<subseteq> ?L" using inv ms_lookup_reference [of ?s] by (fastforce intro: rev_image_eqI)
  qed
  have "?R = {vb_reference b |b. b \<in> (\<Union>wb \<in> set batches. set (wb_blocks wb)) \<and>
      vb_author b = author \<and> start \<le> vb_round b}"
    unfolding conjunct2 [OF inv, rule_format] by auto
  then have "vb_reference ` set bs = {vb_reference b |b. b \<in> (\<Union>wb \<in> set batches. set (wb_blocks wb)) \<and>
      vb_author b = author \<and> start \<le> vb_round b}"
    unfolding bs(3) LR .
  with bs(1,2) show ?thesis by (intro exI conjI)
qed

text \<open>
  asked for at most four blocks, the reverse scan returns the last blocks of the author in
  ascending order.
\<close>

theorem scan_last_blocks_small:
  assumes "ms_inv ms" and "n \<le> 4"
    and "ms_scan_blocks_by_author ms author 0 = Some bs"
  shows "ms_scan_last_blocks_by_author ms author n None = Some (drop (length bs - n) bs)"
proof -
  let ?refs = "author_refs ms author (\<lambda>r. True)"
  have bs: "bs = map (\<lambda>r. the (ms_lookup ms r)) ?refs"
    using assms(3) by (simp add: ms_scan_blocks_by_author_eq [OF assms(1)])
  have refs: "last_refs ms author n None = drop (length ?refs - n) ?refs"
    by (simp add: last_refs_def Let_def)
  have "length (last_refs ms author n None) \<le> 4"
    using length_last_refs_le [of ms author n None] assms(2) by linarith
  then show ?thesis
    using bs by (simp add: ms_scan_last_eq [OF assms(1)] first_slice_small refs drop_map)
qed

definition example_store :: mem_store where
  "example_store = ms_write mem_store_new \<lparr>wb_blocks = map (\<lambda>r. example_block r 1 0 []) [1, 2, 3, 4, 5],
     wb_commits = [], wb_commit_info = []\<rparr>"

lemma ms_inv_example_store: "ms_inv example_store"
  unfolding example_store_def by (intro ms_inv_write ms_inv_new)

theorem scan_last_blocks_small_witness:
  "ms_scan_last_blocks_by_author example_store 1 2 None = Some [example_block 4 1 0 [], example_block 5 1 0 []]"
proof -
  have "ms_scan_blocks_by_author example_store 1 0 = Some (map (\<lambda>r. example_block r 1 0 []) [1, 2, 3, 4, 5])"
    by code_simp
  from scan_last_blocks_small [OF ms_inv_example_store _ this, of 2] show ?thesis by simp
qed

text \<open>
  C28: asked for five blocks of an author that has at least five, the reverse scan returns a single
  block: the deque it collects the references in has wrapped around, and only its first slice is
  read.
\<close>

theorem scan_last_blocks_truncated:
  assumes "ms_inv ms" and "ms_scan_blocks_by_author ms author 0 = Some bs" and "5 \<le> length bs"
  shows "ms_scan_last_blocks_by_author ms author 5 None = Some [bs ! (length bs - 5)]"
proof -
  let ?refs = "author_refs ms author (\<lambda>r. True)"
  have bs: "bs = map (\<lambda>r. the (ms_lookup ms r)) ?refs"
    using assms(2) by (simp add: ms_scan_blocks_by_author_eq [OF assms(1)])
  have refs: "last_refs ms author 5 None = drop (length ?refs - 5) ?refs"
    by (simp add: last_refs_def Let_def)
  have "first_slice_length 5 = 1" by code_simp
  moreover have "length (last_refs ms author 5 None) = 5" using assms(3) bs by (simp add: refs)
  moreover have "take 1 (drop (length bs - 5) bs) = [bs ! (length bs - 5)]"
    using assms(3) by (cases "drop (length bs - 5) bs") (auto simp: nth_via_drop)
  ultimately show ?thesis
    using bs by (simp add: ms_scan_last_eq [OF assms(1)] refs drop_map take_map)
qed

theorem scan_last_blocks_truncated_witness:
  "ms_scan_last_blocks_by_author example_store 1 5 None = Some [example_block 1 1 0 []]"
proof -
  have "ms_scan_blocks_by_author example_store 1 0 = Some (map (\<lambda>r. example_block r 1 0 []) [1, 2, 3, 4, 5])"
    by code_simp
  from scan_last_blocks_truncated [OF ms_inv_example_store this] show ?thesis by simp
qed

text \<open>
  C29: a commit whose blocks are all stored and include its leader is recovered as the sub-dag of
  exactly those blocks in commit order, with the leader, timestamp and reference of the commit.
\<close>

theorem load_committed_subdag:
  assumes "ms_inv ms" and "\<forall>r \<in> set (tc_blocks c). ms_lookup ms r \<noteq> None" and "tc_leader c \<in> set (tc_blocks c)"
  shows "\<exists>sd. load_committed_subdag_from_store ms c scores = Some sd \<and> sd_leader sd = tc_leader c \<and>
     map vb_reference (sd_blocks sd) = tc_blocks c \<and> sd_timestamp_ms sd = tc_timestamp_ms c \<and>
     sd_commit_ref sd = tc_reference c \<and> sd_reputation_scores_desc sd = scores"
proof -
  let ?bs = "map (\<lambda>r. the (ms_lookup ms r)) (tc_blocks c)"
  have refs: "map vb_reference ?bs = tc_blocks c" using assms(1,2) by (rule map_reference_lookup)
  let ?idxs = "filter (\<lambda>i. vb_reference (?bs ! i) = tc_leader c) [0..<length ?bs]"
  obtain i where "i < length ?bs" "vb_reference (?bs ! i) = tc_leader c"
    using assms(3) refs by (metis in_set_conv_nth length_map nth_map)
  then have "?idxs \<noteq> []" by (auto simp: filter_empty_conv)
  then have "last ?idxs \<in> set ?idxs" by (rule last_in_set)
  then have last: "last ?idxs < length ?bs" "vb_reference (?bs ! last ?idxs) = tc_leader c" by auto
  have "load_committed_subdag_from_store ms c scores =
      Some ((committed_sub_dag_new (tc_leader c) ?bs (tc_timestamp_ms c) (tc_reference c))
        \<lparr>sd_reputation_scores_desc := scores\<rparr>)"
    unfolding load_committed_subdag_from_store_def mapM_lookup_known [OF assms(2)]
    using \<open>?idxs \<noteq> []\<close> last by (simp del: length_map)
  with refs show ?thesis by (simp add: committed_sub_dag_new_def)
qed

definition example_commit :: trusted_commit where
  "example_commit = \<lparr>tc_inner = commit_new 1 0 50 (BlockRef 3 1 0) [BlockRef 2 1 0, BlockRef 3 1 0],
     tc_digest = 9, tc_serialized = []\<rparr>"

theorem load_committed_subdag_witness:
  "\<exists>sd. load_committed_subdag_from_store example_store example_commit [] = Some sd \<and>
     sd_leader sd = BlockRef 3 1 0 \<and> map vb_reference (sd_blocks sd) = [BlockRef 2 1 0, BlockRef 3 1 0]"
proof -
  have "ms_lookup example_store (BlockRef 2 1 0) \<noteq> None \<and> ms_lookup example_store (BlockRef 3 1 0) \<noteq> None"
    by code_simp
  with load_committed_subdag [OF ms_inv_example_store, of example_commit "[]"] show ?thesis
    by (auto simp: example_commit_def tc_accessors)
qed

end
