(* ===== verification/Leader_Scoring.thy ===== *)
theory Leader_Scoring
  imports Commits
begin

text \<open>
  \<open>consensus/core/src/leader_scoring.rs\<close>: the votes for committed leaders found in committed sub-dags,
  the stake of the blocks that strongly link to each vote, and the scores computed from them.
\<close>

section \<open>Definitions\<close>

record scoring_subdag =
  sg_commit_range :: "commit_range option"
  sg_leaders :: "block_ref fset"
  sg_votes :: "(block_ref, stake_aggregator) fmap"

definition sg_new :: scoring_subdag where
  "sg_new = \<lparr>sg_commit_range = None, sg_leaders = {||}, sg_votes = fmempty\<rparr>"

definition sg_extend_range :: "scoring_subdag \<Rightarrow> commit_index \<Rightarrow> scoring_subdag option" where
  "sg_extend_range sg index = (case sg_commit_range sg of
       None \<Rightarrow> Some (sg\<lparr>sg_commit_range := Some (commit_range_new index index)\<rparr>)
     | Some r \<Rightarrow> do {
         r' \<leftarrow> commit_range_extend_to r index;
         Some (sg\<lparr>sg_commit_range := Some r'\<rparr>)
       })"

text \<open>
  The body of the loop over the ancestors of a block: an ancestor among the leaders makes the block
  a vote, and an ancestor that is a vote counts the author of the block.
\<close>

definition sg_record_vote :: "verified_block \<Rightarrow> scoring_subdag \<Rightarrow> block_ref \<Rightarrow> scoring_subdag option" where
  "sg_record_vote block sg ancestor =
     (if ancestor |\<in>| sg_leaders sg
      then do {
        assert_that (fmlookup (sg_votes sg) (vb_reference block) = None);
        Some (sg\<lparr>sg_votes := fmupd (vb_reference block) sa_new (sg_votes sg)\<rparr>)
      }
      else Some sg)"

definition sg_add_ancestor ::
  "consensus_context \<Rightarrow> verified_block \<Rightarrow> scoring_subdag \<Rightarrow> block_ref \<Rightarrow> scoring_subdag option" where
  "sg_add_ancestor cx block sg ancestor =
     (if br_round ancestor \<noteq> vb_round block - 1 then Some sg
      else do {
        sg1 \<leftarrow> sg_record_vote block sg ancestor;
        case fmlookup (sg_votes sg1) ancestor of
          None \<Rightarrow> Some sg1
        | Some agg \<Rightarrow> do {
            (agg', _) \<leftarrow> sa_add QuorumThreshold (cx_committee cx) agg (vb_author block);
            Some (sg1\<lparr>sg_votes := fmupd ancestor agg' (sg_votes sg1)\<rparr>)
          }
      })"

definition sg_add_block :: "consensus_context \<Rightarrow> scoring_subdag \<Rightarrow> verified_block \<Rightarrow> scoring_subdag option" where
  "sg_add_block cx sg block = foldM (sg_add_ancestor cx block) sg (vb_ancestors block)"

definition sg_add_subdag :: "consensus_context \<Rightarrow> scoring_subdag \<Rightarrow> committed_sub_dag \<Rightarrow> scoring_subdag option" where
  "sg_add_subdag cx sg subdag = do {
     sg1 \<leftarrow> sg_extend_range sg (cr_index (sd_commit_ref subdag));
     let sg2 = sg1\<lparr>sg_leaders := finsert (sd_leader subdag) (sg_leaders sg1)\<rparr>;
     foldM (sg_add_block cx) sg2 (sd_blocks subdag)
   }"

definition add_subdags ::
  "consensus_context \<Rightarrow> scoring_subdag \<Rightarrow> committed_sub_dag list \<Rightarrow> scoring_subdag option" where
  "add_subdags cx sg subdags = foldM (sg_add_subdag cx) sg subdags"

definition distributed_votes_scores :: "consensus_context \<Rightarrow> scoring_subdag \<Rightarrow> nat list option" where
  "distributed_votes_scores cx sg =
     foldM (\<lambda>scores (vote, agg). do {
         current \<leftarrow> vec_get scores (br_author vote);
         vec_set scores (br_author vote) (wrap64 (current + sa_stake agg))
       }) (replicate (committee_size (cx_committee cx)) 0) (sorted_list_of_fmap (sg_votes sg))"

definition calculate_distributed_vote_scores ::
  "consensus_context \<Rightarrow> scoring_subdag \<Rightarrow> reputation_scores option" where
  "calculate_distributed_vote_scores cx sg = do {
     scores \<leftarrow> distributed_votes_scores cx sg;
     r \<leftarrow> sg_commit_range sg;
     Some (reputation_scores_new r scores)
   }"

definition scored_subdags_count :: "scoring_subdag \<Rightarrow> nat option" where
  "scored_subdags_count sg = (case sg_commit_range sg of Some r \<Rightarrow> commit_range_size r | None \<Rightarrow> Some 0)"

definition sg_is_empty :: "scoring_subdag \<Rightarrow> bool" where
  "sg_is_empty sg \<longleftrightarrow> sg_leaders sg = {||} \<and> sg_votes sg = fmempty \<and> sg_commit_range sg = None"

definition sg_clear :: "scoring_subdag \<Rightarrow> scoring_subdag" where
  "sg_clear sg = sg\<lparr>sg_leaders := {||}, sg_votes := fmempty, sg_commit_range := None\<rparr>"

section \<open>Lemmas\<close>

lemma sg_is_empty_clear [simp]: "sg_is_empty (sg_clear sg)"
  by (simp add: sg_is_empty_def sg_clear_def)

text \<open>Every vote is by a member of the committee and every aggregator counts members only.\<close>

definition sg_inv :: "consensus_context \<Rightarrow> scoring_subdag \<Rightarrow> bool" where
  "sg_inv cx sg \<longleftrightarrow> (\<forall>v agg. fmlookup (sg_votes sg) v = Some agg \<longrightarrow>
     br_author v < committee_size (cx_committee cx) \<and> sa_inv (cx_committee cx) agg)"

lemma sg_inv_new [wf_intros]: "sg_inv cx sg_new"
  by (simp add: sg_inv_def sg_new_def)

lemma sg_inv_frame [simp]:
  "sg_inv cx (sg\<lparr>sg_commit_range := r\<rparr>) = sg_inv cx sg"
  "sg_inv cx (sg\<lparr>sg_leaders := l\<rparr>) = sg_inv cx sg"
  by (simp_all add: sg_inv_def)

lemma sg_inv_upd:
  "sg_inv cx sg \<Longrightarrow> br_author v < committee_size (cx_committee cx) \<Longrightarrow> sa_inv (cx_committee cx) agg \<Longrightarrow>
     sg_inv cx (sg\<lparr>sg_votes := fmupd v agg (sg_votes sg)\<rparr>)"
  by (auto simp: sg_inv_def)

text \<open>
  One ancestor: it does not panic unless the block already votes for another leader of the round
  below; it may add the block as a vote and counts the block's author for the ancestor's vote.
\<close>

lemma sg_add_ancestor_total:
  assumes "committee_ok (cx_committee cx)" and "sg_inv cx sg"
    and "vb_author b < committee_size (cx_committee cx)"
    and "a |\<in>| sg_leaders sg \<Longrightarrow> br_round a = vb_round b - 1 \<Longrightarrow> fmlookup (sg_votes sg) (vb_reference b) = None"
  shows "\<exists>sg'. sg_add_ancestor cx b sg a = Some sg' \<and> sg_inv cx sg' \<and> sg_leaders sg' = sg_leaders sg \<and>
     sg_commit_range sg' = sg_commit_range sg \<and>
     fmdom (sg_votes sg') = (if a |\<in>| sg_leaders sg \<and> br_round a = vb_round b - 1
        then finsert (vb_reference b) (fmdom (sg_votes sg)) else fmdom (sg_votes sg))"
proof (cases "br_round a = vb_round b - 1")
  case True
  define sg1 where "sg1 = (if a |\<in>| sg_leaders sg
     then sg\<lparr>sg_votes := fmupd (vb_reference b) sa_new (sg_votes sg)\<rparr> else sg)"
  have inv1: "sg_inv cx sg1"
    using assms(2,3) by (auto simp: sg1_def intro: sg_inv_upd)
  have first: "sg_add_ancestor cx b sg a = (case fmlookup (sg_votes sg1) a of
          None \<Rightarrow> Some sg1
        | Some agg \<Rightarrow> do {
            (agg', _) \<leftarrow> sa_add QuorumThreshold (cx_committee cx) agg (vb_author b);
            Some (sg1\<lparr>sg_votes := fmupd a agg' (sg_votes sg1)\<rparr>)
          })"
  proof -
    have "sg_record_vote b sg a = Some sg1"
      using True assms(4) by (simp add: sg_record_vote_def sg1_def)
    with True show ?thesis by (simp add: sg_add_ancestor_def)
  qed
  have dom1: "fmdom (sg_votes sg1) = (if a |\<in>| sg_leaders sg then finsert (vb_reference b) (fmdom (sg_votes sg))
      else fmdom (sg_votes sg))" and frame1: "sg_leaders sg1 = sg_leaders sg" "sg_commit_range sg1 = sg_commit_range sg"
    by (simp_all add: sg1_def)
  show ?thesis
  proof (cases "fmlookup (sg_votes sg1) a")
    case None
    then show ?thesis using first True inv1 dom1 frame1 by simp
  next
    case (Some agg)
    then have agg: "sa_inv (cx_committee cx) agg" "br_author a < committee_size (cx_committee cx)"
      using inv1 by (auto simp: sg_inv_def)
    have "a |\<in>| fmdom (sg_votes sg1)" using Some by (simp add: fmdomI)
    then show ?thesis
      using first Some True inv1 dom1 frame1 agg assms(1,3)
      by (simp add: sa_add_eq sg_inv_upd sa_inv_count finsert_absorb)
  qed
qed (use assms(2) in \<open>simp add: sg_add_ancestor_def\<close>)

text \<open>The leaders a block votes for: its ancestors among the leaders, one round below.\<close>

definition voted_leaders :: "scoring_subdag \<Rightarrow> verified_block \<Rightarrow> block_ref list \<Rightarrow> block_ref list" where
  "voted_leaders sg b as = filter (\<lambda>a. a |\<in>| sg_leaders sg \<and> br_round a = vb_round b - 1) as"

lemma sg_add_ancestors_total:
  assumes "committee_ok (cx_committee cx)" and "sg_inv cx sg"
    and "vb_author b < committee_size (cx_committee cx)"
    and "length (voted_leaders sg b as) + (if vb_reference b |\<in>| fmdom (sg_votes sg) then 1 else 0) \<le> 1"
  shows "\<exists>sg'. foldM (sg_add_ancestor cx b) sg as = Some sg' \<and> sg_inv cx sg' \<and> sg_leaders sg' = sg_leaders sg \<and>
     sg_commit_range sg' = sg_commit_range sg \<and>
     fmdom (sg_votes sg') |\<subseteq>| finsert (vb_reference b) (fmdom (sg_votes sg))"
  using assms(2,4)
proof (induction as arbitrary: sg)
  case (Cons a as)
  let ?v = "a |\<in>| sg_leaders sg \<and> br_round a = vb_round b - 1"
  have "fmlookup (sg_votes sg) (vb_reference b) = None" if ?v
    using that Cons.prems(2) by (auto simp: voted_leaders_def fmlookup_dom_iff split: if_splits)
  then obtain sg1 where sg1: "sg_add_ancestor cx b sg a = Some sg1" "sg_inv cx sg1" "sg_leaders sg1 = sg_leaders sg"
    "sg_commit_range sg1 = sg_commit_range sg"
    "fmdom (sg_votes sg1) = (if ?v then finsert (vb_reference b) (fmdom (sg_votes sg)) else fmdom (sg_votes sg))"
    using sg_add_ancestor_total [OF assms(1) Cons.prems(1) assms(3), of a] by blast
  have "length (voted_leaders sg1 b as) + (if vb_reference b |\<in>| fmdom (sg_votes sg1) then 1 else 0) \<le> 1"
    using Cons.prems(2) sg1(3,5) by (cases ?v) (auto simp: voted_leaders_def split: if_splits)
  from Cons.IH [OF sg1(2) this] sg1 show ?case by (auto split: if_splits)
qed auto

text \<open>A block votes for at most one of the leaders in \<open>L\<close>.\<close>

definition single_vote :: "block_ref set \<Rightarrow> verified_block \<Rightarrow> bool" where
  "single_vote L b \<longleftrightarrow>
     length (filter (\<lambda>a. a \<in> L \<and> br_round a = vb_round b - 1) (vb_ancestors b)) \<le> 1"

lemma voted_leaders_le:
  assumes "fset (sg_leaders sg) \<subseteq> L"
  shows "length (voted_leaders sg b as) \<le> length (filter (\<lambda>a. a \<in> L \<and> br_round a = vb_round b - 1) as)"
  using assms by (induction as) (auto simp: voted_leaders_def)

lemma sg_add_blocks_total:
  assumes "committee_ok (cx_committee cx)" and "sg_inv cx sg" and "fset (sg_leaders sg) \<subseteq> L"
    and "\<forall>b \<in> set bs. vb_author b < committee_size (cx_committee cx) \<and> single_vote L b"
    and "distinct (map vb_reference bs)" and "fset (fmdom (sg_votes sg)) \<inter> vb_reference ` set bs = {}"
  shows "\<exists>sg'. foldM (sg_add_block cx) sg bs = Some sg' \<and> sg_inv cx sg' \<and> sg_leaders sg' = sg_leaders sg \<and>
     sg_commit_range sg' = sg_commit_range sg \<and>
     fset (fmdom (sg_votes sg')) \<subseteq> fset (fmdom (sg_votes sg)) \<union> vb_reference ` set bs"
  using assms(2-)
proof (induction bs arbitrary: sg)
  case (Cons b bs)
  have "length (voted_leaders sg b (vb_ancestors b)) \<le> 1"
    using voted_leaders_le [OF Cons.prems(2), of b "vb_ancestors b"] Cons.prems(3) by (simp add: single_vote_def)
  moreover have "vb_reference b |\<notin>| fmdom (sg_votes sg)" using Cons.prems(5) by auto
  ultimately obtain sg1 where sg1: "sg_add_block cx sg b = Some sg1" "sg_inv cx sg1" "sg_leaders sg1 = sg_leaders sg"
    "sg_commit_range sg1 = sg_commit_range sg" "fmdom (sg_votes sg1) |\<subseteq>| finsert (vb_reference b) (fmdom (sg_votes sg))"
    using sg_add_ancestors_total [OF assms(1) Cons.prems(1), of b "vb_ancestors b"] Cons.prems(3)
    by (auto simp: sg_add_block_def)
  have dom1: "fset (fmdom (sg_votes sg1)) \<subseteq> insert (vb_reference b) (fset (fmdom (sg_votes sg)))"
    using sg1(5) by (simp add: less_eq_fset.rep_eq)
  have "\<exists>sg'. foldM (sg_add_block cx) sg1 bs = Some sg' \<and> sg_inv cx sg' \<and> sg_leaders sg' = sg_leaders sg1 \<and>
     sg_commit_range sg' = sg_commit_range sg1 \<and>
     fset (fmdom (sg_votes sg')) \<subseteq> fset (fmdom (sg_votes sg1)) \<union> vb_reference ` set bs"
  proof (rule Cons.IH [OF sg1(2)])
    have "vb_reference b \<notin> vb_reference ` set bs" using Cons.prems(4) by simp
    with dom1 Cons.prems(5) show "fset (fmdom (sg_votes sg1)) \<inter> vb_reference ` set bs = {}"
      by (simp add: disjoint_iff subset_iff) metis
  qed (use Cons.prems sg1 in auto)
  with sg1 dom1 show ?case by auto
qed simp

lemma sg_extend_range_total:
  assumes "\<And>r. sg_commit_range sg = Some r \<Longrightarrow> range_end r \<le> saturating_add32 i 1"
  obtains r' where "sg_extend_range sg i = Some (sg\<lparr>sg_commit_range := Some r'\<rparr>)" and "range_end r' = saturating_add32 i 1"
  using assms that
  by (cases "sg_commit_range sg")
    (auto simp: sg_extend_range_def commit_range_new_def commit_range_extend_to_def Let_def)

lemma add_subdags_total:
  assumes "committee_ok (cx_committee cx)" and "sg_inv cx sg"
    and "fset (sg_leaders sg) \<union> sd_leader ` set sds \<subseteq> L"
    and "\<forall>b \<in> set (concat (map sd_blocks sds)). vb_author b < committee_size (cx_committee cx) \<and> single_vote L b"
    and "distinct (map vb_reference (concat (map sd_blocks sds)))"
    and "fset (fmdom (sg_votes sg)) \<inter> vb_reference ` set (concat (map sd_blocks sds)) = {}"
    and "sorted (map (\<lambda>sd. cr_index (sd_commit_ref sd)) sds)"
    and "\<forall>r sd. sg_commit_range sg = Some r \<longrightarrow> sd \<in> set sds \<longrightarrow> range_end r \<le> saturating_add32 (cr_index (sd_commit_ref sd)) 1"
  shows "\<exists>sg'. add_subdags cx sg sds = Some sg' \<and> sg_inv cx sg' \<and>
     (sds \<noteq> [] \<or> sg_commit_range sg \<noteq> None \<longrightarrow> sg_commit_range sg' \<noteq> None)"
  using assms(2-)
proof (induction sds arbitrary: sg)
  case Nil
  then show ?case by (simp add: add_subdags_def)
next
  case (Cons sd sds)
  let ?i = "cr_index (sd_commit_ref sd)"
  obtain r' where ext: "sg_extend_range sg ?i = Some (sg\<lparr>sg_commit_range := Some r'\<rparr>)"
    and r': "range_end r' = saturating_add32 ?i 1"
    using Cons.prems(7) by (auto intro: sg_extend_range_total [of sg ?i])
  define sg2 where "sg2 = sg\<lparr>sg_commit_range := Some r', sg_leaders := finsert (sd_leader sd) (sg_leaders sg)\<rparr>"
  have sel: "sg_votes sg2 = sg_votes sg" "sg_leaders sg2 = finsert (sd_leader sd) (sg_leaders sg)"
    "sg_commit_range sg2 = Some r'" by (simp_all add: sg2_def)
  have "sg_inv cx sg2" using Cons.prems(1) by (simp add: sg_inv_def sel)
  then have "\<exists>sg3. foldM (sg_add_block cx) sg2 (sd_blocks sd) = Some sg3 \<and> sg_inv cx sg3 \<and>
      sg_leaders sg3 = sg_leaders sg2 \<and> sg_commit_range sg3 = sg_commit_range sg2 \<and>
      fset (fmdom (sg_votes sg3)) \<subseteq> fset (fmdom (sg_votes sg2)) \<union> vb_reference ` set (sd_blocks sd)"
    using Cons.prems by (intro sg_add_blocks_total [OF assms(1)]) (auto simp: sel)
  then obtain sg3 where sg3: "foldM (sg_add_block cx) sg2 (sd_blocks sd) = Some sg3" "sg_inv cx sg3"
      "sg_leaders sg3 = sg_leaders sg2" "sg_commit_range sg3 = sg_commit_range sg2"
      "fset (fmdom (sg_votes sg3)) \<subseteq> fset (fmdom (sg_votes sg2)) \<union> vb_reference ` set (sd_blocks sd)" by blast
  have step: "sg_add_subdag cx sg sd = Some sg3"
    using ext sg3(1) by (simp add: sg_add_subdag_def sg2_def)
  have "\<exists>sg'. add_subdags cx sg3 sds = Some sg' \<and> sg_inv cx sg' \<and>
     (sds \<noteq> [] \<or> sg_commit_range sg3 \<noteq> None \<longrightarrow> sg_commit_range sg' \<noteq> None)"
  proof (rule Cons.IH [OF sg3(2)])
    show "fset (fmdom (sg_votes sg3)) \<inter> vb_reference ` set (concat (map sd_blocks sds)) = {}"
      using Cons.prems(4,5) sg3(5) by (simp add: sel disjoint_iff subset_iff) blast
    show "\<forall>r sd. sg_commit_range sg3 = Some r \<longrightarrow> sd \<in> set sds \<longrightarrow> range_end r \<le> saturating_add32 (cr_index (sd_commit_ref sd)) 1"
      using Cons.prems(6) r' by (auto simp: sg3(4) sel saturating_add32_def)
  qed (use Cons.prems sg3(3) sel in auto)
  with step show ?case by (auto simp: add_subdags_def sg3(4) sel)
qed

section \<open>What the votes are\<close>

text \<open>
  The references below describe the tally without the order of the walk: a block strongly links to the ancestors one
  round below it, it votes if one of them is a committed leader, and a vote is credited with the
  authors of all committed blocks that strongly link to it.
\<close>

definition strong_link :: "verified_block \<Rightarrow> block_ref \<Rightarrow> bool" where
  "strong_link b r \<longleftrightarrow> r \<in> set (vb_ancestors b) \<and> br_round r = vb_round b - 1"

definition leader_vote :: "block_ref set \<Rightarrow> verified_block \<Rightarrow> bool" where
  "leader_vote L v \<longleftrightarrow> (\<exists>r \<in> L. strong_link v r)"

definition linkers :: "verified_block list \<Rightarrow> block_ref \<Rightarrow> authority_index set" where
  "linkers bs r = {vb_author b |b. b \<in> set bs \<and> strong_link b r}"

definition tallied :: "consensus_context \<Rightarrow> block_ref set \<Rightarrow> verified_block list \<Rightarrow> (block_ref, stake_aggregator) fmap \<Rightarrow> bool" where
  "tallied cx L bs m \<longleftrightarrow>
     (\<forall>r. r |\<in>| fmdom m \<longleftrightarrow> (\<exists>v \<in> set bs. vb_reference v = r \<and> leader_vote L v)) \<and>
     (\<forall>r agg. fmlookup m r = Some agg \<longrightarrow> sa_inv (cx_committee cx) agg \<and> fset (sa_votes agg) = linkers bs r)"

text \<open>One block: it becomes a vote if it links to a leader, and its author counts for the votes it links to.\<close>

definition tally_block ::
  "committee \<Rightarrow> block_ref set \<Rightarrow> verified_block \<Rightarrow> block_ref list \<Rightarrow> (block_ref, stake_aggregator) fmap \<Rightarrow> block_ref \<Rightarrow> stake_aggregator option" where
  "tally_block c L b as m r = (case fmlookup m r of
       Some agg \<Rightarrow> Some (if r \<in> set as \<and> br_round r = vb_round b - 1 then sa_count c agg (vb_author b) else agg)
     | None \<Rightarrow> if r = vb_reference b \<and> (\<exists>a \<in> set as. a \<in> L \<and> br_round a = vb_round b - 1) then Some sa_new else None)"

lemma sg_add_ancestor_tally:
  assumes step: "sg_add_ancestor cx b sg a = Some sg'" and ok: "committee_ok (cx_committee cx)"
    and inv: "sg_inv cx sg" and author: "vb_author b < committee_size (cx_committee cx)" and other: "vb_reference b \<noteq> a"
  shows "sg_leaders sg' = sg_leaders sg \<and>
     fmlookup (sg_votes sg') = tally_block (cx_committee cx) (fset (sg_leaders sg)) b [a] (sg_votes sg)"
proof (cases "br_round a = vb_round b - 1")
  case True
  obtain sg1 where sg1: "sg_record_vote b sg a = Some sg1" using step True by (auto simp: sg_add_ancestor_def elim!: bind_SomeE)
  then have votes1: "sg_votes sg1 = (if a |\<in>| sg_leaders sg then fmupd (vb_reference b) sa_new (sg_votes sg) else sg_votes sg)"
    and leaders1: "sg_leaders sg1 = sg_leaders sg" and fresh: "a |\<in>| sg_leaders sg \<Longrightarrow> fmlookup (sg_votes sg) (vb_reference b) = None"
    by (auto simp: sg_record_vote_def split: if_splits)
  have look: "fmlookup (sg_votes sg1) a = fmlookup (sg_votes sg) a" using other by (simp add: votes1)
  show ?thesis
  proof (cases "fmlookup (sg_votes sg) a")
    case None
    then have "sg' = sg1" using step True sg1 look by (simp add: sg_add_ancestor_def)
    then show ?thesis using None True fresh other by (auto simp: leaders1 votes1 tally_block_def fun_eq_iff split: option.splits)
  next
    case (Some agg)
    then have "sa_inv (cx_committee cx) agg" using inv by (auto simp: sg_inv_def)
    then have "sg' = sg1\<lparr>sg_votes := fmupd a (sa_count (cx_committee cx) agg (vb_author b)) (sg_votes sg1)\<rparr>"
      using step True sg1 look Some ok author by (simp add: sg_add_ancestor_def sa_add_eq)
    then show ?thesis using Some True fresh other by (auto simp: leaders1 votes1 tally_block_def fun_eq_iff split: option.splits)
  qed
qed (use step in \<open>auto simp: sg_add_ancestor_def tally_block_def fun_eq_iff split: option.splits\<close>)

lemma tally_block_inv:
  assumes "sg_inv cx sg" and "vb_author b < committee_size (cx_committee cx)"
    and "fmlookup (sg_votes sg') = tally_block (cx_committee cx) L b as (sg_votes sg)"
  shows "sg_inv cx sg'"
  using assms by (auto simp: sg_inv_def tally_block_def sa_inv_count split: option.splits if_splits)

lemma sg_add_block_tally:
  assumes "foldM (sg_add_ancestor cx b) sg as = Some sg'" and ok: "committee_ok (cx_committee cx)"
    and "sg_inv cx sg" and author: "vb_author b < committee_size (cx_committee cx)" and "vb_reference b \<notin> set as"
  shows "sg_leaders sg' = sg_leaders sg \<and>
     fmlookup (sg_votes sg') = tally_block (cx_committee cx) (fset (sg_leaders sg)) b as (sg_votes sg)"
  using assms(1,3,5)
proof (induction as arbitrary: sg)
  case (Cons a as)
  let ?c = "cx_committee cx"
  obtain sg1 where sg1: "sg_add_ancestor cx b sg a = Some sg1" "foldM (sg_add_ancestor cx b) sg1 as = Some sg'"
    using Cons.prems(1) by (auto elim!: bind_SomeE)
  have "vb_reference b \<noteq> a" using Cons.prems(3) by simp
  note first = sg_add_ancestor_tally [OF sg1(1) ok Cons.prems(2) author this]
  have inv1: "sg_inv cx sg1" using tally_block_inv [OF Cons.prems(2) author conjunct2 [OF first]] .
  note rest = Cons.IH [OF sg1(2) inv1] 
  have "tally_block ?c (fset (sg_leaders sg1)) b as (sg_votes sg1) r = tally_block ?c (fset (sg_leaders sg)) b (a # as) (sg_votes sg) r" for r
  proof (cases "fmlookup (sg_votes sg) r")
    case None
    then show ?thesis using first Cons.prems(3) by (auto simp: tally_block_def split: option.splits if_splits)
  next
    case (Some agg)
    then have "sa_inv ?c (sa_count ?c agg (vb_author b))" using Cons.prems(2) author by (auto simp: sg_inv_def sa_inv_count)
    then have "sa_count ?c (sa_count ?c agg (vb_author b)) (vb_author b) = sa_count ?c agg (vb_author b)" by (simp add: sa_count_counted)
    then show ?thesis using Some first by (auto simp: tally_block_def)
  qed
  then show ?case using rest first Cons.prems(3) by (auto simp: fun_eq_iff)
qed (auto simp: tally_block_def fun_eq_iff split: option.splits)

text \<open>No block links to itself or to a block after it: sub-dags are committed with their causal history and sorted by round.\<close>

fun causal_order :: "verified_block list \<Rightarrow> bool" where
  "causal_order [] = True"
| "causal_order (b # bs) = (list_all (\<lambda>x. vb_reference x \<notin> set (vb_ancestors b)) (b # bs) \<and> causal_order bs)"

lemma causal_order_append:
  "causal_order (ps @ bs) \<longleftrightarrow> causal_order ps \<and> causal_order bs \<and>
     (\<forall>p \<in> set ps. \<forall>b \<in> set bs. vb_reference b \<notin> set (vb_ancestors p))"
  by (induction ps) (auto simp: list_all_iff)

lemma tallied_step:
  assumes tallied: "tallied cx L ps (sg_votes sg)" and inv: "sg_inv cx sg"
    and votes: "fmlookup (sg_votes sg') = tally_block (cx_committee cx) (fset (sg_leaders sg)) b (vb_ancestors b) (sg_votes sg)"
    and leaders: "\<And>a. strong_link b a \<Longrightarrow> a |\<in>| sg_leaders sg \<longleftrightarrow> a \<in> L"
    and order: "causal_order (ps @ [b])" and new: "vb_reference b \<notin> vb_reference ` set ps"
    and author: "vb_author b < committee_size (cx_committee cx)"
  shows "tallied cx L (ps @ [b]) (sg_votes sg')"
proof -
  let ?c = "cx_committee cx"
  have vote: "(\<exists>a \<in> set (vb_ancestors b). a \<in> fset (sg_leaders sg) \<and> br_round a = vb_round b - 1) \<longleftrightarrow> leader_vote L b"
    using leaders by (auto simp: leader_vote_def strong_link_def)
  have fresh: "fmlookup (sg_votes sg) (vb_reference b) = None"
    using tallied new by (metis fmdomI image_eqI not_None_eq tallied_def)
  have none: "linkers (ps @ [b]) (vb_reference b) = {}"
    using order by (auto simp: linkers_def strong_link_def causal_order_append)
  have look: "fmlookup (sg_votes sg') r = (case fmlookup (sg_votes sg) r of
       Some agg \<Rightarrow> Some (if strong_link b r then sa_count ?c agg (vb_author b) else agg)
     | None \<Rightarrow> if r = vb_reference b \<and> leader_vote L b then Some sa_new else None)" for r
    unfolding votes tally_block_def vote by (cases "fmlookup (sg_votes sg) r") (simp_all add: strong_link_def)
  have "r |\<in>| fmdom (sg_votes sg') \<longleftrightarrow> (\<exists>v \<in> set (ps @ [b]). vb_reference v = r \<and> leader_vote L v)" for r
  proof -
    have "r |\<in>| fmdom (sg_votes sg') \<longleftrightarrow> r |\<in>| fmdom (sg_votes sg) \<or> (r = vb_reference b \<and> leader_vote L b)"
      using fresh by (auto simp: fmlookup_dom_iff look split: option.splits)
    then show ?thesis using tallied by (auto simp: tallied_def)
  qed
  moreover have "sa_inv ?c agg \<and> fset (sa_votes agg) = linkers (ps @ [b]) r" if agg: "fmlookup (sg_votes sg') r = Some agg" for r agg
  proof (cases "fmlookup (sg_votes sg) r")
    case None
    then show ?thesis using agg none by (auto simp: look split: if_splits)
  next
    case (Some agg0)
    then have old: "sa_inv ?c agg0" "fset (sa_votes agg0) = linkers ps r" using tallied by (auto simp: tallied_def)
    have "linkers (ps @ [b]) r = (if strong_link b r then insert (vb_author b) (linkers ps r) else linkers ps r)"
      by (auto simp: linkers_def)
    then show ?thesis using agg old Some author by (auto simp: look sa_inv_count split: if_splits)
  qed
  ultimately show ?thesis by (simp add: tallied_def)
qed

lemma sg_add_blocks_tally:
  assumes ok: "committee_ok (cx_committee cx)" and "foldM (sg_add_block cx) sg bs = Some sg'"
    and "tallied cx L ps (sg_votes sg)" and "sg_inv cx sg"
    and "\<forall>b \<in> set bs. vb_author b < committee_size (cx_committee cx) \<and> (\<forall>a. strong_link b a \<longrightarrow> (a |\<in>| sg_leaders sg \<longleftrightarrow> a \<in> L))"
    and "causal_order (ps @ bs)" and "distinct (map vb_reference (ps @ bs))"
  shows "tallied cx L (ps @ bs) (sg_votes sg') \<and> sg_inv cx sg' \<and> sg_leaders sg' = sg_leaders sg"
  using assms(2-)
proof (induction bs arbitrary: sg ps)
  case (Cons b bs)
  obtain sg1 where block: "sg_add_block cx sg b = Some sg1" and sg1: "foldM (sg_add_ancestor cx b) sg (vb_ancestors b) = Some sg1"
    "foldM (sg_add_block cx) sg1 bs = Some sg'"
    using Cons.prems(1) by (auto elim!: bind_SomeE simp: sg_add_block_def [symmetric])
  have b: "vb_author b < committee_size (cx_committee cx)" "vb_reference b \<notin> set (vb_ancestors b)" "causal_order (ps @ [b])"
    "vb_reference b \<notin> vb_reference ` set ps"
    using Cons.prems(4-6) by (auto simp: causal_order_append)
  note step = sg_add_block_tally [OF sg1(1) ok Cons.prems(3) b(1,2)]
  have "tallied cx L (ps @ [b]) (sg_votes sg1)"
    using tallied_step [OF Cons.prems(2,3) conjunct2 [OF step] _ b(3,4,1)] Cons.prems(4) by simp
  then have "tallied cx L ((ps @ [b]) @ bs) (sg_votes sg') \<and> sg_inv cx sg' \<and> sg_leaders sg' = sg_leaders sg1"
    using Cons.IH [OF sg1(2), of "ps @ [b]"] tally_block_inv [OF Cons.prems(3) b(1) conjunct2 [OF step]] Cons.prems(4-6) step by simp
  then show ?case using step by simp
qed simp

lemma add_subdags_tally:
  assumes ok: "committee_ok (cx_committee cx)" and "add_subdags cx sg sds = Some sg'"
    and "tallied cx (fset (sg_leaders sg) \<union> sd_leader ` set sds) ps (sg_votes sg)" and "sg_inv cx sg"
    and "\<forall>b \<in> set (concat (map sd_blocks sds)). vb_author b < committee_size (cx_committee cx)"
    and "\<forall>sd \<in> set sds. sd_leader sd \<in> vb_reference ` set (sd_blocks sd)"
    and "causal_order (ps @ concat (map sd_blocks sds))" and "distinct (map vb_reference (ps @ concat (map sd_blocks sds)))"
  shows "tallied cx (fset (sg_leaders sg) \<union> sd_leader ` set sds) (ps @ concat (map sd_blocks sds)) (sg_votes sg')"
  using assms(2-)
proof (induction sds arbitrary: sg ps)
  case (Cons sd sds)
  let ?L = "fset (sg_leaders sg) \<union> sd_leader ` set (sd # sds)"
  obtain sg1 sg2 where sg1: "sg_extend_range sg (cr_index (sd_commit_ref sd)) = Some sg1"
    and sg2: "foldM (sg_add_block cx) (sg1\<lparr>sg_leaders := finsert (sd_leader sd) (sg_leaders sg1)\<rparr>) (sd_blocks sd) = Some sg2"
    and rest: "add_subdags cx sg2 sds = Some sg'"
    using Cons.prems(1) by (auto simp: add_subdags_def sg_add_subdag_def elim!: bind_SomeE)
  have frame: "sg_votes sg1 = sg_votes sg" "sg_leaders sg1 = sg_leaders sg" "sg_inv cx sg1"
    using sg1 Cons.prems(3) by (auto simp: sg_extend_range_def sg_inv_def split: option.splits elim!: bind_SomeE)
  have later: "a \<notin> sd_leader ` set sds" if "b \<in> set (sd_blocks sd)" "strong_link b a" for a b
    using that Cons.prems(5,6) by (fastforce simp: strong_link_def causal_order_append)
  have "tallied cx ?L (ps @ sd_blocks sd) (sg_votes sg2) \<and> sg_inv cx sg2 \<and> sg_leaders sg2 = finsert (sd_leader sd) (sg_leaders sg)"
  proof -
    let ?sg = "sg1\<lparr>sg_leaders := finsert (sd_leader sd) (sg_leaders sg1)\<rparr>"
    have "tallied cx ?L (ps @ sd_blocks sd) (sg_votes sg2) \<and> sg_inv cx sg2 \<and> sg_leaders sg2 = sg_leaders ?sg"
    proof (rule sg_add_blocks_tally [OF ok sg2])
      show "\<forall>b \<in> set (sd_blocks sd). vb_author b < committee_size (cx_committee cx) \<and>
          (\<forall>a. strong_link b a \<longrightarrow> (a |\<in>| sg_leaders ?sg \<longleftrightarrow> a \<in> ?L))"
        using Cons.prems(4) later by (auto simp: frame)
      show "distinct (map vb_reference (ps @ sd_blocks sd))" using Cons.prems(7) by auto
    qed (use Cons.prems(2,6) frame in \<open>simp_all add: causal_order_append\<close>)
    then show ?thesis by (simp add: frame)
  qed
  then show ?case using Cons.IH [OF rest, of "ps @ sd_blocks sd"] Cons.prems(4-7) by simp
qed (simp add: add_subdags_def)

lemma score_loop:
  assumes "\<forall>(v, agg) \<in> set kvs. br_author v < length scores" and "\<forall>s \<in> set scores. s < 2 ^ 64"
  shows "\<exists>scores'. foldM (\<lambda>scores (vote, agg). do {
         current \<leftarrow> vec_get scores (br_author vote);
         vec_set scores (br_author vote) (wrap64 (current + sa_stake agg))
       }) scores kvs = Some scores' \<and> length scores' = length scores \<and>
     (\<forall>i < length scores. scores' ! i =
        (scores ! i + (\<Sum>(v, agg) \<leftarrow> filter (\<lambda>(v, agg). br_author v = i) kvs. sa_stake agg)) mod 2 ^ 64)"
  using assms
proof (induction kvs arbitrary: scores)
  case (Cons kv kvs)
  obtain v agg where kv: "kv = (v, agg)" by (cases kv)
  let ?s = "scores[br_author v := wrap64 (scores ! br_author v + sa_stake agg)]"
  have "\<forall>s \<in> set ?s. s < 2 ^ 64"
    using Cons.prems(2) wrap64_less set_update_subset_insert [of scores] by fastforce
  then obtain s' where s': "foldM (\<lambda>scores (vote, agg). do {
         current \<leftarrow> vec_get scores (br_author vote);
         vec_set scores (br_author vote) (wrap64 (current + sa_stake agg))
       }) ?s kvs = Some s'" "length s' = length scores"
    "\<forall>i < length scores. s' ! i =
        (?s ! i + (\<Sum>(v, agg) \<leftarrow> filter (\<lambda>(v, agg). br_author v = i) kvs. sa_stake agg)) mod 2 ^ 64"
    using Cons.IH [of ?s] Cons.prems(1) by auto
  have "br_author v < length scores" using Cons.prems(1) kv by auto
  with s' kv show ?case
    by (auto simp: nth_list_update wrap64_def mod_add_left_eq add.assoc simp del: foldM.simps(1))
qed auto

lemma sum_list_sorted_fmap:
  "(\<Sum>(v, agg) \<leftarrow> filter (\<lambda>(v, agg). P v) (sorted_list_of_fmap m). f agg) =
     (\<Sum>v \<in> {v. v |\<in>| fmdom m \<and> P v}. f (the (fmlookup m v)))"
proof -
  let ?kvs = "filter (\<lambda>(v, agg). P v) (sorted_list_of_fmap m)"
  have "(\<Sum>(v, agg) \<leftarrow> ?kvs. f agg) = (\<Sum>(v, agg) \<in> set ?kvs. f agg)"
    by (rule sum_list_map_distinct) simp
  also have "\<dots> = (\<Sum>v \<in> {v. v |\<in>| fmdom m \<and> P v}. f (the (fmlookup m v)))"
    by (rule sum.reindex_bij_witness [of _ "\<lambda>v. (v, the (fmlookup m v))" fst])
      (auto simp: fmlookup_dom_iff)
  finally show ?thesis .
qed

text \<open>The scores of a vote map.\<close>

lemma vote_map_scores:
  assumes "sg_inv cx sg" and "sg_commit_range sg = Some r"
  shows "\<exists>rs. calculate_distributed_vote_scores cx sg = Some rs \<and> rs_commit_range rs = r \<and>
     length (rs_scores_per_authority rs) = committee_size (cx_committee cx) \<and>
     (\<forall>i < committee_size (cx_committee cx). rs_scores_per_authority rs ! i =
        (\<Sum>v \<in> {v. v |\<in>| fmdom (sg_votes sg) \<and> br_author v = i}.
           weight (cx_committee cx) (fset (sa_votes (the (fmlookup (sg_votes sg) v))))) mod 2 ^ 64)"
proof -
  let ?n = "committee_size (cx_committee cx)" and ?kvs = "sorted_list_of_fmap (sg_votes sg)"
  have "\<forall>(v, agg) \<in> set ?kvs. br_author v < length (replicate ?n 0)"
    using assms(1) by (auto simp: sg_inv_def)
  then obtain scores where scores: "distributed_votes_scores cx sg = Some scores" "length scores = ?n"
    "\<forall>i < ?n. scores ! i = (\<Sum>(v, agg) \<leftarrow> filter (\<lambda>(v, agg). br_author v = i) ?kvs. sa_stake agg) mod 2 ^ 64"
    using score_loop [of ?kvs "replicate ?n 0"] by (auto simp: distributed_votes_scores_def)
  have "sa_stake (the (fmlookup (sg_votes sg) v)) = weight (cx_committee cx) (fset (sa_votes (the (fmlookup (sg_votes sg) v))))"
    if "v |\<in>| fmdom (sg_votes sg)" for v
    using that assms(1) by (auto simp: sg_inv_def fmlookup_dom_iff sa_inv_stake)
  then have "(\<Sum>(v, agg) \<leftarrow> filter (\<lambda>(v, agg). br_author v = i) ?kvs. sa_stake agg) =
      (\<Sum>v \<in> {v. v |\<in>| fmdom (sg_votes sg) \<and> br_author v = i}.
         weight (cx_committee cx) (fset (sa_votes (the (fmlookup (sg_votes sg) v)))))" for i
    unfolding sum_list_sorted_fmap by (intro sum.cong) auto
  with scores assms(2) show ?thesis
    by (simp add: calculate_distributed_vote_scores_def reputation_scores_new_def)
qed

definition example_votes :: scoring_subdag where
  "example_votes = \<lparr>sg_commit_range = Some (CommitRange 1 3), sg_leaders = {|BlockRef 1 0 0|},
     sg_votes = fmupd (BlockRef 2 3 0) \<lparr>sa_votes = {|0, 1, 2|}, sa_stake = 3\<rparr> fmempty\<rparr>"

lemma sg_inv_example: "sg_inv example_context example_votes"
  by (auto simp: sg_inv_def example_votes_def sa_inv_def split: if_splits)

section \<open>Properties\<close>

text \<open>
  C30: the score of an authority is the total, over its committed blocks that vote for a committed leader, of
  the stake of the authorities with a committed block that strongly links to the vote (as a 64-bit sum).
  The sub-dags are scored one after the other from a fresh scoring sub-dag; they hold their leaders,
  no block twice, and no block before one it links to, and no block votes for two leaders.
\<close>

theorem distributed_scores:
  assumes ok: "committee_ok (cx_committee cx)"
    and blocks: "\<forall>b \<in> set (concat (map sd_blocks sds)). vb_author b < committee_size (cx_committee cx) \<and>
           single_vote (sd_leader ` set sds) b"
    and leaders: "\<forall>sd \<in> set sds. sd_leader sd \<in> vb_reference ` set (sd_blocks sd)"
    and distinct: "distinct (map vb_reference (concat (map sd_blocks sds)))"
    and order: "causal_order (concat (map sd_blocks sds))"
    and indices: "sorted (map (\<lambda>sd. cr_index (sd_commit_ref sd)) sds)" and some: "sds \<noteq> []"
  shows "\<exists>sg rs. add_subdags cx sg_new sds = Some sg \<and> calculate_distributed_vote_scores cx sg = Some rs \<and>
     length (rs_scores_per_authority rs) = committee_size (cx_committee cx) \<and>
     (\<forall>i < committee_size (cx_committee cx). rs_scores_per_authority rs ! i =
        (\<Sum>v \<in> {v \<in> set (concat (map sd_blocks sds)). vb_author v = i \<and> leader_vote (sd_leader ` set sds) v}.
           weight (cx_committee cx) (linkers (concat (map sd_blocks sds)) (vb_reference v))) mod 2 ^ 64)"
proof -
  let ?c = "cx_committee cx" and ?L = "sd_leader ` set sds" and ?bs = "concat (map sd_blocks sds)"
  obtain sg where sg: "add_subdags cx sg_new sds = Some sg" "sg_inv cx sg" "sg_commit_range sg \<noteq> None"
    using add_subdags_total [OF ok sg_inv_new, of sds ?L] blocks distinct indices some by (auto simp: sg_new_def)
  have "tallied cx ?L ?bs (sg_votes sg)"
    using add_subdags_tally [OF ok sg(1), of "[]"] blocks leaders distinct order sg_inv_new
    by (simp add: tallied_def sg_new_def)
  then have dom: "r |\<in>| fmdom (sg_votes sg) \<longleftrightarrow> (\<exists>v \<in> set ?bs. vb_reference v = r \<and> leader_vote ?L v)"
    and agg: "fmlookup (sg_votes sg) r = Some agg \<Longrightarrow> fset (sa_votes agg) = linkers ?bs r" for r agg
    by (simp_all add: tallied_def)
  have sum: "(\<Sum>r \<in> {r. r |\<in>| fmdom (sg_votes sg) \<and> br_author r = i}. weight ?c (fset (sa_votes (the (fmlookup (sg_votes sg) r))))) =
      (\<Sum>v \<in> {v \<in> set ?bs. vb_author v = i \<and> leader_vote ?L v}. weight ?c (linkers ?bs (vb_reference v)))" for i
  proof (rule sum.reindex_cong)
    show "inj_on vb_reference {v \<in> set ?bs. vb_author v = i \<and> leader_vote ?L v}"
      using distinct by (auto simp: distinct_map inj_on_def)
    show "{r. r |\<in>| fmdom (sg_votes sg) \<and> br_author r = i} = vb_reference ` {v \<in> set ?bs. vb_author v = i \<and> leader_vote ?L v}"
      by (auto simp: dom)
    fix v
    assume v: "v \<in> {v \<in> set ?bs. vb_author v = i \<and> leader_vote ?L v}"
    then have "vb_reference v |\<in>| fmdom (sg_votes sg)" unfolding dom by blast
    then show "weight ?c (fset (sa_votes (the (fmlookup (sg_votes sg) (vb_reference v))))) = weight ?c (linkers ?bs (vb_reference v))"
      using agg by (auto simp: fmlookup_dom_iff)
  qed
  obtain rs where rs: "calculate_distributed_vote_scores cx sg = Some rs" "length (rs_scores_per_authority rs) = committee_size ?c"
    "\<forall>i < committee_size ?c. rs_scores_per_authority rs ! i =
        (\<Sum>r \<in> {r. r |\<in>| fmdom (sg_votes sg) \<and> br_author r = i}. weight ?c (fset (sa_votes (the (fmlookup (sg_votes sg) r))))) mod 2 ^ 64"
    using vote_map_scores [OF sg(2)] sg(3) by blast
  show ?thesis using sg(1) rs(1,2) rs(3) [unfolded sum] by (intro exI conjI)
qed

text \<open>
  A leader, a vote for it by authority 2 and a later leader that links to the vote: the vote is worth the
  stake of authority 1.
\<close>

definition example_subdags :: "committed_sub_dag list" where
  "example_subdags =
     [committed_sub_dag_new (BlockRef 1 0 0) [example_block 1 0 0 []] 10 (CommitRef 1 0),
      committed_sub_dag_new (BlockRef 3 1 0)
        [example_block 2 2 0 [BlockRef 1 0 0], example_block 3 1 0 [BlockRef 2 2 0]] 20 (CommitRef 2 0)]"

theorem distributed_scores_witness:
  "\<exists>sg rs. add_subdags example_context sg_new example_subdags = Some sg \<and>
     calculate_distributed_vote_scores example_context sg = Some rs \<and>
     rs_scores_per_authority rs ! 2 = 1 \<and> rs_scores_per_authority rs ! 1 = 0"
proof -
  let ?bs = "concat (map sd_blocks example_subdags)" and ?L = "sd_leader ` set example_subdags"
  have "\<exists>sg rs. add_subdags example_context sg_new example_subdags = Some sg \<and> calculate_distributed_vote_scores example_context sg = Some rs \<and>
     length (rs_scores_per_authority rs) = committee_size (cx_committee example_context) \<and>
     (\<forall>i < committee_size (cx_committee example_context). rs_scores_per_authority rs ! i =
        (\<Sum>v \<in> {v \<in> set ?bs. vb_author v = i \<and> leader_vote ?L v}.
           weight (cx_committee example_context) (linkers ?bs (vb_reference v))) mod 2 ^ 64)"
    by (rule distributed_scores)
      (simp_all add: example_subdags_def committed_sub_dag_new_def single_vote_def vb_reference_def)
  then obtain sg rs where run: "add_subdags example_context sg_new example_subdags = Some sg"
      "calculate_distributed_vote_scores example_context sg = Some rs"
    and score: "\<And>i. i < 4 \<Longrightarrow> rs_scores_per_authority rs ! i = (\<Sum>v \<in> {v \<in> set ?bs. vb_author v = i \<and> leader_vote ?L v}.
           weight (cx_committee example_context) (linkers ?bs (vb_reference v))) mod 2 ^ 64" by auto
  have votes: "{v \<in> set ?bs. vb_author v = 2 \<and> leader_vote ?L v} = {example_block 2 2 0 [BlockRef 1 0 0]}"
    "{v \<in> set ?bs. vb_author v = 1 \<and> leader_vote ?L v} = {}"
    by (auto simp: example_subdags_def committed_sub_dag_new_def leader_vote_def strong_link_def vb_reference_def)
  have link: "linkers ?bs (BlockRef 2 2 0) = {1}"
    by (auto intro: exI [of _ "example_block 3 1 0 [BlockRef 2 2 0]"]
      simp: example_subdags_def committed_sub_dag_new_def strong_link_def linkers_def vb_reference_def)
  have vote: "vb_reference (example_block 2 2 0 [BlockRef 1 0 0]) = BlockRef 2 2 0" by (simp add: vb_reference_def)
  have "rs_scores_per_authority rs ! 2 = 1" using score [of 2, unfolded votes(1)] by (simp add: vote link del: One_nat_def)
  moreover have "rs_scores_per_authority rs ! 1 = 0" using score [of 1, unfolded votes(2)] by simp
  ultimately show ?thesis using run by blast
qed

text \<open>
  C31: adding committed sub-dags to a fresh scoring sub-dag never panics when their commit indices
  ascend, no block occurs twice, the authors are valid and no block has two strong links to leaders;
  afterwards the scores can be computed.
\<close>

theorem scoring_never_panics:
  assumes "committee_ok (cx_committee cx)"
    and "\<forall>b \<in> set (concat (map sd_blocks sds)). vb_author b < committee_size (cx_committee cx) \<and>
           single_vote (sd_leader ` set sds) b"
    and "distinct (map vb_reference (concat (map sd_blocks sds)))"
    and "sorted (map (\<lambda>sd. cr_index (sd_commit_ref sd)) sds)"
  shows "\<exists>sg. add_subdags cx sg_new sds = Some sg \<and> (sds \<noteq> [] \<longrightarrow>
     (\<exists>rs. calculate_distributed_vote_scores cx sg = Some rs))"
proof -
  obtain sg where "add_subdags cx sg_new sds = Some sg" "sg_inv cx sg"
    "sds \<noteq> [] \<longrightarrow> sg_commit_range sg \<noteq> None"
    using add_subdags_total [OF assms(1) sg_inv_new, of sds "sd_leader ` set sds"] assms
    by (auto simp: sg_new_def)
  moreover have "\<exists>scores. distributed_votes_scores cx sg = Some scores"
    using score_loop [of "sorted_list_of_fmap (sg_votes sg)" "replicate (committee_size (cx_committee cx)) 0"]
      \<open>sg_inv cx sg\<close> by (fastforce simp: distributed_votes_scores_def sg_inv_def)
  ultimately show ?thesis by (auto simp: calculate_distributed_vote_scores_def)
qed

theorem scoring_never_panics_witness:
  "\<exists>sg rs. add_subdags example_context sg_new example_subdags = Some sg \<and>
     calculate_distributed_vote_scores example_context sg = Some rs"
proof -
  have "\<exists>sg. add_subdags example_context sg_new example_subdags = Some sg \<and>
      (example_subdags \<noteq> [] \<longrightarrow> (\<exists>rs. calculate_distributed_vote_scores example_context sg = Some rs))"
    by (rule scoring_never_panics)
      (simp_all add: example_subdags_def committed_sub_dag_new_def single_vote_def vb_reference_def)
  then show ?thesis by (auto simp: example_subdags_def)
qed

end
