(* ===== verification/Threshold_Clock.thy ===== *)
theory Threshold_Clock
  imports Blocks
begin

text \<open>
  The threshold clock of \<open>consensus/core/src/threshold_clock.rs\<close>, which moves to round \<open>r + 1\<close> when it
  has seen blocks of round \<open>r\<close> from a quorum. The lemmas relate the clock to the history of the
  block references it was given. The local time is an argument of the operations.
\<close>

section \<open>Definitions\<close>

record threshold_clock =
  tk_aggregator :: stake_aggregator
  tk_round :: round
  tk_quorum_ts :: timestamp_ms

definition threshold_clock_new :: "timestamp_ms \<Rightarrow> round \<Rightarrow> threshold_clock" where
  "threshold_clock_new now r = \<lparr>tk_aggregator = sa_new, tk_round = r, tk_quorum_ts = now\<rparr>"

definition tk_add_block ::
  "consensus_context \<Rightarrow> timestamp_ms \<Rightarrow> threshold_clock \<Rightarrow> block_ref \<Rightarrow> (threshold_clock \<times> bool) option" where
  "tk_add_block cx now k b =
     (if br_round b < tk_round k then Some (k, False)
      else if br_round b > tk_round k then do {
        let agg = sa_clear (tk_aggregator k);
        (agg', _) \<leftarrow> sa_add QuorumThreshold (cx_committee cx) agg (br_author b);
        Some (k\<lparr>tk_aggregator := agg', tk_round := br_round b, tk_quorum_ts := now\<rparr>, False)
      }
      else do {
        (agg', reached) \<leftarrow> sa_add QuorumThreshold (cx_committee cx) (tk_aggregator k) (br_author b);
        if reached
        then Some (k\<lparr>tk_aggregator := sa_clear agg', tk_round := br_round b + 1, tk_quorum_ts := now\<rparr>, True)
        else Some (k\<lparr>tk_aggregator := agg'\<rparr>, False)
      })"

definition tk_get_round :: "threshold_clock \<Rightarrow> round" where
  "tk_get_round k = tk_round k"

definition tk_get_quorum_ts :: "threshold_clock \<Rightarrow> timestamp_ms" where
  "tk_get_quorum_ts k = tk_quorum_ts k"

text \<open>A clock fed with a sequence of references, each with the time of its arrival.\<close>

definition tk_run ::
  "consensus_context \<Rightarrow> threshold_clock \<Rightarrow> (timestamp_ms \<times> block_ref) list \<Rightarrow> threshold_clock option" where
  "tk_run cx k bs = foldM (\<lambda>k (now, b). map_option fst (tk_add_block cx now k b)) k bs"

section \<open>The clock and its history\<close>

definition authors_at :: "block_ref set \<Rightarrow> round \<Rightarrow> authority_index set" where
  "authors_at H r = {br_author b |b. b \<in> H \<and> br_round b = r}"

text \<open>
  \<open>H\<close> are the references added so far to a clock that started at round \<open>r0\<close>: the clock is at least
  at every round of \<open>H\<close>, its aggregator holds the authors of its round, and it got where it is from
  its start, from a block of its round or from a quorum of the round before.
\<close>

definition tk_inv :: "consensus_context \<Rightarrow> round \<Rightarrow> block_ref set \<Rightarrow> threshold_clock \<Rightarrow> bool" where
  "tk_inv cx r0 H k \<longleftrightarrow>
     sa_inv (cx_committee cx) (tk_aggregator k) \<and>
     fset (sa_votes (tk_aggregator k)) = authors_at H (tk_round k) \<and>
     r0 \<le> tk_round k \<and> (\<forall>b \<in> H. br_round b \<le> tk_round k) \<and>
     (tk_round k = r0 \<or> (\<exists>b \<in> H. br_round b = tk_round k) \<or>
        reached_quorum (cx_committee cx) (weight (cx_committee cx) (authors_at H (tk_round k - 1))))"

section \<open>Lemmas\<close>

lemma authors_at_insert:
  "authors_at (insert b H) r = (if br_round b = r then insert (br_author b) (authors_at H r) else authors_at H r)"
  by (auto simp: authors_at_def)

lemma authors_at_above: "\<forall>b \<in> H. br_round b < r \<Longrightarrow> authors_at H r = {}"
  by (auto simp: authors_at_def)

lemma tk_inv_new [wf_intros]: "tk_inv cx r0 {} (threshold_clock_new now r0)"
  by (simp add: tk_inv_def threshold_clock_new_def authors_at_def)

lemma tk_add_block_eq [panic_simps]:
  assumes "committee_ok (cx_committee cx)" and "tk_inv cx r0 H k" and "br_author b < committee_size (cx_committee cx)"
  shows "tk_add_block cx now k b = Some (
     let c = cx_committee cx; agg = sa_count c (tk_aggregator k) (br_author b) in
     if br_round b < tk_round k then (k, False)
     else if br_round b > tk_round k then
       (k\<lparr>tk_aggregator := sa_count c (sa_clear (tk_aggregator k)) (br_author b), tk_round := br_round b,
          tk_quorum_ts := now\<rparr>, False)
     else if reached_quorum c (sa_stake agg)
     then (k\<lparr>tk_aggregator := sa_clear agg, tk_round := br_round b + 1, tk_quorum_ts := now\<rparr>, True)
     else (k\<lparr>tk_aggregator := agg\<rparr>, False))"
  using assms by (simp add: tk_add_block_def tk_inv_def sa_add_eq Let_def)

lemma sa_stake_count: "sa_stake (sa_count c sa v) = weight c (insert v (fset (sa_votes sa)))"
  by (simp add: sa_count_def)

lemma tk_inv_add [wf_intros]:
  assumes "committee_ok (cx_committee cx)" and inv: "tk_inv cx r0 H k"
    and "br_author b < committee_size (cx_committee cx)" and add: "tk_add_block cx now k b = Some (k', adv)"
  shows "tk_inv cx r0 (insert b H) k'"
proof -
  consider "br_round b < tk_round k" | "br_round b > tk_round k" | "br_round b = tk_round k" by linarith
  then show ?thesis
  proof cases
    case 1
    then have "k' = k" using add by (simp add: tk_add_block_def)
    moreover have "reached_quorum (cx_committee cx) (weight (cx_committee cx) (authors_at (insert b H) r))"
      if "reached_quorum (cx_committee cx) (weight (cx_committee cx) (authors_at H r))" for r
      using that by (rule cq.quorum_superset) (auto simp: authors_at_insert)
    moreover have "authors_at (insert b H) (tk_round k) = authors_at H (tk_round k)"
      using 1 by (simp add: authors_at_insert)
    ultimately show ?thesis using 1 inv by (auto simp: tk_inv_def)
  next
    case 2
    then have "\<forall>b' \<in> H. br_round b' < br_round b" using inv by (auto simp: tk_inv_def)
    then have "authors_at H (br_round b) = {}" by (rule authors_at_above)
    moreover have "k' = k\<lparr>tk_aggregator := sa_count (cx_committee cx) (sa_clear (tk_aggregator k)) (br_author b),
        tk_round := br_round b, tk_quorum_ts := now\<rparr>"
      using 2 assms by (simp add: tk_add_block_eq Let_def)
    ultimately show ?thesis
      using 2 inv assms(3) by (fastforce simp: tk_inv_def authors_at_insert sa_inv_count)
  next
    case 3
    then have above: "authors_at H (Suc (tk_round k)) = {}"
      using inv by (intro authors_at_above) (auto simp: tk_inv_def less_Suc_eq_le)
    let ?agg = "sa_count (cx_committee cx) (tk_aggregator k) (br_author b)"
    have agg: "sa_inv (cx_committee cx) ?agg" "fset (sa_votes ?agg) = authors_at (insert b H) (tk_round k)"
      using 3 inv assms(3) by (auto simp: tk_inv_def authors_at_insert sa_inv_count)
    have below: "\<forall>b' \<in> insert b H. br_round b' \<le> tk_round k" and "r0 \<le> tk_round k"
      using 3 inv by (auto simp: tk_inv_def)
    show ?thesis
    proof (cases "reached_quorum (cx_committee cx) (sa_stake ?agg)")
      case True
      then have "k' = k\<lparr>tk_aggregator := sa_clear ?agg, tk_round := tk_round k + 1, tk_quorum_ts := now\<rparr>"
        using 3 assms by (simp add: tk_add_block_eq Let_def)
      moreover have "authors_at (insert b H) (Suc (tk_round k)) = {}"
        using 3 above by (simp add: authors_at_insert)
      ultimately show ?thesis
        using True below \<open>r0 \<le> tk_round k\<close> sa_inv_stake [OF agg(1)] agg(2) by (simp add: tk_inv_def le_SucI)
    next
      case False
      then have "k' = k\<lparr>tk_aggregator := ?agg\<rparr>"
        using 3 assms by (simp add: tk_add_block_eq Let_def)
      then show ?thesis
        using 3 below \<open>r0 \<le> tk_round k\<close> agg by (simp add: tk_inv_def)
    qed
  qed
qed

lemma tk_run_inv:
  assumes "committee_ok (cx_committee cx)" and "\<forall>(now, b) \<in> set bs. br_author b < committee_size (cx_committee cx)"
    and "tk_inv cx r0 H k"
  shows "\<exists>k'. tk_run cx k bs = Some k' \<and> tk_inv cx r0 (snd ` set bs \<union> H) k'"
  using assms
proof (induction bs arbitrary: k H)
  case (Cons p bs)
  obtain now b where p: "p = (now, b)" by (cases p)
  have "tk_add_block cx now k b \<noteq> None"
    using Cons.prems p by (subst tk_add_block_eq) auto
  then obtain k' adv where add: "tk_add_block cx now k b = Some (k', adv)" by auto
  have "tk_inv cx r0 (insert b H) k'"
    using Cons.prems p by (intro tk_inv_add [OF _ _ _ add]) auto
  then have "\<exists>k''. tk_run cx k' bs = Some k'' \<and> tk_inv cx r0 (snd ` set bs \<union> insert b H) k''"
    using Cons.prems by (intro Cons.IH) auto
  with add p show ?case by (auto simp: tk_run_def)
qed (simp add: tk_run_def)

lemma weight_singleton: "i < committee_size c \<Longrightarrow> weight c {i} = authority_weight c i"
  using weight_insert [of i "{}" c] by simp

text \<open>
  The aggregator rests at a quorum only after a jump to the round of a block whose author reaches a quorum alone: the
  jump does not look at the result of \<open>add\<close>.
\<close>

definition rests_below :: "consensus_context \<Rightarrow> threshold_clock \<Rightarrow> bool" where
  "rests_below cx k \<longleftrightarrow> (let c = cx_committee cx in reached_quorum c (sa_stake (tk_aggregator k)) \<longrightarrow>
     (\<exists>a. a |\<in>| sa_votes (tk_aggregator k) \<and> reached_quorum c (authority_weight c a)))"

lemma rests_below_add:
  assumes ok: "committee_ok (cx_committee cx)" and inv: "tk_inv cx r0 H k" and author: "br_author b < committee_size (cx_committee cx)"
    and add: "tk_add_block cx now k b = Some (k', adv)" and rest: "rests_below cx k"
  shows "rests_below cx k'"
proof -
  let ?c = "cx_committee cx"
  have "\<not> reached_quorum ?c 0" using is_threshold_0 [OF ok, of QuorumThreshold] by simp
  then show ?thesis
    using add rest weight_singleton [OF author] unfolding tk_add_block_eq [OF ok inv author]
    by (auto simp: rests_below_def Let_def sa_stake_count sa_clear_def split: if_splits)
qed

lemma tk_run_rests_below:
  assumes "committee_ok (cx_committee cx)" and "\<forall>(now, b) \<in> set bs. br_author b < committee_size (cx_committee cx)"
    and "tk_inv cx r0 H k" and "rests_below cx k" and "tk_run cx k bs = Some k'"
  shows "rests_below cx k'"
  using assms(2-)
proof (induction bs arbitrary: k H)
  case (Cons p bs)
  obtain now b where p: "p = (now, b)" by (cases p)
  from Cons.prems(4) p obtain k1 adv where add: "tk_add_block cx now k b = Some (k1, adv)" and run: "tk_run cx k1 bs = Some k'"
    by (auto simp: tk_run_def elim!: bind_SomeE)
  have author: "br_author b < committee_size (cx_committee cx)" using Cons.prems(1) p by auto
  have "tk_inv cx r0 (insert b H) k1" using assms(1) Cons.prems(2) author add by (rule tk_inv_add)
  then show ?case using Cons.IH Cons.prems(1) run rests_below_add [OF assms(1) Cons.prems(2) author add Cons.prems(3)] by auto
qed (simp add: tk_run_def)

section \<open>Properties\<close>

text \<open>
  C21: fed with any sequence of references by valid authors, the clock does not panic; it ends at
  least at every round it was shown, and where it ends is its start, the round of a block it was
  shown, or the round after one for which a quorum of authors showed blocks.
\<close>

theorem clock_round_justified:
  assumes "committee_ok (cx_committee cx)"
    and "\<forall>(now, b) \<in> set bs. br_author b < committee_size (cx_committee cx)"
  shows "\<exists>k. tk_run cx (threshold_clock_new t r0) bs = Some k \<and>
     r0 \<le> tk_get_round k \<and> (\<forall>(now, b) \<in> set bs. br_round b \<le> tk_get_round k) \<and>
     (tk_get_round k = r0 \<or> (\<exists>(now, b) \<in> set bs. br_round b = tk_get_round k) \<or>
      reached_quorum (cx_committee cx) (weight (cx_committee cx)
        {br_author b |now b. (now, b) \<in> set bs \<and> br_round b = tk_get_round k - 1}))"
proof -
  obtain k where run: "tk_run cx (threshold_clock_new t r0) bs = Some k"
    and inv: "tk_inv cx r0 (snd ` set bs) k"
    using tk_run_inv [OF assms tk_inv_new] by auto
  have "authors_at (snd ` set bs) r = {br_author b |now b. (now, b) \<in> set bs \<and> br_round b = r}" for r
    by (force simp: authors_at_def)
  with run inv show ?thesis by (fastforce simp: tk_inv_def tk_get_round_def)
qed

theorem clock_round_justified_witness:
  "\<exists>k. tk_run example_context (threshold_clock_new 0 1)
       [(5, BlockRef 1 0 0), (6, BlockRef 3 2 0)] = Some k \<and> 3 \<le> tk_get_round k"
  using clock_round_justified [of example_context "[(5, BlockRef 1 0 0), (6, BlockRef 3 2 0)]" 0 1]
  by auto

text \<open>
  C22: a clock that was shown blocks of round \<open>r\<close> from a quorum of authors is past round \<open>r\<close>, unless it
  rests at \<open>r\<close> and the author of one of these blocks reaches a quorum alone. Then the quorum was
  seen in the jump to round \<open>r\<close>, where the result of \<open>add\<close> is not looked at.
\<close>

theorem clock_passes_quorum:
  assumes ok: "committee_ok (cx_committee cx)"
    and authors: "\<forall>(now, b) \<in> set bs. br_author b < committee_size (cx_committee cx)"
    and run: "tk_run cx (threshold_clock_new t r0) bs = Some k"
    and quorum: "reached_quorum (cx_committee cx) (weight (cx_committee cx)
        {br_author b |now b. (now, b) \<in> set bs \<and> br_round b = r})"
  shows "r < tk_get_round k \<or> r = tk_get_round k \<and> (\<exists>now b. (now, b) \<in> set bs \<and> br_round b = r \<and>
     reached_quorum (cx_committee cx) (authority_weight (cx_committee cx) (br_author b)))"
proof -
  let ?c = "cx_committee cx"
  have eq: "authors_at (snd ` set bs) r = {br_author b |now b. (now, b) \<in> set bs \<and> br_round b = r}" for r
    by (force simp: authors_at_def)
  have inv: "tk_inv cx r0 (snd ` set bs) k"
    using tk_run_inv [OF ok authors tk_inv_new, of t r0] run by auto
  have zero: "\<not> reached_quorum ?c 0" using is_threshold_0 [OF ok, of QuorumThreshold] by simp
  have below: "rests_below cx k"
    using tk_run_rests_below [OF ok authors tk_inv_new _ run] zero by (simp add: rests_below_def threshold_clock_new_def)
  have "\<exists>b \<in> snd ` set bs. br_round b = r"
  proof (rule ccontr)
    assume "\<not> ?thesis"
    then have "authors_at (snd ` set bs) r = {}" by (auto simp: authors_at_def)
    with quorum [folded eq] zero show False by simp
  qed
  then have "r \<le> tk_round k" using inv by (auto simp: tk_inv_def)
  moreover have "\<exists>now b. (now, b) \<in> set bs \<and> br_round b = r \<and> reached_quorum ?c (authority_weight ?c (br_author b))" if "r = tk_round k"
  proof -
    have votes: "fset (sa_votes (tk_aggregator k)) = authors_at (snd ` set bs) r" "sa_inv ?c (tk_aggregator k)"
      using inv that by (simp_all add: tk_inv_def)
    then have "reached_quorum ?c (sa_stake (tk_aggregator k))" using quorum [folded eq] by (simp add: sa_inv_stake)
    then obtain a where "a \<in> authors_at (snd ` set bs) r" "reached_quorum ?c (authority_weight ?c a)"
      using below votes(1) by (auto simp: rests_below_def Let_def)
    then show ?thesis by (auto simp: eq)
  qed
  ultimately show ?thesis by (auto simp: tk_get_round_def)
qed

definition example_clock_input :: "(timestamp_ms \<times> block_ref) list" where
  "example_clock_input = [(1, BlockRef 2 0 0), (2, BlockRef 2 2 0), (3, BlockRef 2 1 0)]"

theorem clock_passes_quorum_witness:
  "\<exists>k. tk_run example_context (threshold_clock_new 0 1) example_clock_input = Some k \<and> 2 < tk_get_round k"
proof -
  obtain k where run: "tk_run example_context (threshold_clock_new 0 1) example_clock_input = Some k"
    using tk_run_inv [OF _ _ tk_inv_new, of example_context example_clock_input 0 1]
    by (auto simp: example_clock_input_def)
  have alone: "\<not> reached_quorum (cx_committee example_context) (authority_weight (cx_committee example_context) i)" if "i < 4" for i
    using that by (auto simp: reached_quorum_def weight_singleton [symmetric])
  have authors: "{br_author b |now b. (now, b) \<in> set example_clock_input \<and> br_round b = 2} = {0, 1, 2}"
    by (simp add: example_clock_input_def set_eq_iff) (metis block_ref.sel(1,2))
  have "2 < tk_get_round k \<or> 2 = tk_get_round k \<and> (\<exists>now b. (now, b) \<in> set example_clock_input \<and> br_round b = 2 \<and>
     reached_quorum (cx_committee example_context) (authority_weight (cx_committee example_context) (br_author b)))"
    by (rule clock_passes_quorum [OF _ _ run]) (simp_all add: authors reached_quorum_def, simp add: example_clock_input_def)
  then have "2 < tk_get_round k" using alone by (auto simp: example_clock_input_def)
  with run show ?thesis by blast
qed

end
