(* ===== verification/Dag_State.thy ===== *)
theory Dag_State
  imports Store Leader_Scoring Threshold_Clock
begin

text \<open>
  \<open>consensus/core/src/dag_state.rs\<close>: the accepted blocks, cached in memory and kept in the store, and
  the state of the commits. One definition per method; the local time the Rust code reads is an
  argument, metrics and logging are left out. Traversals that end only because ancestors have lower
  rounds are partial functions: \<open>None\<close> is then a panic or a traversal that does not end, and the
  lemmas show that neither happens on a well-formed state.
\<close>

section \<open>State\<close>

record block_info =
  bi_block :: verified_block
  bi_committed :: bool
  bi_hard_linked :: bool

definition block_info_new :: "verified_block \<Rightarrow> block_info" where
  "block_info_new b = \<lparr>bi_block = b, bi_committed = False, bi_hard_linked = False\<rparr>"

record dag_state =
  ds_genesis :: "(block_ref, verified_block) fmap"
  ds_recent_blocks :: "(block_ref, block_info) fmap"
  ds_recent_refs_by_authority :: "block_ref fset list"
  ds_threshold_clock :: threshold_clock
  ds_evicted_rounds :: "round list"
  ds_highest_accepted_round :: round
  ds_last_commit :: "trusted_commit option"
  ds_last_commit_round_advancement_time :: "timestamp_ms option"
  ds_last_committed_rounds :: "round list"
  ds_scoring_subdag :: scoring_subdag
  ds_pending_commit_votes :: "commit_vote list"
  ds_blocks_to_write :: "verified_block list"
  ds_commits_to_write :: "trusted_commit list"
  ds_commit_info_to_write :: "(commit_ref \<times> commit_info) list"
  ds_store :: mem_store
  ds_cached_rounds :: round

section \<open>The last commit and the garbage collection round\<close>

definition last_commit_index :: "dag_state \<Rightarrow> commit_index" where
  "last_commit_index st = (case ds_last_commit st of Some c \<Rightarrow> tc_index c | None \<Rightarrow> 0)"

definition last_commit_digest :: "dag_state \<Rightarrow> digest" where
  "last_commit_digest st = (case ds_last_commit st of Some c \<Rightarrow> tc_digest c | None \<Rightarrow> DIGEST_MIN)"

definition last_commit_timestamp_ms :: "dag_state \<Rightarrow> timestamp_ms" where
  "last_commit_timestamp_ms st = (case ds_last_commit st of Some c \<Rightarrow> tc_timestamp_ms c | None \<Rightarrow> 0)"

definition last_commit_leader :: "dag_state \<Rightarrow> slot option" where
  "last_commit_leader st = (case ds_last_commit st of
       Some c \<Rightarrow> Some (slot_of_ref (tc_leader c))
     | None \<Rightarrow> (case sorted_list_of_fmap (ds_genesis st) of [] \<Rightarrow> None | (r, _) # _ \<Rightarrow> Some (slot_of_ref r)))"

definition last_commit_round :: "dag_state \<Rightarrow> round" where
  "last_commit_round st = (case ds_last_commit st of Some c \<Rightarrow> br_round (tc_leader c) | None \<Rightarrow> 0)"

definition calculate_gc_round :: "consensus_context \<Rightarrow> round \<Rightarrow> round" where
  "calculate_gc_round cx rnd = rnd - pc_gc_depth (cx_protocol_config cx)"

definition gc_round :: "consensus_context \<Rightarrow> dag_state \<Rightarrow> round" where
  "gc_round cx st = calculate_gc_round cx (last_commit_round st)"

definition eviction_round :: "round \<Rightarrow> round \<Rightarrow> round \<Rightarrow> round" where
  "eviction_round last_round gc cached_rounds = min gc (last_round - cached_rounds)"

text \<open>\<open>BTreeSet::last\<close> and \<open>BTreeSet::first\<close>\<close>

definition refs_last :: "block_ref fset \<Rightarrow> block_ref option" where
  "refs_last s = (if s = {||} then None else Some (last (sorted_list_of_fset s)))"

definition calculate_authority_eviction_round ::
  "consensus_context \<Rightarrow> dag_state \<Rightarrow> authority_index \<Rightarrow> round option" where
  "calculate_authority_eviction_round cx st a = do {
     refs \<leftarrow> vec_get (ds_recent_refs_by_authority st) a;
     let last_round = (case refs_last refs of Some r \<Rightarrow> br_round r | None \<Rightarrow> GENESIS_ROUND);
     Some (eviction_round last_round (gc_round cx st) (ds_cached_rounds st))
   }"

section \<open>Reading blocks\<close>

text \<open>
  The first pass over the references answers from genesis and the cache and collects the missing
  ones; the second pass fills in what the store returns for those.
\<close>

definition get_blocks :: "dag_state \<Rightarrow> block_ref list \<Rightarrow> verified_block option list" where
  "get_blocks st refs = (
     let cached = (\<lambda>r. if br_round r = GENESIS_ROUND then fmlookup (ds_genesis st) r
           else map_option bi_block (fmlookup (ds_recent_blocks st) r));
         blocks = map cached refs;
         missing = filter (\<lambda>(i, r). br_round r \<noteq> GENESIS_ROUND \<and> r |\<notin>| fmdom (ds_recent_blocks st))
           (zip [0..<length refs] refs);
         results = ms_read_blocks (ds_store st) (map snd missing) in
     foldl (\<lambda>blocks ((i, _), result). blocks[i := result]) blocks (zip missing results))"

definition get_block :: "dag_state \<Rightarrow> block_ref \<Rightarrow> verified_block option" where
  "get_block st r = last (get_blocks st [r])"

definition get_uncommitted_blocks_at_slot :: "dag_state \<Rightarrow> slot \<Rightarrow> verified_block list" where
  "get_uncommitted_blocks_at_slot st s =
     map (\<lambda>(_, bi). bi_block bi)
       (filter (\<lambda>(r, _). BlockRef (slot_round s) (slot_authority s) DIGEST_MIN \<le> r \<and>
            r \<le> BlockRef (slot_round s) (slot_authority s) DIGEST_MAX)
         (sorted_list_of_fmap (ds_recent_blocks st)))"

definition get_uncommitted_blocks_at_round :: "dag_state \<Rightarrow> round \<Rightarrow> verified_block list option" where
  "get_uncommitted_blocks_at_round st rnd = do {
     assert_that (\<not> rnd \<le> last_commit_round st);
     Some (map (\<lambda>(_, bi). bi_block bi)
       (filter (\<lambda>(r, _). BlockRef rnd 0 DIGEST_MIN \<le> r \<and> r < BlockRef (rnd + 1) 0 DIGEST_MIN)
         (sorted_list_of_fmap (ds_recent_blocks st))))
   }"

text \<open>The \<open>while\<close> loop of \<open>ancestors_at_round\<close>, from the highest reference down.\<close>

partial_function (option) link_down ::
  "(block_ref \<Rightarrow> verified_block option) \<Rightarrow> round \<Rightarrow> block_ref fset \<Rightarrow> block_ref fset option" where
  "link_down get earlier_round linked =
     (if linked = {||} then Some linked
      else (let r = last (sorted_list_of_fset linked) in
        if br_round r \<le> earlier_round then Some linked
        else Option.bind (get r) (\<lambda>b.
          link_down get earlier_round ((linked |-| {|r|}) |\<union>| fset_of_list (vb_ancestors b)))))"

definition ancestors_at_round :: "dag_state \<Rightarrow> verified_block \<Rightarrow> round \<Rightarrow> verified_block list option" where
  "ancestors_at_round st later_block earlier_round = do {
     linked \<leftarrow> link_down (get_block st) earlier_round (fset_of_list (vb_ancestors later_block));
     mapM (get_block st) (filter (\<lambda>r. BlockRef earlier_round 0 DIGEST_MIN \<le> r) (sorted_list_of_fset linked))
   }"

definition get_last_block_for_authority :: "dag_state \<Rightarrow> authority_index \<Rightarrow> verified_block option" where
  "get_last_block_for_authority st a = do {
     refs \<leftarrow> vec_get (ds_recent_refs_by_authority st) a;
     case refs_last refs of
       Some r \<Rightarrow> map_option bi_block (fmlookup (ds_recent_blocks st) r)
     | None \<Rightarrow> map_option snd (find (\<lambda>(r, _). br_author r = a) (sorted_list_of_fmap (ds_genesis st)))
   }"

definition get_last_proposed_block :: "consensus_context \<Rightarrow> dag_state \<Rightarrow> verified_block option" where
  "get_last_proposed_block cx st = get_last_block_for_authority st (cx_own_index cx)"

text \<open>\<open>limit = None\<close> is \<open>usize::MAX\<close>, \<open>end_round = None\<close> is \<open>Round::MAX\<close>.\<close>

definition get_cached_blocks_in_range ::
  "dag_state \<Rightarrow> authority_index \<Rightarrow> round \<Rightarrow> round option \<Rightarrow> nat option \<Rightarrow> verified_block list option" where
  "get_cached_blocks_in_range st a start_round end_round limit =
     (if (case end_round of Some e \<Rightarrow> start_round \<ge> e | None \<Rightarrow> False) \<or> limit = Some 0 then Some []
      else do {
        refs \<leftarrow> vec_get (ds_recent_refs_by_authority st) a;
        let in_range = filter (\<lambda>r. BlockRef start_round a DIGEST_MIN \<le> r \<and>
              (case end_round of Some e \<Rightarrow> r < BlockRef e 0 DIGEST_MIN | None \<Rightarrow> True)) (sorted_list_of_fset refs);
        let taken = (case limit of Some n \<Rightarrow> take n in_range | None \<Rightarrow> in_range);
        mapM (\<lambda>r. map_option bi_block (fmlookup (ds_recent_blocks st) r)) taken
      })"

definition get_cached_blocks :: "dag_state \<Rightarrow> authority_index \<Rightarrow> round \<Rightarrow> verified_block list option" where
  "get_cached_blocks st a start = get_cached_blocks_in_range st a start None None"

definition get_last_cached_block_in_range ::
  "dag_state \<Rightarrow> authority_index \<Rightarrow> round \<Rightarrow> round \<Rightarrow> verified_block option option" where
  "get_last_cached_block_in_range st a start_round end_round =
     (if start_round \<ge> end_round then Some None
      else do {
        refs \<leftarrow> vec_get (ds_recent_refs_by_authority st) a;
        let in_range = filter (\<lambda>r. BlockRef start_round a DIGEST_MIN \<le> r \<and> r < BlockRef end_round 0 DIGEST_MIN)
              (sorted_list_of_fset refs);
        Some (if in_range = [] then None
              else map_option bi_block (fmlookup (ds_recent_blocks st) (last in_range)))
      })"

text \<open>
  One authority of \<open>get_last_cached_block_per_authority\<close>: the last block of the range and the other
  blocks of its round.
\<close>

definition last_cached_block_of ::
  "consensus_context \<Rightarrow> dag_state \<Rightarrow> round \<Rightarrow> verified_block list \<times> block_ref list list \<Rightarrow> nat \<times> block_ref fset \<Rightarrow>
     (verified_block list \<times> block_ref list list) option" where
  "last_cached_block_of cx st end_round = (\<lambda>(blocks, equivocating) (idx, refs). do {
     a \<leftarrow> to_authority_index (cx_committee cx) idx;
     evicted \<leftarrow> vec_get (ds_evicted_rounds st) a;
     assert_that (\<not> end_round - 1 \<le> evicted);
     let in_range = rev (filter (\<lambda>r. BlockRef (evicted + 1) a DIGEST_MIN \<le> r \<and> r < BlockRef end_round a DIGEST_MIN)
           (sorted_list_of_fset refs));
     case in_range of
       [] \<Rightarrow> Some (blocks, equivocating)
     | r # rs \<Rightarrow> do {
         bi \<leftarrow> fmlookup (ds_recent_blocks st) r;
         blocks' \<leftarrow> vec_set blocks a (bi_block bi);
         equivocating' \<leftarrow> vec_set equivocating a (takeWhile (\<lambda>r'. \<not> br_round r' < br_round r) rs);
         Some (blocks', equivocating')
       }
   })"

definition get_last_cached_block_per_authority ::
  "consensus_context \<Rightarrow> dag_state \<Rightarrow> round \<Rightarrow> (verified_block \<times> block_ref list) list option" where
  "get_last_cached_block_per_authority cx st end_round = do {
     let blocks = map snd (sorted_list_of_fmap (ds_genesis st));
     let equivocating = replicate (committee_size (cx_committee cx)) [];
     assert_that (end_round \<noteq> GENESIS_ROUND);
     if end_round = GENESIS_ROUND + 1 then Some (map (\<lambda>b. (b, [])) blocks)
     else do {
       (blocks', equivocating') \<leftarrow> foldM (last_cached_block_of cx st end_round) (blocks, equivocating)
         (zip [0..<length (ds_recent_refs_by_authority st)] (ds_recent_refs_by_authority st));
       Some (zip blocks' equivocating')
     }
   }"

definition contains_cached_block_at_slot :: "dag_state \<Rightarrow> slot \<Rightarrow> bool option" where
  "contains_cached_block_at_slot st s =
     (if slot_round s = GENESIS_ROUND then Some True
      else do {
        evicted \<leftarrow> vec_get (ds_evicted_rounds st) (slot_authority s);
        assert_that (\<not> slot_round s \<le> evicted);
        refs \<leftarrow> vec_get (ds_recent_refs_by_authority st) (slot_authority s);
        Some (filter (\<lambda>r. BlockRef (slot_round s) (slot_authority s) DIGEST_MIN \<le> r \<and>
            r \<le> BlockRef (slot_round s) (slot_authority s) DIGEST_MAX) (sorted_list_of_fset refs) \<noteq> [])
      })"

text \<open>
  \<open>contains_blocks\<close> answers from the cached references; a reference above the last cached one of its
  author is known to be absent without a look at the store.
\<close>

datatype lookup_state = Present | Absent | AskStore

definition contains_cached :: "dag_state \<Rightarrow> block_ref \<Rightarrow> lookup_state option" where
  "contains_cached st r = do {
     recent_refs \<leftarrow> vec_get (ds_recent_refs_by_authority st) (br_author r);
     Some (if r |\<in>| recent_refs \<or> r |\<in>| fmdom (ds_genesis st) then Present
           else (case refs_last recent_refs of
               None \<Rightarrow> Absent
             | Some l \<Rightarrow> if br_round l < br_round r then Absent else AskStore))
   }"

definition contains_blocks :: "dag_state \<Rightarrow> block_ref list \<Rightarrow> bool list option" where
  "contains_blocks st refs = do {
     states \<leftarrow> mapM (contains_cached st) refs;
     let exist = map (\<lambda>s. s = Present) states;
     let missing = filter (\<lambda>(i, s, r). s = AskStore) (zip [0..<length refs] (zip states refs));
     let results = ms_contains_blocks (ds_store st) (map (\<lambda>(i, s, r). r) missing);
     Some (foldl (\<lambda>exist ((i, _), result). exist[i := result]) exist (zip missing results))
   }"

definition contains_block :: "dag_state \<Rightarrow> block_ref \<Rightarrow> bool option" where
  "contains_block st r = do { exist \<leftarrow> contains_blocks st [r]; vec_get exist 0 }"

section \<open>Statuses of blocks\<close>

definition set_committed :: "dag_state \<Rightarrow> block_ref \<Rightarrow> (dag_state \<times> bool) option" where
  "set_committed st r = do {
     bi \<leftarrow> fmlookup (ds_recent_blocks st) r;
     if \<not> bi_committed bi
     then Some (st\<lparr>ds_recent_blocks := fmupd r (bi\<lparr>bi_committed := True\<rparr>) (ds_recent_blocks st)\<rparr>, True)
     else Some (st, False)
   }"

definition is_committed :: "dag_state \<Rightarrow> block_ref \<Rightarrow> bool option" where
  "is_committed st r = map_option bi_committed (fmlookup (ds_recent_blocks st) r)"

text \<open>The \<open>while\<close> loop of \<open>link_causal_history\<close>, on the cached blocks, the queue and the linked blocks.\<close>

partial_function (option) link_loop ::
  "round \<Rightarrow> (block_ref, block_info) fmap \<Rightarrow> block_ref list \<Rightarrow> block_ref list \<Rightarrow>
     ((block_ref, block_info) fmap \<times> block_ref list) option" where
  "link_loop gc recent targets linked = (case targets of
       [] \<Rightarrow> Some (recent, linked)
     | r # targets' \<Rightarrow>
         if br_round r \<le> gc then link_loop gc recent targets' linked
         else Option.bind (fmlookup recent r) (\<lambda>bi.
           if bi_hard_linked bi then link_loop gc recent targets' linked
           else link_loop gc (fmupd r (bi\<lparr>bi_hard_linked := True\<rparr>) recent)
             (targets' @ vb_ancestors (bi_block bi)) (linked @ [r])))"

definition link_causal_history ::
  "consensus_context \<Rightarrow> dag_state \<Rightarrow> block_ref \<Rightarrow> (dag_state \<times> block_ref list) option" where
  "link_causal_history cx st root_block = do {
     (recent, linked) \<leftarrow> link_loop (gc_round cx st) (ds_recent_blocks st) [root_block] [];
     Some (st\<lparr>ds_recent_blocks := recent\<rparr>, linked)
   }"

definition is_hard_linked :: "dag_state \<Rightarrow> block_ref \<Rightarrow> bool option" where
  "is_hard_linked st r = map_option bi_hard_linked (fmlookup (ds_recent_blocks st) r)"

definition threshold_clock_round :: "dag_state \<Rightarrow> round" where
  "threshold_clock_round st = tk_get_round (ds_threshold_clock st)"

definition threshold_clock_quorum_ts :: "dag_state \<Rightarrow> timestamp_ms" where
  "threshold_clock_quorum_ts st = tk_get_quorum_ts (ds_threshold_clock st)"

definition highest_accepted_round :: "dag_state \<Rightarrow> round" where
  "highest_accepted_round st = ds_highest_accepted_round st"

section \<open>Accepting blocks\<close>

text \<open>
  The look-ups that only feed metrics are kept where they can panic: the last proposed block when
  the clock advances, the last cached reference of the author, the author's entry in the committee.
\<close>

definition update_block_metadata ::
  "consensus_context \<Rightarrow> timestamp_ms \<Rightarrow> dag_state \<Rightarrow> verified_block \<Rightarrow> dag_state option" where
  "update_block_metadata cx now st b = do {
     let r = vb_reference b;
     refs \<leftarrow> vec_get (ds_recent_refs_by_authority st) (br_author r);
     let st1 = st\<lparr>ds_recent_blocks := fmupd r (block_info_new b) (ds_recent_blocks st),
           ds_recent_refs_by_authority := (ds_recent_refs_by_authority st)[br_author r := finsert r refs]\<rparr>;
     (clock, advanced) \<leftarrow> tk_add_block cx now (ds_threshold_clock st1) r;
     let st2 = st1\<lparr>ds_threshold_clock := clock\<rparr>;
     _ \<leftarrow> (if advanced then map_option (\<lambda>_. ()) (get_last_proposed_block cx st2) else Some ());
     refs' \<leftarrow> vec_get (ds_recent_refs_by_authority st2) (br_author r);
     _ \<leftarrow> refs_last refs';
     _ \<leftarrow> committee_authority (cx_committee cx) (br_author r);
     Some (st2\<lparr>ds_highest_accepted_round := max (ds_highest_accepted_round st2) (vb_round b)\<rparr>)
   }"

definition accept_block ::
  "consensus_context \<Rightarrow> timestamp_ms \<Rightarrow> dag_state \<Rightarrow> verified_block \<Rightarrow> dag_state option" where
  "accept_block cx now st b = do {
     assert_that (vb_round b \<noteq> 0);
     let r = vb_reference b;
     known \<leftarrow> contains_block st r;
     if known then Some st
     else do {
       _ \<leftarrow> committee_authority (cx_committee cx) (br_author r);
       assert_that (br_author r = cx_own_index cx \<longrightarrow> get_uncommitted_blocks_at_slot st (slot_of_ref r) = []);
       st' \<leftarrow> update_block_metadata cx now st b;
       Some (st'\<lparr>ds_blocks_to_write := ds_blocks_to_write st' @ [b]\<rparr>)
     }
   }"

text \<open>Each accepted block comes with the local time at which it is accepted.\<close>

definition accept_blocks ::
  "consensus_context \<Rightarrow> dag_state \<Rightarrow> (timestamp_ms \<times> verified_block) list \<Rightarrow> dag_state option" where
  "accept_blocks cx st bs = foldM (\<lambda>st (now, b). accept_block cx now st b) st bs"

section \<open>Commits\<close>

definition raise_committed_round :: "round list \<Rightarrow> block_ref \<Rightarrow> round list option" where
  "raise_committed_round rounds r = do {
     old \<leftarrow> vec_get rounds (br_author r);
     vec_set rounds (br_author r) (max old (br_round r))
   }"

definition add_commit ::
  "consensus_context \<Rightarrow> timestamp_ms \<Rightarrow> dag_state \<Rightarrow> trusted_commit \<Rightarrow> dag_state option" where
  "add_commit cx now st c =
     (if (case ds_last_commit st of Some l \<Rightarrow> tc_index c \<le> tc_index l | None \<Rightarrow> False) then Some st
      else do {
        assert_that (case ds_last_commit st of
            Some l \<Rightarrow> tc_index c = tc_index l + 1 \<and> \<not> tc_timestamp_ms c < tc_timestamp_ms l
          | None \<Rightarrow> tc_index c = 1);
        let advanced = (case ds_last_commit st of Some l \<Rightarrow> tc_round l < tc_round c | None \<Rightarrow> True);
        rounds \<leftarrow> foldM raise_committed_round (ds_last_committed_rounds st) (tc_blocks c);
        _ \<leftarrow> mapM (\<lambda>i. Option.bind (to_authority_index (cx_committee cx) i) (committee_authority (cx_committee cx)))
          [0..<length rounds];
        Some (st\<lparr>ds_last_commit := Some c,
          ds_last_commit_round_advancement_time :=
            (if advanced then Some now else ds_last_commit_round_advancement_time st),
          ds_last_committed_rounds := rounds,
          ds_pending_commit_votes := ds_pending_commit_votes st @ [tc_reference c],
          ds_commits_to_write := ds_commits_to_write st @ [c]\<rparr>)
      })"

definition recover_commits_to_write :: "dag_state \<Rightarrow> trusted_commit list \<Rightarrow> dag_state" where
  "recover_commits_to_write st cs = st\<lparr>ds_commits_to_write := ds_commits_to_write st @ cs\<rparr>"

definition ensure_commits_to_write_is_empty :: "dag_state \<Rightarrow> unit option" where
  "ensure_commits_to_write_is_empty st = assert_that (ds_commits_to_write st = [])"

definition add_commit_info :: "dag_state \<Rightarrow> reputation_scores \<Rightarrow> dag_state option" where
  "add_commit_info st scores = do {
     assert_that (sg_is_empty (ds_scoring_subdag st));
     last \<leftarrow> ds_last_commit st;
     Some (st\<lparr>ds_commit_info_to_write := ds_commit_info_to_write st @
       [(tc_reference last, \<lparr>ci_committed_rounds = ds_last_committed_rounds st, ci_reputation_scores = scores\<rparr>)]\<rparr>)
   }"

definition take_commit_votes :: "dag_state \<Rightarrow> nat \<Rightarrow> dag_state \<times> commit_vote list" where
  "take_commit_votes st limit =
     (st\<lparr>ds_pending_commit_votes := drop limit (ds_pending_commit_votes st)\<rparr>, take limit (ds_pending_commit_votes st))"

definition recover_last_commit_info :: "dag_state \<Rightarrow> (commit_ref \<times> commit_info) option" where
  "recover_last_commit_info st = ms_read_last_commit_info (ds_store st)"

definition add_scoring_subdags ::
  "consensus_context \<Rightarrow> dag_state \<Rightarrow> committed_sub_dag list \<Rightarrow> dag_state option" where
  "add_scoring_subdags cx st sds = do {
     sg \<leftarrow> add_subdags cx (ds_scoring_subdag st) sds;
     Some (st\<lparr>ds_scoring_subdag := sg\<rparr>)
   }"

definition clear_scoring_subdag :: "dag_state \<Rightarrow> dag_state" where
  "clear_scoring_subdag st = st\<lparr>ds_scoring_subdag := sg_clear (ds_scoring_subdag st)\<rparr>"

definition scoring_subdags_count :: "dag_state \<Rightarrow> nat option" where
  "scoring_subdags_count st = scored_subdags_count (ds_scoring_subdag st)"

definition is_scoring_subdag_empty :: "dag_state \<Rightarrow> bool" where
  "is_scoring_subdag_empty st = sg_is_empty (ds_scoring_subdag st)"

definition calculate_scoring_subdag_scores :: "consensus_context \<Rightarrow> dag_state \<Rightarrow> reputation_scores option" where
  "calculate_scoring_subdag_scores cx st = calculate_distributed_vote_scores cx (ds_scoring_subdag st)"

definition scoring_subdag_commit_range :: "dag_state \<Rightarrow> commit_index option" where
  "scoring_subdag_commit_range st = map_option commit_range_end (sg_commit_range (ds_scoring_subdag st))"

section \<open>Flushing to the store\<close>

text \<open>The references a flush evicts for one authority: popped from the lowest while at or below the round.\<close>

definition evict_authority :: "consensus_context \<Rightarrow> dag_state \<Rightarrow> authority_index \<Rightarrow> dag_state option" where
  "evict_authority cx st a = do {
     er \<leftarrow> calculate_authority_eviction_round cx st a;
     refs \<leftarrow> vec_get (ds_recent_refs_by_authority st) a;
     let evicted = takeWhile (\<lambda>r. br_round r \<le> er) (sorted_list_of_fset refs);
     rounds \<leftarrow> vec_set (ds_evicted_rounds st) a er;
     Some (st\<lparr>ds_recent_blocks := foldl (\<lambda>m r. fmdrop r m) (ds_recent_blocks st) evicted,
       ds_recent_refs_by_authority := (ds_recent_refs_by_authority st)[a := refs |-| fset_of_list evicted],
       ds_evicted_rounds := rounds\<rparr>)
   }"

definition flush :: "consensus_context \<Rightarrow> dag_state \<Rightarrow> dag_state option" where
  "flush cx st = (
     let wb = \<lparr>wb_blocks = ds_blocks_to_write st, wb_commits = ds_commits_to_write st,
           wb_commit_info = ds_commit_info_to_write st\<rparr>;
         st1 = st\<lparr>ds_blocks_to_write := [], ds_commits_to_write := [], ds_commit_info_to_write := []\<rparr> in
     if wb_blocks wb = [] \<and> wb_commits wb = [] \<and> wb_commit_info wb = [] then Some st1
     else foldM (evict_authority cx) (st1\<lparr>ds_store := ms_write (ds_store st1) wb\<rparr>)
       (map fst (committee_authorities (cx_committee cx))))"

section \<open>Recovery from the store\<close>

text \<open>One commit of the recovery of committed rounds and unscored sub-dags\<close>

definition recover_commit ::
  "mem_store \<Rightarrow> round list \<times> committed_sub_dag list \<Rightarrow> trusted_commit \<Rightarrow> (round list \<times> committed_sub_dag list) option" where
  "recover_commit ms = (\<lambda>(rounds, unscored) c. do {
     rounds' \<leftarrow> foldM raise_committed_round rounds (tc_blocks c);
     subdag \<leftarrow> load_committed_subdag_from_store ms c [];
     Some (rounds', unscored @ [subdag])
   })"

definition recover_authority ::
  "consensus_context \<Rightarrow> timestamp_ms \<Rightarrow> dag_state \<Rightarrow> authority_index \<Rightarrow> dag_state option" where
  "recover_authority cx now st a = do {
     last_block \<leftarrow> ms_scan_last_blocks_by_author (ds_store st) a 1 None;
     let last_round = (if last_block = [] then GENESIS_ROUND else vb_round (last last_block));
     let er = eviction_round last_round (gc_round cx st) (ds_cached_rounds st);
     blocks \<leftarrow> ms_scan_blocks_by_author (ds_store st) a (er + 1);
     rounds \<leftarrow> vec_set (ds_evicted_rounds st) a er;
     foldM (update_block_metadata cx now) (st\<lparr>ds_evicted_rounds := rounds\<rparr>) blocks
   }"

definition recover_committed_block :: "dag_state \<Rightarrow> block_ref \<Rightarrow> dag_state option" where
  "recover_committed_block st r = do {
     (st', first) \<leftarrow> set_committed st r;
     assert_that first;
     Some st'
   }"

fun recover_committed :: "round \<Rightarrow> commit_index \<Rightarrow> dag_state \<Rightarrow> dag_state option" where
  "recover_committed gc index st = (case ms_scan_commits (ds_store st) (commit_range_new index index) of
       [] \<Rightarrow> Some st
     | c # _ \<Rightarrow>
         if gc > 0 \<and> br_round (tc_leader c) \<le> gc then Some st
         else Option.bind (foldM recover_committed_block st (filter (\<lambda>r. br_round r > gc) (tc_blocks c)))
           (\<lambda>st'. if index - 1 = 0 then Some st' else recover_committed gc (index - 1) st'))"

text \<open>The committed rounds and the unscored sub-dags, from the last commit info and the commits after it\<close>

definition recover_rounds ::
  "consensus_context \<Rightarrow> mem_store \<Rightarrow> (round list \<times> committed_sub_dag list) option" where
  "recover_rounds cx store = (
     let (rounds, start) = (case ms_read_last_commit_info store of
           Some (cr, ci) \<Rightarrow> (ci_committed_rounds ci, cr_index cr + 1)
         | None \<Rightarrow> (replicate (committee_size (cx_committee cx)) 0, GENESIS_COMMIT_INDEX + 1)) in
     case ms_read_last_commit store of
       Some c \<Rightarrow> foldM (recover_commit store) (rounds, []) (ms_scan_commits store (commit_range_new start (tc_index c)))
     | None \<Rightarrow> Some (rounds, []))"

text \<open>The state before any block is loaded\<close>

definition unloaded_state ::
  "consensus_context \<Rightarrow> timestamp_ms \<Rightarrow> mem_store \<Rightarrow> verified_block list \<Rightarrow> round list \<Rightarrow> scoring_subdag \<Rightarrow> dag_state" where
  "unloaded_state cx now store genesis rounds sg = (let n = committee_size (cx_committee cx) in
     \<lparr>ds_genesis = fmap_of_list (map (\<lambda>b. (vb_reference b, b)) (rev genesis)),
      ds_recent_blocks = fmempty, ds_recent_refs_by_authority = replicate n {||},
      ds_threshold_clock = threshold_clock_new now 1, ds_evicted_rounds = replicate n 0,
      ds_highest_accepted_round = 0, ds_last_commit = ms_read_last_commit store,
      ds_last_commit_round_advancement_time = None, ds_last_committed_rounds = rounds,
      ds_scoring_subdag = sg, ds_pending_commit_votes = [], ds_blocks_to_write = [],
      ds_commits_to_write = [], ds_commit_info_to_write = [], ds_store = store,
      ds_cached_rounds = pm_dag_state_cached_rounds (cx_parameters cx)\<rparr>)"

definition dag_state_new ::
  "crypto \<Rightarrow> consensus_context \<Rightarrow> timestamp_ms \<Rightarrow> mem_store \<Rightarrow> dag_state option" where
  "dag_state_new C cx now store = do {
     genesis \<leftarrow> genesis_blocks C cx;
     (rounds, unscored) \<leftarrow> recover_rounds cx store;
     sg \<leftarrow> add_subdags cx sg_new unscored;
     st1 \<leftarrow> foldM (recover_authority cx now) (unloaded_state cx now store genesis rounds sg)
       (map fst (committee_authorities (cx_committee cx)));
     st2 \<leftarrow> (case ms_read_last_commit store of
           Some c \<Rightarrow> recover_committed (gc_round cx st1) (tc_index c) st1
         | None \<Rightarrow> Some st1);
     proposed \<leftarrow> ms_scan_blocks_by_author store (cx_own_index cx) (gc_round cx st2 + 1);
     foldM (\<lambda>st b. map_option fst (link_causal_history cx st (vb_reference b))) st2 proposed
   }"

end
