(* ===== verification/Dag_Invariant.thy ===== *)
theory Dag_Invariant
  imports Dag_State
begin

text \<open>
  Facts about \<open>DagState\<close>: reading in batches is reading one by one, an invariant that ties the cache,
  the references per author, the buffered blocks and the store together, and the operations that
  keep it. What the state promises its users is a map from references to blocks: accepting a block
  adds it, a flush moves blocks between cache and store and leaves the map as it is.
\<close>

section \<open>Batched reads\<close>

lemma foldl_fill_length:
  "length (foldl (\<lambda>ys ((i, _), y). ys[i := y]) ys zs) = length ys"
  by (induction zs arbitrary: ys) (auto simp: case_prod_beta)

lemma foldl_fill_nth:
  assumes "distinct (map fst ms)" and "k < length ys"
  shows "foldl (\<lambda>ys ((i, _), y). ys[i := y]) ys (zip ms (map h ms)) ! k =
     (case map_of ms k of Some x \<Rightarrow> h (k, x) | None \<Rightarrow> ys ! k)"
  using assms
proof (induction ms arbitrary: ys)
  case (Cons m ms)
  obtain i x where m: "m = (i, x)" by fastforce
  with Cons.prems have "i \<notin> fst ` set ms" by simp
  then have "map_of ms i = None" by (simp add: map_of_eq_None_iff)
  with Cons m show ?case by (cases "k = i") (auto split: option.splits)
qed simp

lemma fill_missing:
  assumes "\<And>i x. P (i, x) \<longleftrightarrow> Q x"
  shows "foldl (\<lambda>ys ((i, _), y). ys[i := y]) (map f xs)
       (zip (filter P (zip [0..<length xs] xs)) (map (\<lambda>m. g (snd m)) (filter P (zip [0..<length xs] xs)))) =
     map (\<lambda>x. if Q x then g x else f x) xs" (is "?l = ?r")
proof (rule nth_equalityI)
  let ?ms = "filter P (zip [0..<length xs] xs)"
  have distinct: "distinct (map fst ?ms)"
  proof -
    have "distinct (map fst (zip [0..<length xs] xs))" by simp
    then show ?thesis by (metis distinct_map_filter)
  qed
  fix k assume "k < length ?l"
  then have k: "k < length xs" by (simp add: foldl_fill_length)
  have "map_of ?ms k = (if Q (xs ! k) then Some (xs ! k) else None)"
  proof (cases "Q (xs ! k)")
    case True
    with k assms have "(k, xs ! k) \<in> set ?ms" by (auto simp: in_set_zip intro!: exI [of _ k])
    with distinct True show ?thesis by (simp add: map_of_eq_Some_iff)
  next
    case False
    then have "k \<notin> fst ` set ?ms" using k assms by (auto simp: in_set_zip)
    with False show ?thesis by (simp add: map_of_eq_None_iff)
  qed
  with k foldl_fill_nth [OF distinct, of k "map f xs" "\<lambda>m. g (snd m)"] show "?l ! k = ?r ! k"
    by simp
qed (simp add: foldl_fill_length)

text \<open>The block a state holds under a reference: genesis, then the cache, then the store.\<close>

definition ds_lookup :: "dag_state \<Rightarrow> block_ref \<Rightarrow> verified_block option" where
  "ds_lookup st r =
     (if br_round r = GENESIS_ROUND then fmlookup (ds_genesis st) r
      else (case fmlookup (ds_recent_blocks st) r of
          Some bi \<Rightarrow> Some (bi_block bi)
        | None \<Rightarrow> ms_lookup (ds_store st) r))"

lemma get_blocks_lookup: "get_blocks st refs = map (ds_lookup st) refs"
proof -
  let ?P = "\<lambda>(i::nat, r). br_round r \<noteq> GENESIS_ROUND \<and> r |\<notin>| fmdom (ds_recent_blocks st)"
  let ?f = "\<lambda>r. if br_round r = GENESIS_ROUND then fmlookup (ds_genesis st) r
           else map_option bi_block (fmlookup (ds_recent_blocks st) r)"
  have "get_blocks st refs = map (\<lambda>r. if br_round r \<noteq> GENESIS_ROUND \<and> r |\<notin>| fmdom (ds_recent_blocks st)
      then ms_lookup (ds_store st) r else ?f r) refs"
    unfolding get_blocks_def Let_def ms_read_blocks_lookup map_map comp_def
    by (rule fill_missing) simp
  also have "\<dots> = map (ds_lookup st) refs"
    by (auto simp: ds_lookup_def fmlookup_dom_iff split: option.splits)
  finally show ?thesis .
qed

lemma get_block_lookup: "get_block st r = ds_lookup st r"
  by (simp add: get_block_def get_blocks_lookup)

section \<open>The last cached reference\<close>

lemma refs_last_max:
  assumes "refs_last S = Some l"
  shows "l |\<in>| S" and "r |\<in>| S \<Longrightarrow> r \<le> l"
proof -
  have l: "l = last (sorted_list_of_fset S)" and "S \<noteq> {||}"
    using assms by (auto simp: refs_last_def split: if_splits)
  then have ne: "sorted_list_of_fset S \<noteq> []"
    by (metis fset_of_list_simps(1) sorted_list_of_fset_simps(2))
  then show "l |\<in>| S" unfolding l by (metis last_in_set sorted_list_of_fset_simps(1))
  show "r \<le> l" if "r |\<in>| S"
    using sorted_last_ge [of "sorted_list_of_fset S" r] that by (simp add: l)
qed

lemma refs_last_None: "refs_last S = None \<longleftrightarrow> S = {||}"
  by (simp add: refs_last_def)

text \<open>The highest round of an author's cached references, zero without any.\<close>

definition last_round_of :: "block_ref fset \<Rightarrow> round" where
  "last_round_of S = (case refs_last S of Some r \<Rightarrow> br_round r | None \<Rightarrow> GENESIS_ROUND)"

lemma last_round_of_eq: "last_round_of S = Max (insert 0 (br_round ` fset S))"
proof (cases "refs_last S")
  case None
  moreover from None have "S = {||}" by (simp add: refs_last_None)
  ultimately show ?thesis by (simp add: last_round_of_def GENESIS_ROUND_def)
next
  case (Some l)
  have "\<forall>x \<in> insert 0 (br_round ` fset S). x \<le> br_round l"
    using refs_last_max(2) [OF Some] by (auto dest: block_ref_le_round)
  moreover have "br_round l \<in> insert 0 (br_round ` fset S)" using refs_last_max(1) [OF Some] by auto
  ultimately have "Max (insert 0 (br_round ` fset S)) = br_round l" by (intro Max_eqI) auto
  with Some show ?thesis by (simp add: last_round_of_def)
qed

lemma last_round_of_ge: "r |\<in>| S \<Longrightarrow> br_round r \<le> last_round_of S"
  unfolding last_round_of_eq by (rule Max_ge) auto

lemma last_round_of_mono: "S |\<subseteq>| T \<Longrightarrow> last_round_of S \<le> last_round_of T"
  unfolding last_round_of_eq by (rule Max_mono) auto

lemma last_round_of_attained: "0 < last_round_of S \<Longrightarrow> \<exists>l. refs_last S = Some l \<and> br_round l = last_round_of S"
  by (auto simp: last_round_of_def GENESIS_ROUND_def split: option.splits)

section \<open>The invariant\<close>

text \<open>The cache without the status flags of its blocks.\<close>

definition ds_cached :: "dag_state \<Rightarrow> (block_ref, verified_block) fmap" where
  "ds_cached st = fmmap bi_block (ds_recent_blocks st)"

lemma ds_cached_lookup: "fmlookup (ds_cached st) r = map_option bi_block (fmlookup (ds_recent_blocks st) r)"
  by (simp add: ds_cached_def)

lemma ds_lookup_cached:
  "ds_lookup st r =
     (if br_round r = GENESIS_ROUND then fmlookup (ds_genesis st) r
      else (case fmlookup (ds_cached st) r of Some b \<Rightarrow> Some b | None \<Rightarrow> ms_lookup (ds_store st) r))"
  by (auto simp: ds_lookup_def ds_cached_lookup split: option.splits)

definition ds_shape :: "consensus_context \<Rightarrow> dag_state \<Rightarrow> bool" where
  "ds_shape cx st \<longleftrightarrow> (let n = committee_size (cx_committee cx) in
     length (ds_recent_refs_by_authority st) = n \<and> length (ds_evicted_rounds st) = n \<and>
     length (ds_last_committed_rounds st) = n \<and> 1 \<le> ds_cached_rounds st \<and>
     (\<forall>r b. fmlookup (ds_genesis st) r = Some b \<longrightarrow> vb_reference b = r \<and> br_round r = GENESIS_ROUND) \<and>
     (\<forall>a < n. \<exists>r. r |\<in>| fmdom (ds_genesis st) \<and> br_author r = a) \<and>
     (\<exists>H. tk_inv cx 1 H (ds_threshold_clock st)))"

text \<open>
  The cache holds blocks of valid authors under their references, and the references per author are
  exactly the cached ones.
\<close>

definition cache_ok :: "consensus_context \<Rightarrow> dag_state \<Rightarrow> bool" where
  "cache_ok cx st \<longleftrightarrow>
     (\<forall>r b. fmlookup (ds_cached st) r = Some b \<longrightarrow>
        vb_reference b = r \<and> 0 < br_round r \<and> br_author r < committee_size (cx_committee cx) \<and>
        br_round r \<le> ds_highest_accepted_round st) \<and>
     (\<forall>a < committee_size (cx_committee cx).
        fset (ds_recent_refs_by_authority st ! a) = {r. r |\<in>| fmdom (ds_cached st) \<and> br_author r = a})"

text \<open>
  Cache, buffer and store: every cached block is stored or waits to be written, they never
  disagree, and a stored block that is not cached was evicted, at or below the garbage collection
  round, and is not above the last cached block of its author.
\<close>

definition store_ok :: "consensus_context \<Rightarrow> dag_state \<Rightarrow> bool" where
  "store_ok cx st \<longleftrightarrow> ms_inv (ds_store st) \<and>
     (\<forall>r b. ms_lookup (ds_store st) r = Some b \<longrightarrow> 0 < br_round r \<and> br_author r < committee_size (cx_committee cx)) \<and>
     (\<forall>r b b'. fmlookup (ds_cached st) r = Some b \<longrightarrow> ms_lookup (ds_store st) r = Some b' \<longrightarrow> b = b') \<and>
     (\<forall>r b. fmlookup (ds_cached st) r = Some b \<longrightarrow> ms_lookup (ds_store st) r = Some b \<or> b \<in> set (ds_blocks_to_write st)) \<and>
     (\<forall>b \<in> set (ds_blocks_to_write st). fmlookup (ds_cached st) (vb_reference b) = Some b)"

definition eviction_ok :: "consensus_context \<Rightarrow> dag_state \<Rightarrow> bool" where
  "eviction_ok cx st \<longleftrightarrow>
     (\<forall>a < committee_size (cx_committee cx). ds_evicted_rounds st ! a \<le>
        eviction_round (last_round_of (ds_recent_refs_by_authority st ! a)) (gc_round cx st) (ds_cached_rounds st)) \<and>
     (\<forall>r. ms_lookup (ds_store st) r \<noteq> None \<longrightarrow>
        (r |\<in>| fmdom (ds_cached st) \<or> br_round r \<le> ds_evicted_rounds st ! br_author r) \<and>
        br_round r \<le> last_round_of (ds_recent_refs_by_authority st ! br_author r))"

definition ds_inv :: "consensus_context \<Rightarrow> dag_state \<Rightarrow> bool" where
  "ds_inv cx st \<longleftrightarrow> committee_ok (cx_committee cx) \<and> cx_own_index cx < committee_size (cx_committee cx) \<and>
     ds_shape cx st \<and> cache_ok cx st \<and> store_ok cx st \<and> eviction_ok cx st"

lemma ds_invD:
  assumes "ds_inv cx st"
  shows "committee_ok (cx_committee cx)" "cx_own_index cx < committee_size (cx_committee cx)"
    "ds_shape cx st" "cache_ok cx st" "store_ok cx st" "eviction_ok cx st"
  using assms by (simp_all add: ds_inv_def)

lemma cached_reference:
  "cache_ok cx st \<Longrightarrow> fmlookup (ds_cached st) r = Some b \<Longrightarrow>
     vb_reference b = r \<and> 0 < br_round r \<and> br_author r < committee_size (cx_committee cx)"
  by (auto simp: cache_ok_def)

lemma cache_okD:
  "cache_ok cx st \<Longrightarrow> fmlookup (ds_cached st) r = Some b \<Longrightarrow>
     vb_reference b = r \<and> 0 < br_round r \<and> br_author r < committee_size (cx_committee cx) \<and>
     br_round r \<le> ds_highest_accepted_round st"
  by (simp add: cache_ok_def)

lemma refs_cached:
  "cache_ok cx st \<Longrightarrow> a < committee_size (cx_committee cx) \<Longrightarrow>
     r |\<in>| ds_recent_refs_by_authority st ! a \<longleftrightarrow> r |\<in>| fmdom (ds_cached st) \<and> br_author r = a"
  by (auto simp: cache_ok_def)

lemma ds_lookup_reference:
  assumes "ds_inv cx st" and "ds_lookup st r = Some b"
  shows "vb_reference b = r"
  using assms
  by (auto simp: ds_inv_def ds_shape_def Let_def cache_ok_def store_ok_def ds_lookup_cached
      dest: ms_lookup_reference split: if_splits option.splits)

text \<open>Above the garbage collection round every known block is cached.\<close>

lemma lookup_above_gc:
  assumes "ds_inv cx st" and "gc_round cx st < br_round r"
  shows "ds_lookup st r = fmlookup (ds_cached st) r"
proof (cases "ms_lookup (ds_store st) r")
  case None
  with assms show ?thesis by (auto simp: ds_lookup_cached GENESIS_ROUND_def split: option.splits)
next
  case (Some b)
  then have "br_author r < committee_size (cx_committee cx)"
    using ds_invD(5) [OF assms(1)] by (auto simp: store_ok_def)
  moreover have "r |\<in>| fmdom (ds_cached st) \<or> br_round r \<le> ds_evicted_rounds st ! br_author r"
    using ds_invD(6) [OF assms(1)] Some by (auto simp: eviction_ok_def)
  moreover have "\<forall>a < committee_size (cx_committee cx). ds_evicted_rounds st ! a \<le> gc_round cx st"
    using ds_invD(6) [OF assms(1)] by (simp add: eviction_ok_def eviction_round_def)
  ultimately have "r |\<in>| fmdom (ds_cached st)" using assms(2) by fastforce
  then show ?thesis using assms(2)
    by (auto simp: ds_lookup_cached GENESIS_ROUND_def fmlookup_dom_iff split: option.splits)
qed

section \<open>Presence of blocks\<close>

lemma contains_cached_correct:
  assumes inv: "ds_inv cx st" and a: "br_author r < committee_size (cx_committee cx)"
  shows "\<exists>s. contains_cached st r = Some s \<and> (s = Present \<longrightarrow> ds_lookup st r \<noteq> None) \<and>
     (s = Absent \<longrightarrow> ds_lookup st r = None) \<and>
     (s = AskStore \<longrightarrow> (ds_lookup st r \<noteq> None \<longleftrightarrow> ms_lookup (ds_store st) r \<noteq> None))"
proof -
  note cache = ds_invD(4) [OF inv] and store = ds_invD(5) [OF inv] and evict = ds_invD(6) [OF inv]
  let ?refs = "ds_recent_refs_by_authority st ! br_author r"
  have len: "br_author r < length (ds_recent_refs_by_authority st)"
    using ds_invD(3) [OF inv] a by (simp add: ds_shape_def Let_def)
  have mem: "x |\<in>| ?refs \<longleftrightarrow> x |\<in>| fmdom (ds_cached st) \<and> br_author x = br_author r" for x
    using refs_cached [OF cache a] .
  have genesis: "r |\<in>| fmdom (ds_genesis st) \<Longrightarrow> br_round r = GENESIS_ROUND"
    using ds_invD(3) [OF inv] by (auto simp: ds_shape_def Let_def fmlookup_dom_iff)
  have pos: "r |\<in>| fmdom (ds_cached st) \<Longrightarrow> br_round r \<noteq> GENESIS_ROUND"
    using cached_reference [OF cache] by (fastforce simp: fmlookup_dom_iff GENESIS_ROUND_def)
  have stored_pos: "ms_lookup (ds_store st) r \<noteq> None \<Longrightarrow> br_round r \<noteq> GENESIS_ROUND"
    using store by (auto simp: store_ok_def GENESIS_ROUND_def)
  have here: "ds_lookup st r \<noteq> None \<longleftrightarrow> r |\<in>| ?refs \<or> r |\<in>| fmdom (ds_genesis st) \<or> ms_lookup (ds_store st) r \<noteq> None"
    using genesis pos stored_pos mem [of r]
    by (auto simp: ds_lookup_cached fmlookup_dom_iff split: option.splits)
  have absent: "ms_lookup (ds_store st) r = None"
    if "case refs_last ?refs of None \<Rightarrow> True | Some l \<Rightarrow> br_round l < br_round r"
  proof (rule ccontr)
    assume stored: "ms_lookup (ds_store st) r \<noteq> None"
    then have "br_round r \<le> last_round_of ?refs" "0 < br_round r"
      using evict store by (auto simp: eviction_ok_def store_ok_def)
    then obtain l where "refs_last ?refs = Some l" "br_round l = last_round_of ?refs"
      using last_round_of_attained [of ?refs] by auto
    with that \<open>br_round r \<le> last_round_of ?refs\<close> show False by simp
  qed
  show ?thesis
    using here absent len by (auto simp: contains_cached_def split: option.splits)
qed

lemma contains_blocks_lookup:
  assumes inv: "ds_inv cx st" and a: "\<forall>r \<in> set refs. br_author r < committee_size (cx_committee cx)"
  shows "contains_blocks st refs = Some (map (\<lambda>r. ds_lookup st r \<noteq> None) refs)"
proof -
  define f where "f r = the (contains_cached st r)" for r
  have f: "contains_cached st r = Some (f r) \<and> (f r = Present \<longrightarrow> ds_lookup st r \<noteq> None) \<and>
      (f r = Absent \<longrightarrow> ds_lookup st r = None) \<and>
      (f r = AskStore \<longrightarrow> (ds_lookup st r \<noteq> None \<longleftrightarrow> ms_lookup (ds_store st) r \<noteq> None))" if "r \<in> set refs" for r
    using contains_cached_correct [OF inv, of r] a that by (auto simp: f_def)
  let ?sr = "zip (map f refs) refs"
  let ?ask = "filter (\<lambda>(i, s, r). s = AskStore) (zip [0..<length ?sr] ?sr)"
  have present: "map (\<lambda>s. s = Present) (map f refs) = map (\<lambda>(s, r). s = Present) ?sr"
    by (rule nth_equalityI) auto
  have "contains_blocks st refs = Some (foldl (\<lambda>exist ((i, _), result). exist[i := result])
      (map (\<lambda>s. s = Present) (map f refs))
      (zip ?ask (map (\<lambda>m. (\<lambda>(s, r). ms_lookup (ds_store st) r \<noteq> None) (snd m)) ?ask)))"
    using mapM_Some [of refs "contains_cached st" f] f
    by (simp add: contains_blocks_def Let_def ms_contains_blocks_lookup comp_def case_prod_beta)
  also have "\<dots> = Some (map (\<lambda>x. if fst x = AskStore then (\<lambda>(s, r). ms_lookup (ds_store st) r \<noteq> None) x
      else (\<lambda>(s, r). s = Present) x) ?sr)"
    unfolding present by (rule arg_cong [where f = Some], rule fill_missing) (simp add: case_prod_beta)
  also have "\<dots> = Some (map (\<lambda>r. ds_lookup st r \<noteq> None) refs)"
  proof -
    have "(f r = AskStore \<longrightarrow> (ms_lookup (ds_store st) r = None) = (ds_lookup st r = None)) \<and>
        (f r \<noteq> AskStore \<longrightarrow> (f r = Present) = (ds_lookup st r \<noteq> None))" if "r \<in> set refs" for r
      using f [OF that] by (cases "f r") auto
    then show ?thesis by (simp add: zip_map1 zip_same_conv_map del: not_None_eq)
  qed
  finally show ?thesis .
qed

lemma contains_block_lookup:
  assumes "ds_inv cx st" and "br_author r < committee_size (cx_committee cx)"
  shows "contains_block st r = Some (ds_lookup st r \<noteq> None)"
  using contains_blocks_lookup [OF assms(1), of "[r]"] assms(2) by (simp add: contains_block_def)

section \<open>Accepting a block\<close>

text \<open>The state after the metadata of a block has been recorded, with the clock it leads to.\<close>

definition cache_block :: "dag_state \<Rightarrow> verified_block \<Rightarrow> threshold_clock \<Rightarrow> dag_state" where
  "cache_block st b k = st\<lparr>
     ds_recent_blocks := fmupd (vb_reference b) (block_info_new b) (ds_recent_blocks st),
     ds_recent_refs_by_authority := (ds_recent_refs_by_authority st)
       [vb_author b := finsert (vb_reference b) (ds_recent_refs_by_authority st ! vb_author b)],
     ds_threshold_clock := k,
     ds_highest_accepted_round := max (ds_highest_accepted_round st) (vb_round b)\<rparr>"

lemma cache_block_cached [simp]: "ds_cached (cache_block st b k) = fmupd (vb_reference b) b (ds_cached st)"
  by (rule fmap_ext) (simp add: ds_cached_lookup cache_block_def block_info_new_def)

lemma cache_block_sel [simp]:
  "ds_recent_refs_by_authority (cache_block st b k) = (ds_recent_refs_by_authority st)
     [vb_author b := finsert (vb_reference b) (ds_recent_refs_by_authority st ! vb_author b)]"
  "ds_threshold_clock (cache_block st b k) = k" "ds_genesis (cache_block st b k) = ds_genesis st"
  "ds_highest_accepted_round (cache_block st b k) = max (ds_highest_accepted_round st) (vb_round b)"
  "ds_evicted_rounds (cache_block st b k) = ds_evicted_rounds st" "ds_store (cache_block st b k) = ds_store st"
  "ds_last_committed_rounds (cache_block st b k) = ds_last_committed_rounds st"
  "ds_cached_rounds (cache_block st b k) = ds_cached_rounds st" "ds_last_commit (cache_block st b k) = ds_last_commit st"
  "ds_blocks_to_write (cache_block st b k) = ds_blocks_to_write st"
  "gc_round cx (cache_block st b k) = gc_round cx st"
  by (simp_all add: cache_block_def gc_round_def last_commit_round_def)

lemma cache_ok_cache_block:
  assumes "cache_ok cx st" and "vb_author b < committee_size (cx_committee cx)" and "0 < vb_round b"
    and "length (ds_recent_refs_by_authority st) = committee_size (cx_committee cx)"
  shows "cache_ok cx (cache_block st b k)"
  using assms by (auto simp: cache_ok_def nth_list_update le_max_iff_disj)

lemma ds_shape_cache_block: "ds_shape cx st \<Longrightarrow> tk_inv cx 1 H k \<Longrightarrow> ds_shape cx (cache_block st b k)"
  by (auto simp: ds_shape_def Let_def)

lemma find_genesis:
  assumes "ds_shape cx st" and "a < committee_size (cx_committee cx)"
  shows "\<exists>r b. find (\<lambda>(r, _). br_author r = a) (sorted_list_of_fmap (ds_genesis st)) = Some (r, b)"
proof -
  obtain r where "r |\<in>| fmdom (ds_genesis st)" "br_author r = a"
    using assms by (auto simp: ds_shape_def Let_def)
  then obtain b where "(r, b) \<in> set (sorted_list_of_fmap (ds_genesis st))" by (auto simp: fmlookup_dom_iff)
  then have "find (\<lambda>(r, _). br_author r = a) (sorted_list_of_fmap (ds_genesis st)) \<noteq> None"
    using \<open>br_author r = a\<close> by (auto simp: find_None_iff)
  then show ?thesis by auto
qed

lemma get_last_block_for_authority_total:
  assumes "ds_shape cx st" and "cache_ok cx st" and a: "a < committee_size (cx_committee cx)"
  shows "\<exists>b. get_last_block_for_authority st a = Some b"
proof -
  have len: "a < length (ds_recent_refs_by_authority st)"
    using assms by (simp add: ds_shape_def Let_def)
  show ?thesis
  proof (cases "refs_last (ds_recent_refs_by_authority st ! a)")
    case None
    with len find_genesis [OF assms(1) a] show ?thesis by (auto simp: get_last_block_for_authority_def)
  next
    case (Some r)
    then have "r |\<in>| ds_recent_refs_by_authority st ! a" by (rule refs_last_max(1))
    then have "r |\<in>| fmdom (ds_cached st)" using refs_cached [OF assms(2) a] by simp
    then show ?thesis using Some len
      by (auto simp: get_last_block_for_authority_def ds_cached_lookup fmlookup_dom_iff)
  qed
qed

lemma update_block_metadata_eq:
  assumes "committee_ok (cx_committee cx)" and "cx_own_index cx < committee_size (cx_committee cx)"
    and shape: "ds_shape cx st" and cache: "cache_ok cx st"
    and a: "vb_author b < committee_size (cx_committee cx)" and "0 < vb_round b"
  shows "\<exists>k H. tk_inv cx 1 H k \<and> update_block_metadata cx now st b = Some (cache_block st b k)"
proof -
  obtain H where H: "tk_inv cx 1 H (ds_threshold_clock st)"
    using shape by (auto simp: ds_shape_def Let_def)
  have "tk_add_block cx now (ds_threshold_clock st) (vb_reference b) \<noteq> None"
    using tk_add_block_eq [OF assms(1) H, of "vb_reference b" now] a by simp
  then obtain k adv where k: "tk_add_block cx now (ds_threshold_clock st) (vb_reference b) = Some (k, adv)"
    by auto
  have inv: "tk_inv cx 1 (insert (vb_reference b) H) k"
    using tk_inv_add [OF assms(1) H _ k] a by simp
  have len: "length (ds_recent_refs_by_authority st) = committee_size (cx_committee cx)"
    using shape by (simp add: ds_shape_def Let_def)
  let ?st2 = "st\<lparr>ds_recent_blocks := fmupd (vb_reference b) (block_info_new b) (ds_recent_blocks st),
     ds_recent_refs_by_authority := (ds_recent_refs_by_authority st)
       [vb_author b := finsert (vb_reference b) (ds_recent_refs_by_authority st ! vb_author b)],
     ds_threshold_clock := k\<rparr>"
  have "get_last_block_for_authority ?st2 (cx_own_index cx) =
      get_last_block_for_authority (cache_block st b k) (cx_own_index cx)"
    by (simp add: get_last_block_for_authority_def cache_block_def cong: option.case_cong)
  moreover obtain b' where "get_last_block_for_authority (cache_block st b k) (cx_own_index cx) = Some b'"
    using get_last_block_for_authority_total [OF ds_shape_cache_block [OF shape inv]
        cache_ok_cache_block [OF cache a assms(6) len] assms(2)] by blast
  ultimately have own: "get_last_proposed_block cx ?st2 = Some b'"
    by (simp add: get_last_proposed_block_def)
  have "refs_last (finsert (vb_reference b) (ds_recent_refs_by_authority st ! vb_author b)) \<noteq> None"
    by (simp add: refs_last_None)
  then have "update_block_metadata cx now st b = Some (cache_block st b k)"
    using a len k own
    by (auto simp: update_block_metadata_def Let_def committee_authority_def committee_size_def cache_block_def)
  with inv show ?thesis by blast
qed

lemma eviction_round_mono: "l \<le> l' \<Longrightarrow> g \<le> g' \<Longrightarrow> eviction_round l g c \<le> eviction_round l' g' c"
  by (auto simp: eviction_round_def)

lemma eviction_ok_cache_block:
  assumes ok: "eviction_ok cx st" and "store_ok cx st"
    and len: "length (ds_recent_refs_by_authority st) = committee_size (cx_committee cx)"
  shows "eviction_ok cx (cache_block st b k)"
proof -
  let ?refs = "ds_recent_refs_by_authority st" and ?refs' = "ds_recent_refs_by_authority (cache_block st b k)"
  have mono: "last_round_of (?refs ! a) \<le> last_round_of (?refs' ! a)"
    if "a < committee_size (cx_committee cx)" for a
    using that len by (intro last_round_of_mono) (cases "vb_author b = a"; auto)
  have "ds_evicted_rounds st ! a \<le> eviction_round (last_round_of (?refs' ! a)) (gc_round cx st) (ds_cached_rounds st)"
    if "a < committee_size (cx_committee cx)" for a
    using ok that eviction_round_mono [OF mono [OF that] order_refl] unfolding eviction_ok_def
    by (meson order_trans)
  moreover have "br_round r \<le> last_round_of (?refs' ! br_author r)" if "ms_lookup (ds_store st) r \<noteq> None" for r
  proof -
    have "br_author r < committee_size (cx_committee cx)" "br_round r \<le> last_round_of (?refs ! br_author r)"
      using assms(2) ok that by (auto simp: store_ok_def eviction_ok_def)
    with mono show ?thesis by (meson order_trans)
  qed
  ultimately show ?thesis using ok unfolding eviction_ok_def by (auto simp del: cache_block_sel(1))
qed

text \<open>What accepting a block does to the blocks a state holds.\<close>

definition spec_accept :: "(block_ref \<rightharpoonup> verified_block) \<Rightarrow> verified_block \<Rightarrow> (block_ref \<rightharpoonup> verified_block)" where
  "spec_accept m b = (if m (vb_reference b) = None then m(vb_reference b \<mapsto> b) else m)"

lemma ds_lookup_cong:
  "ds_genesis st' = ds_genesis st \<Longrightarrow> ds_cached st' = ds_cached st \<Longrightarrow> ds_store st' = ds_store st \<Longrightarrow>
     ds_lookup st' = ds_lookup st"
  by (rule ext) (simp only: ds_lookup_cached)

lemma gc_round_cong: "ds_last_commit st' = ds_last_commit st \<Longrightarrow> gc_round cx st' = gc_round cx st"
  by (simp add: gc_round_def last_commit_round_def)

lemma ds_lookup_update_simps [simp]:
  "ds_lookup (st\<lparr>ds_blocks_to_write := bs\<rparr>) = ds_lookup st"
  "ds_cached (st\<lparr>ds_blocks_to_write := bs\<rparr>) = ds_cached st"
  "gc_round cx (st\<lparr>ds_blocks_to_write := bs\<rparr>) = gc_round cx st"
  by (auto simp: ds_cached_def intro: ds_lookup_cong gc_round_cong)

lemma ds_shape_cong:
  "ds_recent_refs_by_authority st' = ds_recent_refs_by_authority st \<Longrightarrow> ds_evicted_rounds st' = ds_evicted_rounds st \<Longrightarrow>
     length (ds_last_committed_rounds st') = length (ds_last_committed_rounds st) \<Longrightarrow>
     ds_cached_rounds st' = ds_cached_rounds st \<Longrightarrow> ds_genesis st' = ds_genesis st \<Longrightarrow>
     ds_threshold_clock st' = ds_threshold_clock st \<Longrightarrow> ds_shape cx st' = ds_shape cx st"
  by (simp only: ds_shape_def)

lemma cache_ok_cong:
  "ds_recent_refs_by_authority st' = ds_recent_refs_by_authority st \<Longrightarrow> ds_cached st' = ds_cached st \<Longrightarrow>
     ds_highest_accepted_round st' = ds_highest_accepted_round st \<Longrightarrow> cache_ok cx st' = cache_ok cx st"
  by (simp only: cache_ok_def)

lemma store_ok_cong:
  "ds_cached st' = ds_cached st \<Longrightarrow> ds_store st' = ds_store st \<Longrightarrow>
     ds_blocks_to_write st' = ds_blocks_to_write st \<Longrightarrow> store_ok cx st' = store_ok cx st"
  by (simp only: store_ok_def)

lemma eviction_ok_cong:
  "ds_recent_refs_by_authority st' = ds_recent_refs_by_authority st \<Longrightarrow> ds_evicted_rounds st' = ds_evicted_rounds st \<Longrightarrow>
     ds_cached st' = ds_cached st \<Longrightarrow> ds_store st' = ds_store st \<Longrightarrow> ds_cached_rounds st' = ds_cached_rounds st \<Longrightarrow>
     gc_round cx st' = gc_round cx st \<Longrightarrow> eviction_ok cx st' = eviction_ok cx st"
  by (simp only: eviction_ok_def)

lemma inv_parts_update [simp]:
  "ds_shape cx (st\<lparr>ds_blocks_to_write := bs\<rparr>) = ds_shape cx st"
  "cache_ok cx (st\<lparr>ds_blocks_to_write := bs\<rparr>) = cache_ok cx st"
  "eviction_ok cx (st\<lparr>ds_blocks_to_write := bs\<rparr>) = eviction_ok cx st"
  by (rule ds_shape_cong cache_ok_cong eviction_ok_cong; simp)+

lemma ds_lookup_cache_block:
  "0 < vb_round b \<Longrightarrow> ds_lookup (cache_block st b k) = (ds_lookup st)(vb_reference b \<mapsto> b)"
  by (rule ext) (auto simp: ds_lookup_cached GENESIS_ROUND_def split: option.splits)

lemma ds_inv_accept:
  assumes inv: "ds_inv cx st" and a: "vb_author b < committee_size (cx_committee cx)" and "0 < vb_round b"
    and new: "ds_lookup st (vb_reference b) = None" and k: "tk_inv cx 1 H k"
  shows "ds_inv cx ((cache_block st b k)\<lparr>ds_blocks_to_write := ds_blocks_to_write (cache_block st b k) @ [b]\<rparr>)"
    (is "ds_inv cx ?st'")
proof -
  note parts = ds_invD [OF inv]
  have len: "length (ds_recent_refs_by_authority st) = committee_size (cx_committee cx)"
    using parts(3) by (simp add: ds_shape_def Let_def)
  have fresh: "fmlookup (ds_cached st) (vb_reference b) = None" "ms_lookup (ds_store st) (vb_reference b) = None"
    using new assms(3) by (auto simp: ds_lookup_cached GENESIS_ROUND_def split: option.splits if_splits)
  have shape: "ds_shape cx ?st'" using ds_shape_cache_block [OF parts(3) k, of b] by simp
  have cache: "cache_ok cx ?st'"
    using cache_ok_cache_block [OF parts(4) a assms(3) len, of k] by simp
  have evict: "eviction_ok cx ?st'"
    using eviction_ok_cache_block [OF parts(6,5) len, of b k] by simp
  have "store_ok cx ?st'"
    using parts(5) fresh unfolding store_ok_def by (auto split: if_splits)
  with parts(1,2) shape cache evict show ?thesis by (simp add: ds_inv_def)
qed

lemma accept_block_spec:
  assumes inv: "ds_inv cx st" and a: "vb_author b < committee_size (cx_committee cx)" and "0 < vb_round b"
    and own: "vb_author b = cx_own_index cx \<Longrightarrow> ds_lookup st (vb_reference b) = None \<Longrightarrow>
      get_uncommitted_blocks_at_slot st (vb_slot b) = []"
  shows "\<exists>st'. accept_block cx now st b = Some st' \<and> ds_inv cx st' \<and>
     ds_lookup st' = spec_accept (ds_lookup st) b \<and> ds_last_commit st' = ds_last_commit st"
proof -
  have known: "contains_block st (vb_reference b) = Some (ds_lookup st (vb_reference b) \<noteq> None)"
    using contains_block_lookup [OF inv] a by simp
  show ?thesis
  proof (cases "ds_lookup st (vb_reference b) = None")
    case False
    with known inv assms(3) show ?thesis by (auto simp: accept_block_def spec_accept_def)
  next
    case True
    obtain k H where k: "tk_inv cx 1 H k" "update_block_metadata cx now st b = Some (cache_block st b k)"
      using update_block_metadata_eq [OF ds_invD(1-4) [OF inv] a assms(3)] by blast
    let ?st' = "(cache_block st b k)\<lparr>ds_blocks_to_write := ds_blocks_to_write (cache_block st b k) @ [b]\<rparr>"
    have "accept_block cx now st b = Some ?st'"
      using known True own k(2) a assms(3)
      by (simp add: accept_block_def Let_def committee_authority_def committee_size_def)
    moreover have "ds_inv cx ?st'" by (rule ds_inv_accept [OF inv a assms(3) True k(1)])
    moreover have "ds_lookup ?st' = spec_accept (ds_lookup st) b"
      using True assms(3) by (simp add: spec_accept_def ds_lookup_cache_block)
    ultimately show ?thesis by simp
  qed
qed

section \<open>Flushing\<close>

lemma takeWhile_round:
  assumes "sorted xs"
  shows "set (takeWhile (\<lambda>r. br_round r \<le> er) xs) = {r \<in> set xs. br_round r \<le> er}"
  using assms by (induction xs) (auto dest!: block_ref_le_round)

lemma fmdrop_foldl: "fmlookup (foldl (\<lambda>m r. fmdrop r m) m rs) r = (if r \<in> set rs then None else fmlookup m r)"
  by (induction rs arbitrary: m) auto

text \<open>Every cached block is in the store, as it is once the buffer has been written.\<close>

definition all_stored :: "dag_state \<Rightarrow> bool" where
  "all_stored st \<longleftrightarrow> (\<forall>r b. fmlookup (ds_cached st) r = Some b \<longrightarrow> ms_lookup (ds_store st) r = Some b)"

text \<open>The references of one authority that an eviction drops.\<close>

definition evicted_refs :: "consensus_context \<Rightarrow> dag_state \<Rightarrow> authority_index \<Rightarrow> block_ref set" where
  "evicted_refs cx st a = {r. r |\<in>| ds_recent_refs_by_authority st ! a \<and> br_round r \<le>
     eviction_round (last_round_of (ds_recent_refs_by_authority st ! a)) (gc_round cx st) (ds_cached_rounds st)}"

lemma evict_authority_eq:
  assumes "ds_shape cx st" and "a < committee_size (cx_committee cx)"
  shows "\<exists>st'. evict_authority cx st a = Some st' \<and>
     (\<forall>r. fmlookup (ds_cached st') r = (if r \<in> evicted_refs cx st a then None else fmlookup (ds_cached st) r)) \<and>
     (\<exists>S. ds_recent_refs_by_authority st' = (ds_recent_refs_by_authority st)[a := S] \<and>
        fset S = fset (ds_recent_refs_by_authority st ! a) - evicted_refs cx st a) \<and>
     ds_evicted_rounds st' = (ds_evicted_rounds st)[a := eviction_round
        (last_round_of (ds_recent_refs_by_authority st ! a)) (gc_round cx st) (ds_cached_rounds st)] \<and>
     ds_store st' = ds_store st \<and> ds_genesis st' = ds_genesis st \<and> ds_cached_rounds st' = ds_cached_rounds st \<and>
     ds_last_commit st' = ds_last_commit st \<and> ds_last_committed_rounds st' = ds_last_committed_rounds st \<and>
     ds_threshold_clock st' = ds_threshold_clock st \<and> ds_blocks_to_write st' = ds_blocks_to_write st \<and>
     ds_highest_accepted_round st' = ds_highest_accepted_round st"
proof -
  let ?refs = "ds_recent_refs_by_authority st ! a"
  let ?er = "eviction_round (last_round_of ?refs) (gc_round cx st) (ds_cached_rounds st)"
  let ?ev = "takeWhile (\<lambda>r. br_round r \<le> ?er) (sorted_list_of_fset ?refs)"
  have len: "a < length (ds_recent_refs_by_authority st)" "a < length (ds_evicted_rounds st)"
    using assms by (simp_all add: ds_shape_def Let_def)
  have ev: "set ?ev = evicted_refs cx st a"
    using takeWhile_round [of "sorted_list_of_fset ?refs"] by (simp add: evicted_refs_def)
  let ?st' = "st\<lparr>ds_recent_blocks := foldl (\<lambda>m r. fmdrop r m) (ds_recent_blocks st) ?ev,
     ds_recent_refs_by_authority := (ds_recent_refs_by_authority st)[a := ?refs |-| fset_of_list ?ev],
     ds_evicted_rounds := (ds_evicted_rounds st)[a := ?er]\<rparr>"
  have "evict_authority cx st a = Some ?st'"
    using len by (simp add: evict_authority_def calculate_authority_eviction_round_def last_round_of_def Let_def)
  moreover have "fset (?refs |-| fset_of_list ?ev) = fset ?refs - evicted_refs cx st a"
    by (simp add: ev fset_of_list.rep_eq)
  ultimately show ?thesis by (auto simp: ds_cached_lookup fmdrop_foldl ev)
qed

lemma last_round_of_evict:
  assumes "fset S = fset R - {r. r |\<in>| R \<and> br_round r \<le> eviction_round (last_round_of R) gc c}"
    and "1 \<le> c" and "\<forall>r. r |\<in>| R \<longrightarrow> 0 < br_round r"
  shows "last_round_of S = last_round_of R"
proof (cases "last_round_of R = 0")
  case True
  with assms(1) last_round_of_mono [of S R] show ?thesis by (simp add: less_eq_fset.rep_eq)
next
  case False
  then obtain l where l: "refs_last R = Some l" "br_round l = last_round_of R"
    using last_round_of_attained [of R] by auto
  then have "\<not> br_round l \<le> eviction_round (last_round_of R) gc c"
    using False assms(2) by (auto simp: eviction_round_def)
  with refs_last_max(1) [OF l(1)] assms(1) have "l |\<in>| S" by auto
  then have "last_round_of R \<le> last_round_of S" using last_round_of_ge l(2) by metis
  moreover have "last_round_of S \<le> last_round_of R"
    using assms(1) by (intro last_round_of_mono) (auto simp: less_eq_fset.rep_eq)
  ultimately show ?thesis by simp
qed

lemma evict_authority_inv:
  assumes inv: "ds_inv cx st" and stored: "all_stored st" and empty: "ds_blocks_to_write st = []"
    and a: "a < committee_size (cx_committee cx)" and st': "evict_authority cx st a = Some st'"
  shows "ds_inv cx st' \<and> all_stored st' \<and> ds_blocks_to_write st' = [] \<and> ds_lookup st' = ds_lookup st \<and>
     ds_last_commit st' = ds_last_commit st \<and> ds_store st' = ds_store st \<and>
     ds_highest_accepted_round st' = ds_highest_accepted_round st"
proof -
  note parts = ds_invD [OF inv]
  let ?R = "ds_recent_refs_by_authority st" and ?ev = "evicted_refs cx st a"
  let ?er = "eviction_round (last_round_of (?R ! a)) (gc_round cx st) (ds_cached_rounds st)"
  obtain S where cached: "\<And>r. fmlookup (ds_cached st') r = (if r \<in> ?ev then None else fmlookup (ds_cached st) r)"
    and R': "ds_recent_refs_by_authority st' = ?R[a := S]" and S: "fset S = fset (?R ! a) - ?ev"
    and rounds: "ds_evicted_rounds st' = (ds_evicted_rounds st)[a := ?er]"
    and same: "ds_store st' = ds_store st" "ds_genesis st' = ds_genesis st" "ds_cached_rounds st' = ds_cached_rounds st"
      "ds_last_commit st' = ds_last_commit st" "ds_last_committed_rounds st' = ds_last_committed_rounds st"
      "ds_threshold_clock st' = ds_threshold_clock st" "ds_blocks_to_write st' = ds_blocks_to_write st"
      "ds_highest_accepted_round st' = ds_highest_accepted_round st"
    using evict_authority_eq [OF parts(3) a] st' by auto
  have len: "length ?R = committee_size (cx_committee cx)" "length (ds_evicted_rounds st) = committee_size (cx_committee cx)"
    and rounds_ge: "1 \<le> ds_cached_rounds st"
    using parts(3) by (simp_all add: ds_shape_def Let_def)
  have gc: "gc_round cx st' = gc_round cx st" by (rule gc_round_cong) (fact same)
  have mem: "r |\<in>| ?R ! b \<longleftrightarrow> r |\<in>| fmdom (ds_cached st) \<and> br_author r = b" if "b < committee_size (cx_committee cx)" for r b
    by (rule refs_cached [OF parts(4) that])
  have ev: "r \<in> ?ev \<longleftrightarrow> r |\<in>| fmdom (ds_cached st) \<and> br_author r = a \<and> br_round r \<le> ?er" for r
    using mem [OF a] by (auto simp: evicted_refs_def)
  have "\<forall>r. r |\<in>| ?R ! a \<longrightarrow> 0 < br_round r"
    using mem [OF a] cached_reference [OF parts(4)] by (auto simp: fmlookup_dom_iff)
  then have last: "last_round_of S = last_round_of (?R ! a)"
    using last_round_of_evict [OF _ rounds_ge, of S "?R ! a" "gc_round cx st"] S by (simp add: evicted_refs_def)
  have last': "last_round_of (ds_recent_refs_by_authority st' ! b) = last_round_of (?R ! b)" for b
    using last a len by (cases "b = a") (simp_all add: R')
  have shape: "ds_shape cx st'"
    using parts(3) by (simp add: ds_shape_def Let_def R' rounds same)
  have dom: "r |\<in>| fmdom (ds_cached st') \<longleftrightarrow> r |\<in>| fmdom (ds_cached st) \<and> r \<notin> ?ev" for r
    by (auto simp: fmlookup_dom_iff cached)
  have refs: "fset (ds_recent_refs_by_authority st' ! b) = {r. r |\<in>| fmdom (ds_cached st') \<and> br_author r = b}"
    if "b < committee_size (cx_committee cx)" for b
    using that mem [OF that] len ev a S by (cases "b = a") (auto simp: R' dom)
  have sub: "fmlookup (ds_cached st') r = Some b \<Longrightarrow> fmlookup (ds_cached st) r = Some b" for r b
    by (simp add: cached split: if_splits)
  have cache: "cache_ok cx st'"
    unfolding cache_ok_def same using cache_okD [OF parts(4) sub] refs by blast
  have store: "store_ok cx st'"
    using parts(5) stored unfolding store_ok_def same empty all_stored_def
    by (metis empty_iff list.set(1) option.inject sub)
  have evict: "eviction_ok cx st'"
  proof -
    have "ds_evicted_rounds st ! a \<le> ?er" using parts(6) a by (simp add: eviction_ok_def)
    then have old: "r |\<in>| fmdom (ds_cached st) \<or> br_round r \<le> ds_evicted_rounds st ! br_author r \<Longrightarrow>
        r |\<in>| fmdom (ds_cached st') \<or> br_round r \<le> ds_evicted_rounds st' ! br_author r" for r
      using a len by (cases "br_author r = a") (auto simp: dom ev rounds)
    have "ds_evicted_rounds st' ! b \<le> eviction_round (last_round_of (?R ! b)) (gc_round cx st) (ds_cached_rounds st)"
      if "b < committee_size (cx_committee cx)" for b
      using parts(6) that len by (cases "b = a") (simp_all add: eviction_ok_def rounds)
    with parts(6) old show ?thesis unfolding eviction_ok_def gc same last' by blast
  qed
  have "ds_lookup st' r = ds_lookup st r" for r
    using stored ev [of r]
    by (auto simp: ds_lookup_cached cached same all_stored_def fmlookup_dom_iff split: option.splits)
  moreover have "all_stored st'" using stored by (simp add: all_stored_def cached same)
  ultimately show ?thesis
    using parts(1,2) shape cache store evict empty same by (auto simp: ds_inv_def)
qed

text \<open>The state once the buffered blocks and commits have been written.\<close>

definition written :: "dag_state \<Rightarrow> dag_state" where
  "written st = st\<lparr>ds_blocks_to_write := [], ds_commits_to_write := [], ds_commit_info_to_write := [],
     ds_store := ms_write (ds_store st) \<lparr>wb_blocks = ds_blocks_to_write st, wb_commits = ds_commits_to_write st,
       wb_commit_info = ds_commit_info_to_write st\<rparr>\<rparr>"

lemma written_sel [simp]:
  "ds_cached (written st) = ds_cached st" "gc_round cx (written st) = gc_round cx st"
  "ds_recent_refs_by_authority (written st) = ds_recent_refs_by_authority st"
  "ds_evicted_rounds (written st) = ds_evicted_rounds st" "ds_genesis (written st) = ds_genesis st"
  "ds_last_commit (written st) = ds_last_commit st" "ds_cached_rounds (written st) = ds_cached_rounds st"
  "ds_last_committed_rounds (written st) = ds_last_committed_rounds st"
  "ds_threshold_clock (written st) = ds_threshold_clock st" "ds_blocks_to_write (written st) = []"
  "ds_highest_accepted_round (written st) = ds_highest_accepted_round st"
  by (simp_all add: written_def ds_cached_def gc_round_def last_commit_round_def)

lemma written_lookup:
  assumes "store_ok cx st"
  shows "ms_lookup (ds_store (written st)) r =
     (if r \<in> vb_reference ` set (ds_blocks_to_write st) then fmlookup (ds_cached st) r else ms_lookup (ds_store st) r)"
proof (cases "find (\<lambda>b. vb_reference b = r) (rev (ds_blocks_to_write st))")
  case None
  then have "r \<notin> vb_reference ` set (ds_blocks_to_write st)" by (auto simp: find_None_iff)
  with None show ?thesis by (simp add: written_def ms_lookup_write)
next
  case (Some b)
  then have b: "b \<in> set (ds_blocks_to_write st)" "vb_reference b = r" by (auto dest: find_SomeD)
  then have "fmlookup (ds_cached st) r = Some b" using assms by (auto simp: store_ok_def)
  with Some b show ?thesis by (auto simp: written_def ms_lookup_write)
qed

lemma written_inv:
  assumes inv: "ds_inv cx st"
  shows "ds_inv cx (written st) \<and> all_stored (written st) \<and> ds_lookup (written st) = ds_lookup st"
proof -
  note parts = ds_invD [OF inv] and lookup = written_lookup [OF ds_invD(5) [OF inv]]
  have buffered: "fmlookup (ds_cached st) (vb_reference b) = Some b" if "b \<in> set (ds_blocks_to_write st)" for b
    using parts(5) that by (simp add: store_ok_def)
  have ms: "ms_inv (ds_store (written st))"
    using parts(5) by (simp add: store_ok_def written_def ms_inv_write)
  have stored: "ms_lookup (ds_store (written st)) r = Some b" if "fmlookup (ds_cached st) r = Some b" for r b
  proof (cases "r \<in> vb_reference ` set (ds_blocks_to_write st)")
    case True
    with that show ?thesis by (simp add: lookup)
  next
    case False
    moreover have "ms_lookup (ds_store st) r = Some b \<or> b \<in> set (ds_blocks_to_write st)"
      using parts(5) that by (simp add: store_ok_def)
    ultimately show ?thesis using cache_okD [OF parts(4) that] by (auto simp: lookup)
  qed
  have valid: "0 < br_round r \<and> br_author r < committee_size (cx_committee cx)"
    if "ms_lookup (ds_store (written st)) r = Some b" for r b
  proof (cases "r \<in> vb_reference ` set (ds_blocks_to_write st)")
    case True
    with that have "fmlookup (ds_cached st) r = Some b" by (simp add: lookup)
    with cache_okD [OF parts(4)] show ?thesis by blast
  next
    case False
    with that have "ms_lookup (ds_store st) r = Some b" by (simp add: lookup)
    with parts(5) show ?thesis unfolding store_ok_def by blast
  qed
  have "store_ok cx (written st)"
    unfolding store_ok_def written_sel
  proof (intro conjI allI impI ballI)
    show "ms_inv (ds_store (written st))" by (rule ms)
  next
    fix r b assume "ms_lookup (ds_store (written st)) r = Some b"
    from valid [OF this] show "0 < br_round r" "br_author r < committee_size (cx_committee cx)" by auto
  next
    fix r b b' assume b: "fmlookup (ds_cached st) r = Some b" and b': "ms_lookup (ds_store (written st)) r = Some b'"
    from stored [OF b] b' show "b = b'" by (simp only: option.inject)
  next
    fix r b assume "fmlookup (ds_cached st) r = Some b"
    from stored [OF this] show "ms_lookup (ds_store (written st)) r = Some b \<or> b \<in> set []" by (rule disjI1)
  qed (simp only: list.set empty_iff)
  moreover have "eviction_ok cx (written st)"
  proof -
    have new: "r |\<in>| fmdom (ds_cached st) \<and> br_round r \<le> last_round_of (ds_recent_refs_by_authority st ! br_author r)"
      if buf: "r \<in> vb_reference ` set (ds_blocks_to_write st)" for r
    proof -
      obtain b where b: "fmlookup (ds_cached st) r = Some b" using buf buffered by blast
      then have "r |\<in>| fmdom (ds_cached st)" by (rule fmdomI)
      with cache_okD [OF parts(4) b] refs_cached [OF parts(4)] show ?thesis by (simp add: last_round_of_ge)
    qed
    show ?thesis
      unfolding eviction_ok_def written_sel
    proof (intro conjI allI impI)
      fix r assume known: "ms_lookup (ds_store (written st)) r \<noteq> None"
      have "(r |\<in>| fmdom (ds_cached st) \<or> br_round r \<le> ds_evicted_rounds st ! br_author r) \<and>
          br_round r \<le> last_round_of (ds_recent_refs_by_authority st ! br_author r)"
      proof (cases "r \<in> vb_reference ` set (ds_blocks_to_write st)")
        case True
        with new show ?thesis by blast
      next
        case False
        with known parts(6) show ?thesis by (simp add: lookup eviction_ok_def)
      qed
      then show "r |\<in>| fmdom (ds_cached st) \<or> br_round r \<le> ds_evicted_rounds st ! br_author r"
        and "br_round r \<le> last_round_of (ds_recent_refs_by_authority st ! br_author r)" by simp_all
    next
      fix a assume "a < committee_size (cx_committee cx)"
      then show "ds_evicted_rounds st ! a \<le> eviction_round (last_round_of (ds_recent_refs_by_authority st ! a))
          (gc_round cx st) (ds_cached_rounds st)"
        using parts(6) by (simp add: eviction_ok_def)
    qed
  qed
  moreover have "ds_shape cx (written st)" using parts(3) by (simp add: ds_shape_cong [of "written st" st])
  moreover have "cache_ok cx (written st)" using parts(4) by (simp add: cache_ok_cong [of "written st" st])
  moreover have "ds_lookup (written st) r = ds_lookup st r" for r
    using buffered by (auto simp: ds_lookup_cached lookup split: option.splits)
  ultimately show ?thesis using parts(1,2) stored by (auto simp: ds_inv_def all_stored_def)
qed

lemma flush_spec:
  assumes inv: "ds_inv cx st"
  shows "\<exists>st'. flush cx st = Some st' \<and> ds_inv cx st' \<and> ds_lookup st' = ds_lookup st \<and>
     ds_blocks_to_write st' = [] \<and> all_stored st' \<and> ds_last_commit st' = ds_last_commit st \<and>
     ds_highest_accepted_round st' = ds_highest_accepted_round st"
proof (cases "ds_blocks_to_write st = [] \<and> ds_commits_to_write st = [] \<and> ds_commit_info_to_write st = []")
  case True
  then have "flush cx st = Some st"
    by (simp add: flush_def Let_def)
  moreover have "all_stored st"
    using ds_invD(5) [OF inv] True unfolding store_ok_def all_stored_def by (metis empty_iff list.set(1))
  ultimately show ?thesis using inv True by simp
next
  case False
  let ?I = "\<lambda>st'. ds_inv cx st' \<and> all_stored st' \<and> ds_blocks_to_write st' = [] \<and> ds_lookup st' = ds_lookup st \<and>
     ds_last_commit st' = ds_last_commit st \<and> ds_highest_accepted_round st' = ds_highest_accepted_round st"
  have "\<exists>st'. foldM (evict_authority cx) (written st) (map fst (committee_authorities (cx_committee cx))) = Some st' \<and> ?I st'"
  proof (rule foldM_total)
    show "?I (written st)" using written_inv [OF inv] by simp
  next
    fix s a assume "a \<in> set (map fst (committee_authorities (cx_committee cx)))" and I: "?I s"
    then have a: "a < committee_size (cx_committee cx)" by (auto simp: committee_authorities_def committee_size_def dest: set_zip_leftD)
    then obtain s' where s': "evict_authority cx s a = Some s'"
      using evict_authority_eq [OF ds_invD(3)] I by blast
    with evict_authority_inv [of cx s a s'] I a show "\<exists>s'. evict_authority cx s a = Some s' \<and> ?I s'" by auto
  qed
  moreover have "flush cx st = foldM (evict_authority cx) (written st) (map fst (committee_authorities (cx_committee cx)))"
    using False by (auto simp: flush_def written_def Let_def)
  ultimately show ?thesis by auto
qed

end
