(* ===== verification/Dag_Operations.thy ===== *)
theory Dag_Operations
  imports Dag_Invariant
begin

text \<open>
  The operations of \<open>DagState\<close> that walk the DAG or change statuses: adding commits, setting blocks
  committed, linking the causal history of a proposed block and collecting the ancestors of a block
  at a round. The walks are shown to end and to visit exactly the blocks they should.
\<close>

section \<open>Causal history\<close>

text \<open>
  The references a walk from \<open>S\<close> meets when it follows the ancestors of blocks above a round.
\<close>

inductive linked_to :: "(block_ref \<rightharpoonup> verified_block) \<Rightarrow> round \<Rightarrow> block_ref set \<Rightarrow> block_ref \<Rightarrow> bool"
  for m :: "block_ref \<rightharpoonup> verified_block" and lo :: round and S :: "block_ref set" where
  linked_base: "r \<in> S \<Longrightarrow> linked_to m lo S r"
| linked_step: "linked_to m lo S r \<Longrightarrow> lo < br_round r \<Longrightarrow> m r = Some b \<Longrightarrow> y \<in> set (vb_ancestors b) \<Longrightarrow>
    linked_to m lo S y"

text \<open>Blocks are held under their references and their ancestors have lower rounds.\<close>

definition wf_history :: "(block_ref \<rightharpoonup> verified_block) \<Rightarrow> bool" where
  "wf_history m \<longleftrightarrow> (\<forall>r b. m r = Some b \<longrightarrow> vb_reference b = r \<and> (\<forall>y \<in> set (vb_ancestors b). br_round y < br_round r))"

text \<open>Ancestors above a round of blocks that are held are held.\<close>

definition complete_above :: "(block_ref \<rightharpoonup> verified_block) \<Rightarrow> round \<Rightarrow> bool" where
  "complete_above m lo \<longleftrightarrow> (\<forall>r b y. m r = Some b \<longrightarrow> y \<in> set (vb_ancestors b) \<longrightarrow> lo < br_round y \<longrightarrow> m y \<noteq> None)"

lemma linked_to_closed:
  assumes "linked_to m lo S r" and "S \<subseteq> T"
    and "\<And>x b y. x \<in> T \<Longrightarrow> lo < br_round x \<Longrightarrow> m x = Some b \<Longrightarrow> y \<in> set (vb_ancestors b) \<Longrightarrow> y \<in> T"
  shows "r \<in> T"
  using assms by induction auto

lemma linked_to_mono: "linked_to m lo S r \<Longrightarrow> S \<subseteq> T \<Longrightarrow> linked_to m lo T r"
  by (induction rule: linked_to.induct) (auto intro: linked_to.intros)

lemma linked_to_trans:
  assumes "linked_to m lo T r" and "\<And>t. t \<in> T \<Longrightarrow> linked_to m lo S t"
  shows "linked_to m lo S r"
  using assms by induction (auto intro: linked_step)

lemma linked_to_known:
  assumes "linked_to m lo S r" and "complete_above m lo" and "\<forall>s \<in> S. lo < br_round s \<longrightarrow> m s \<noteq> None"
    and "lo < br_round r"
  shows "m r \<noteq> None"
  using assms by cases (auto simp: complete_above_def)

section \<open>Ancestors at a round\<close>

lemma last_sorted_list_of_fset:
  fixes S :: "block_ref fset"
  shows "S \<noteq> {||} \<Longrightarrow> last (sorted_list_of_fset S) |\<in>| S \<and> (\<forall>r. r |\<in>| S \<longrightarrow> r \<le> last (sorted_list_of_fset S))"
  using refs_last_max [of S "last (sorted_list_of_fset S)"] by (simp add: refs_last_def)

lemma rounds_decrease:
  assumes "r |\<in>| S" and "\<forall>y \<in> set ys. br_round y < br_round r"
  shows "(image_mset br_round (mset_set (fset ((S |-| {|r|}) |\<union>| fset_of_list ys))),
      image_mset br_round (mset_set (fset S))) \<in> mult less_than"
proof -
  let ?I = "mset_set (fset S - {r})" and ?K = "mset_set (set ys - (fset S - {r}))"
  have "fset ((S |-| {|r|}) |\<union>| fset_of_list ys) = (fset S - {r}) \<union> (set ys - (fset S - {r}))"
    by (auto simp: fset_of_list.rep_eq)
  then have "mset_set (fset ((S |-| {|r|}) |\<union>| fset_of_list ys)) = ?I + ?K"
    by (simp only:) (rule mset_set_Union, auto)
  moreover have "mset_set (fset S) = ?I + {#r#}"
    using assms(1) by (simp add: mset_set.remove)
  moreover have "(image_mset br_round ?I + image_mset br_round ?K, image_mset br_round ?I + {#br_round r#}) \<in> mult less_than"
    using assms(2) by (intro one_step_implies_mult) auto
  ultimately show ?thesis by simp
qed

lemma linked_to_expand:
  assumes "m r = Some b" and "lo < br_round r" and "r \<in> S"
  shows "linked_to m lo S x \<longleftrightarrow> x = r \<or> linked_to m lo ((S - {r}) \<union> set (vb_ancestors b)) x"
proof
  assume "linked_to m lo S x"
  then show "x = r \<or> linked_to m lo ((S - {r}) \<union> set (vb_ancestors b)) x"
    by induction (use assms in \<open>auto intro: linked_to.intros\<close>)
next
  have sub: "linked_to m lo S t" if "t \<in> (S - {r}) \<union> set (vb_ancestors b)" for t
    using that assms by (auto intro: linked_base linked_step [OF linked_base])
  assume "x = r \<or> linked_to m lo ((S - {r}) \<union> set (vb_ancestors b)) x"
  then show "linked_to m lo S x"
    using assms(3) linked_to_trans [OF _ sub] by (auto intro: linked_base)
qed

lemma linked_to_below: "linked_to m lo S x \<Longrightarrow> \<forall>s \<in> S. br_round s \<le> lo \<Longrightarrow> x \<in> S"
  by (induction rule: linked_to.induct) auto

lemma link_down_spec:
  assumes "wf_history m" and "\<And>x. linked_to m er (fset linked) x \<Longrightarrow> er < br_round x \<Longrightarrow> m x \<noteq> None"
  shows "\<exists>L. link_down m er linked = Some L \<and> fset L = {x. linked_to m er (fset linked) x \<and> br_round x \<le> er}"
  using assms(2)
proof (induction linked rule: wf_induct_rule [OF wf_inv_image [OF wf_mult [OF wf_less_than],
      where f = "\<lambda>S. image_mset br_round (mset_set (fset S))"]])
  case (1 linked)
  let ?r = "last (sorted_list_of_fset linked)"
  show ?case
  proof (cases "linked = {||} \<or> br_round ?r \<le> er")
    case True
    then have "\<forall>s \<in> fset linked. br_round s \<le> er"
      using last_sorted_list_of_fset [of linked] by (auto dest!: block_ref_le_round intro: order_trans)
    then have "fset linked = {x. linked_to m er (fset linked) x \<and> br_round x \<le> er}"
      by (auto intro: linked_base dest: linked_to_below)
    moreover have "link_down m er linked = Some linked"
      using True by (auto simp: link_down.simps [of m er linked] Let_def)
    ultimately show ?thesis by blast
  next
    case False
    then have r: "?r |\<in>| linked" "er < br_round ?r" "linked \<noteq> {||}"
      using last_sorted_list_of_fset [of linked] by auto
    then obtain b where b: "m ?r = Some b" using 1(2) [OF linked_base] by auto
    let ?nxt = "(linked |-| {|?r|}) |\<union>| fset_of_list (vb_ancestors b)"
    have nxt: "fset ?nxt = (fset linked - {?r}) \<union> set (vb_ancestors b)" by (simp add: fset_of_list.rep_eq)
    have reach: "linked_to m er (fset linked) x \<longleftrightarrow> x = ?r \<or> linked_to m er (fset ?nxt) x" for x
      unfolding nxt by (rule linked_to_expand) (use b r in auto)
    have "(?nxt, linked) \<in> inv_image (mult less_than) (\<lambda>S. image_mset br_round (mset_set (fset S)))"
      using rounds_decrease [OF r(1), of "vb_ancestors b"] assms(1) b by (auto simp: wf_history_def)
    moreover have "m x \<noteq> None" if "linked_to m er (fset ?nxt) x" "er < br_round x" for x
      using 1(2) that reach by blast
    ultimately obtain L where L: "link_down m er ?nxt = Some L"
        "fset L = {x. linked_to m er (fset ?nxt) x \<and> br_round x \<le> er}"
      using 1(1) by blast
    moreover have "link_down m er linked = link_down m er ?nxt"
      using r b by (simp add: link_down.simps [of m er linked] Let_def)
    ultimately show ?thesis using reach r(2) by auto
  qed
qed

lemma ancestors_at_round_spec:
  assumes wf: "wf_history (ds_lookup st)"
    and known: "\<And>x. linked_to (ds_lookup st) er (set (vb_ancestors b)) x \<Longrightarrow> er \<le> br_round x \<Longrightarrow> ds_lookup st x \<noteq> None"
  shows "\<exists>bs. ancestors_at_round st b er = Some bs \<and> sorted_wrt (<) (map vb_reference bs) \<and>
     set bs = {x. ds_lookup st (vb_reference x) = Some x \<and> br_round (vb_reference x) = er \<and>
       linked_to (ds_lookup st) er (set (vb_ancestors b)) (vb_reference x)}"
proof -
  let ?m = "ds_lookup st" and ?S = "set (vb_ancestors b)"
  have get: "get_block st = ?m" by (rule ext) (rule get_block_lookup)
  obtain L where L: "link_down ?m er (fset_of_list (vb_ancestors b)) = Some L"
      "fset L = {x. linked_to ?m er ?S x \<and> br_round x \<le> er}"
    using link_down_spec [OF wf, of er "fset_of_list (vb_ancestors b)"] known by (auto simp: fset_of_list.rep_eq)
  let ?refs = "filter (\<lambda>r. BlockRef er 0 DIGEST_MIN \<le> r) (sorted_list_of_fset L)"
  have refs: "set ?refs = {x. linked_to ?m er ?S x \<and> br_round x = er}"
    using L(2) by (auto simp: less_eq_block_ref_def block_ref_le_def)
  have found: "\<exists>x. ?m r = Some x" if "r \<in> set ?refs" for r
    using that known unfolding refs by simp
  have mapM: "mapM ?m ?refs = Some (map (\<lambda>r. the (?m r)) ?refs)"
    using found by (intro mapM_Some) fastforce
  have ref: "vb_reference (the (?m r)) = r" if "r \<in> set ?refs" for r
    using found [OF that] wf by (auto simp: wf_history_def)
  have "map vb_reference (map (\<lambda>r. the (?m r)) ?refs) = map id ?refs"
    unfolding map_map by (rule map_cong [OF refl]) (simp add: ref del: set_filter)
  moreover have "sorted_wrt (<) ?refs"
    by (rule sorted_wrt_filter) (simp add: strict_sorted_iff)
  moreover have "set (map (\<lambda>r. the (?m r)) ?refs) = {x. ?m (vb_reference x) = Some x \<and> br_round (vb_reference x) = er \<and>
       linked_to ?m er ?S (vb_reference x)}"
  proof (intro equalityI subsetI)
    fix x assume "x \<in> set (map (\<lambda>r. the (?m r)) ?refs)"
    then obtain r where r: "r \<in> set ?refs" "x = the (?m r)" by auto
    moreover from r have "?m r = Some x" using found [OF r(1)] by auto
    moreover have "linked_to ?m er ?S r \<and> br_round r = er" using r(1) unfolding refs by simp
    ultimately show "x \<in> {x. ?m (vb_reference x) = Some x \<and> br_round (vb_reference x) = er \<and>
       linked_to ?m er ?S (vb_reference x)}" using ref [OF r(1)] by auto
  next
    fix x assume "x \<in> {x. ?m (vb_reference x) = Some x \<and> br_round (vb_reference x) = er \<and>
       linked_to ?m er ?S (vb_reference x)}"
    then have "vb_reference x \<in> set ?refs" "x = the (?m (vb_reference x))" unfolding refs by auto
    then show "x \<in> set (map (\<lambda>r. the (?m r)) ?refs)" unfolding set_map by (rule rev_image_eqI)
  qed
  ultimately show ?thesis
    using L(1) mapM by (simp add: ancestors_at_round_def get del: set_map)
qed

section \<open>Linking the causal history\<close>

definition hard_linked :: "(block_ref, block_info) fmap \<Rightarrow> block_ref set" where
  "hard_linked recent = {r. \<exists>bi. fmlookup recent r = Some bi \<and> bi_hard_linked bi}"

definition not_linked :: "(block_ref, block_info) fmap \<Rightarrow> block_ref set" where
  "not_linked recent = {r. \<exists>bi. fmlookup recent r = Some bi \<and> \<not> bi_hard_linked bi}"

lemma finite_not_linked [simp]: "finite (not_linked recent)"
  by (rule finite_subset [of _ "fset (fmdom recent)"]) (auto simp: not_linked_def intro: fmdomI)

text \<open>Two caches that differ in the hard-linked flags only.\<close>

definition same_but_links :: "(block_ref, block_info) fmap \<Rightarrow> (block_ref, block_info) fmap \<Rightarrow> bool" where
  "same_but_links recent recent' \<longleftrightarrow>
     fmmap (\<lambda>bi. (bi_block bi, bi_committed bi)) recent' = fmmap (\<lambda>bi. (bi_block bi, bi_committed bi)) recent"

lemma same_but_links_refl [simp]: "same_but_links recent recent"
  by (simp add: same_but_links_def)

lemma same_but_links_cached: "same_but_links recent recent' \<Longrightarrow> fmmap bi_block recent' = fmmap bi_block recent"
  unfolding same_but_links_def
  by (drule arg_cong [where f = "fmmap fst"]) (simp add: fmap.map_comp comp_def)

text \<open>A block that is linked loses its place among those that are not.\<close>

lemma link_one:
  assumes "fmlookup recent r = Some bi" and "\<not> bi_hard_linked bi"
  defines "recent' \<equiv> fmupd r (bi\<lparr>bi_hard_linked := True\<rparr>) recent"
  shows "hard_linked recent' = insert r (hard_linked recent)" and "card (not_linked recent') < card (not_linked recent)"
    and "same_but_links recent recent'" and "r \<notin> hard_linked recent"
proof -
  show "hard_linked recent' = insert r (hard_linked recent)" by (auto simp: hard_linked_def recent'_def)
  have "not_linked recent' = not_linked recent - {r}" by (auto simp: not_linked_def recent'_def)
  moreover have "r \<in> not_linked recent" using assms by (auto simp: not_linked_def)
  ultimately show "card (not_linked recent') < card (not_linked recent)"
    by (metis card_Diff1_less finite_not_linked)
  show "same_but_links recent recent'"
    unfolding same_but_links_def by (rule fmap_ext) (auto simp: assms(1) recent'_def)
  show "r \<notin> hard_linked recent" using assms by (auto simp: hard_linked_def)
qed

text \<open>What one run of the loop adds, for a queue of known references.\<close>

definition links_from :: "round \<Rightarrow> (block_ref \<rightharpoonup> verified_block) \<Rightarrow> block_ref set \<Rightarrow> block_ref set \<Rightarrow> block_ref set \<Rightarrow> bool" where
  "links_from gc m T H N \<longleftrightarrow> N \<inter> H = {} \<and>
     (\<forall>r \<in> N. gc < br_round r \<and> linked_to m gc T r) \<and>
     (\<forall>t \<in> T. gc < br_round t \<longrightarrow> t \<in> H \<union> N) \<and>
     (\<forall>r \<in> N. \<forall>b. m r = Some b \<longrightarrow> (\<forall>y \<in> set (vb_ancestors b). gc < br_round y \<longrightarrow> y \<in> H \<union> N))"

lemma links_from_skip: "links_from gc m T H N \<Longrightarrow> gc < br_round t \<longrightarrow> t \<in> H \<Longrightarrow> links_from gc m (insert t T) H N"
  unfolding links_from_def by (auto intro: linked_to_mono [OF _ subset_insertI])

lemma links_from_link:
  assumes "links_from gc m (T \<union> set (vb_ancestors b)) (insert r H) N" and "m r = Some b" and "gc < br_round r" and "r \<notin> H"
  shows "links_from gc m (insert r T) H (insert r N)"
proof -
  have "linked_to m gc (insert r T) x" if "linked_to m gc (T \<union> set (vb_ancestors b)) x" for x
    using that by (rule linked_to_trans) (use assms(2,3) in \<open>auto intro: linked_base linked_step [OF linked_base]\<close>)
  then show ?thesis using assms unfolding links_from_def by (auto intro: linked_base)
qed

lemma link_loop_Nil: "link_loop gc recent [] linked = Some (recent, linked)"
  by (subst link_loop.simps) simp

lemma link_loop_Cons:
  "link_loop gc recent (r # ts) linked =
     (if br_round r \<le> gc then link_loop gc recent ts linked
      else Option.bind (fmlookup recent r) (\<lambda>bi.
        if bi_hard_linked bi then link_loop gc recent ts linked
        else link_loop gc (fmupd r (bi\<lparr>bi_hard_linked := True\<rparr>) recent)
          (ts @ vb_ancestors (bi_block bi)) (linked @ [r])))"
  by (subst link_loop.simps) simp

lemma link_loop_spec:
  assumes "complete_above (fmlookup (fmmap bi_block recent)) gc"
    and "\<forall>t \<in> set targets. gc < br_round t \<longrightarrow> t |\<in>| fmdom recent"
  shows "\<exists>recent' new. link_loop gc recent targets linked = Some (recent', linked @ new) \<and>
     same_but_links recent recent' \<and> distinct new \<and> hard_linked recent' = hard_linked recent \<union> set new \<and>
     links_from gc (fmlookup (fmmap bi_block recent)) (set targets) (hard_linked recent) (set new)"
  using assms
proof (induction "(recent, targets, linked)" arbitrary: recent targets linked
    rule: wf_induct_rule [OF wf_measures [of "[\<lambda>(m, t, l). card (not_linked m), \<lambda>(m, t, l). length t]"]])
  case 1
  note IH = 1(1) and closed = 1(2) and known = 1(3)
  let ?m = "fmlookup (fmmap bi_block recent)"
  show ?case
  proof (cases targets)
    case Nil
    then have "link_loop gc recent targets linked = Some (recent, linked @ [])"
      by (simp add: link_loop_Nil link_loop_Cons)
    with Nil show ?thesis by (intro exI [of _ recent] exI [of _ "[]"]) (simp add: links_from_def)
  next
    case (Cons t ts)
    have skip: ?thesis if "link_loop gc recent targets linked = link_loop gc recent ts linked"
      and t: "gc < br_round t \<longrightarrow> t \<in> hard_linked recent"
      using IH [of recent ts linked] closed known Cons that(1) links_from_skip [OF _ t] by auto
    show ?thesis
    proof (cases "gc < br_round t")
      case False
      then show ?thesis using Cons by (intro skip) (simp_all add: link_loop_Nil link_loop_Cons)
    next
      case True
      then obtain bi where bi: "fmlookup recent t = Some bi" using known Cons by (auto simp: fmlookup_dom_iff)
      show ?thesis
      proof (cases "bi_hard_linked bi")
        case True
        with bi Cons show ?thesis
          by (intro skip) (auto simp: link_loop_Nil link_loop_Cons hard_linked_def)
      next
        case False
        let ?recent = "fmupd t (bi\<lparr>bi_hard_linked := True\<rparr>) recent"
        note one = link_one [OF bi False]
        have m: "fmmap bi_block ?recent = fmmap bi_block recent" by (rule same_but_links_cached [OF one(3)])
        have dom: "fmdom ?recent = fmdom recent" using bi by (auto intro: fmdomI)
        have b: "?m t = Some (bi_block bi)" by (simp add: bi)
        have anc: "\<forall>y \<in> set (ts @ vb_ancestors (bi_block bi)). gc < br_round y \<longrightarrow> y |\<in>| fmdom ?recent"
          using known Cons closed b unfolding dom complete_above_def by (fastforce simp: fmlookup_dom_iff)
        obtain recent' new where IH': "link_loop gc ?recent (ts @ vb_ancestors (bi_block bi)) (linked @ [t]) =
              Some (recent', (linked @ [t]) @ new)" "same_but_links ?recent recent'" "distinct new"
            "hard_linked recent' = hard_linked ?recent \<union> set new"
            "links_from gc ?m (set (ts @ vb_ancestors (bi_block bi))) (hard_linked ?recent) (set new)"
          using IH [of ?recent "ts @ vb_ancestors (bi_block bi)" "linked @ [t]"] one(2) closed anc unfolding m by auto
        have "link_loop gc recent targets linked = Some (recent', linked @ t # new)"
          using Cons True bi False IH'(1) by (simp add: link_loop_Nil link_loop_Cons)
        moreover have "same_but_links recent recent'" using IH'(2) one(3) by (simp add: same_but_links_def)
        moreover have "t \<notin> set new" using IH'(5) one(1) by (auto simp: links_from_def)
        moreover have "links_from gc ?m (set targets) (hard_linked recent) (set (t # new))"
          using links_from_link [of gc ?m "set ts" "bi_block bi" t "hard_linked recent" "set new"] b True one(1,4) IH'(5) Cons
          by simp
        ultimately show ?thesis using IH'(3,4) one(1) by (intro exI [of _ recent'] exI [of _ "t # new"]) auto
      qed
    qed
  qed
qed

text \<open>The hard-linked blocks above the garbage collection round are closed under ancestors.\<close>

definition links_closed :: "consensus_context \<Rightarrow> dag_state \<Rightarrow> bool" where
  "links_closed cx st \<longleftrightarrow> (\<forall>r b y. r \<in> hard_linked (ds_recent_blocks st) \<longrightarrow> fmlookup (ds_cached st) r = Some b \<longrightarrow>
     y \<in> set (vb_ancestors b) \<longrightarrow> gc_round cx st < br_round y \<longrightarrow> y \<in> hard_linked (ds_recent_blocks st))"

lemma link_causal_history_spec:
  assumes complete: "complete_above (fmlookup (ds_cached st)) (gc_round cx st)"
    and root: "gc_round cx st < br_round root \<longrightarrow> root |\<in>| fmdom (ds_cached st)"
    and closed: "links_closed cx st"
  shows "\<exists>recent new. link_causal_history cx st root = Some (st\<lparr>ds_recent_blocks := recent\<rparr>, new) \<and>
     same_but_links (ds_recent_blocks st) recent \<and> distinct new \<and>
     hard_linked recent = hard_linked (ds_recent_blocks st) \<union> set new \<and>
     links_closed cx (st\<lparr>ds_recent_blocks := recent\<rparr>) \<and>
     set new = {r. linked_to (fmlookup (ds_cached st)) (gc_round cx st) {root} r \<and> gc_round cx st < br_round r} -
       hard_linked (ds_recent_blocks st)"
proof -
  let ?gc = "gc_round cx st" and ?m = "fmlookup (ds_cached st)" and ?H = "hard_linked (ds_recent_blocks st)"
  obtain recent new where run: "link_loop ?gc (ds_recent_blocks st) [root] [] = Some (recent, new)"
    and same: "same_but_links (ds_recent_blocks st) recent" and "distinct new"
    and H: "hard_linked recent = ?H \<union> set new" and links: "links_from ?gc ?m {root} ?H (set new)"
    using link_loop_spec [of "ds_recent_blocks st" ?gc "[root]" "[]"] complete root
    by (auto simp: ds_cached_def)
  let ?st' = "st\<lparr>ds_recent_blocks := recent\<rparr>"
  have cached: "ds_cached ?st' = ds_cached st" using same_but_links_cached [OF same] by (simp add: ds_cached_def)
  have gc: "gc_round cx ?st' = ?gc" by (rule gc_round_cong) simp
  have step: "y \<in> ?H \<union> set new" if "r \<in> ?H \<union> set new" "?m r = Some b" "y \<in> set (vb_ancestors b)" "?gc < br_round y" for r b y
    using that links closed unfolding links_from_def links_closed_def by blast
  have "x \<in> ?H \<union> set new" if "linked_to ?m ?gc {root} x" "?gc < br_round x" for x
    using that
  proof (induction rule: linked_to.induct)
    case (linked_base r)
    then show ?case using links by (auto simp: links_from_def)
  next
    case (linked_step r b y)
    then show ?case using step by blast
  qed
  then have "set new = {r. linked_to ?m ?gc {root} r \<and> ?gc < br_round r} - ?H"
    using links by (auto simp: links_from_def)
  moreover have "links_closed cx ?st'"
    unfolding links_closed_def cached gc using step H by (auto simp del: Un_iff)
  ultimately show ?thesis
    using run same \<open>distinct new\<close> H by (intro exI [of _ recent] exI [of _ new]) (simp add: link_causal_history_def)
qed

section \<open>Statuses and commits\<close>

lemma ds_inv_cong:
  assumes "ds_inv cx st" and "ds_cached st' = ds_cached st"
    and "ds_recent_refs_by_authority st' = ds_recent_refs_by_authority st" "ds_evicted_rounds st' = ds_evicted_rounds st"
    and "length (ds_last_committed_rounds st') = length (ds_last_committed_rounds st)"
    and "ds_cached_rounds st' = ds_cached_rounds st" "ds_genesis st' = ds_genesis st"
    and "ds_threshold_clock st' = ds_threshold_clock st" "ds_store st' = ds_store st"
    and "ds_blocks_to_write st' = ds_blocks_to_write st" "ds_highest_accepted_round st' = ds_highest_accepted_round st"
    and "gc_round cx st \<le> gc_round cx st'"
  shows "ds_inv cx st'"
proof -
  have "ds_shape cx st'" using ds_shape_cong [of st' st cx] assms ds_invD(3) by blast
  moreover have "cache_ok cx st'" using cache_ok_cong [of st' st cx] assms ds_invD(4) by blast
  moreover have "store_ok cx st'" using store_ok_cong [of st' st cx] assms ds_invD(5) by blast
  moreover have "eviction_ok cx st'"
    using ds_invD(6) [OF assms(1)] unfolding eviction_ok_def assms(2-4,6,9)
    by (meson assms(12) eviction_round_mono order_refl order_trans)
  ultimately show ?thesis using ds_invD(1,2) [OF assms(1)] by (simp add: ds_inv_def)
qed

lemma set_committed_spec:
  assumes "r |\<in>| fmdom (ds_recent_blocks st)"
  shows "\<exists>recent first. set_committed st r = Some (st\<lparr>ds_recent_blocks := recent\<rparr>, first) \<and>
     fmmap bi_block recent = fmmap bi_block (ds_recent_blocks st) \<and>
     (\<forall>x. is_committed (st\<lparr>ds_recent_blocks := recent\<rparr>) x = (if x = r then Some True else is_committed st x)) \<and>
     (first \<longleftrightarrow> is_committed st r = Some False)"
proof -
  obtain bi where bi: "fmlookup (ds_recent_blocks st) r = Some bi" using assms by (auto simp: fmlookup_dom_iff)
  show ?thesis
  proof (cases "bi_committed bi")
    case True
    then have "set_committed st r = Some (st\<lparr>ds_recent_blocks := ds_recent_blocks st\<rparr>, False)"
      using bi by (simp add: set_committed_def)
    with bi True show ?thesis by (intro exI [of _ "ds_recent_blocks st"]) (auto simp: is_committed_def)
  next
    case False
    let ?recent = "fmupd r (bi\<lparr>bi_committed := True\<rparr>) (ds_recent_blocks st)"
    have "fmmap bi_block ?recent = fmmap bi_block (ds_recent_blocks st)"
      by (rule fmap_ext) (auto simp: bi)
    with bi False show ?thesis by (intro exI [of _ ?recent]) (auto simp: set_committed_def is_committed_def)
  qed
qed

lemma raise_committed_rounds_total:
  assumes "\<forall>r \<in> set rs. br_author r < length rounds"
  shows "\<exists>rounds'. foldM raise_committed_round rounds rs = Some rounds' \<and> length rounds' = length rounds"
  by (rule foldM_total) (use assms in \<open>auto simp: raise_committed_round_def\<close>)

lemma add_commit_spec:
  assumes inv: "ds_inv cx st" and index: "tc_index c = last_commit_index st + 1"
    and "last_commit_timestamp_ms st \<le> tc_timestamp_ms c" and "last_commit_round st \<le> br_round (tc_leader c)"
    and authors: "\<forall>r \<in> set (tc_blocks c). br_author r < committee_size (cx_committee cx)"
  shows "\<exists>st'. add_commit cx now st c = Some st' \<and> ds_inv cx st' \<and> ds_lookup st' = ds_lookup st \<and>
     ds_cached st' = ds_cached st \<and> ds_last_commit st' = Some c \<and>
     ds_pending_commit_votes st' = ds_pending_commit_votes st @ [tc_reference c] \<and>
     ds_commits_to_write st' = ds_commits_to_write st @ [c]"
proof -
  have len: "length (ds_last_committed_rounds st) = committee_size (cx_committee cx)"
    using ds_invD(3) [OF inv] by (simp add: ds_shape_def Let_def)
  then obtain rounds where rounds: "foldM raise_committed_round (ds_last_committed_rounds st) (tc_blocks c) = Some rounds"
      "length rounds = committee_size (cx_committee cx)"
    using raise_committed_rounds_total [of "tc_blocks c" "ds_last_committed_rounds st"] authors by auto
  have "\<exists>xs. mapM (\<lambda>i. Option.bind (to_authority_index (cx_committee cx) i) (committee_authority (cx_committee cx)))
      [0..<length rounds] = Some xs"
    using rounds(2) unfolding mapM_total [symmetric]
    by (auto simp: to_authority_index_def committee_authority_def committee_size_def)
  then obtain xs where xs: "mapM (\<lambda>i. Option.bind (to_authority_index (cx_committee cx) i)
      (committee_authority (cx_committee cx))) [0..<length rounds] = Some xs" by blast
  obtain t where st': "add_commit cx now st c = Some (st\<lparr>ds_last_commit := Some c,
      ds_last_commit_round_advancement_time := t, ds_last_committed_rounds := rounds,
      ds_pending_commit_votes := ds_pending_commit_votes st @ [tc_reference c],
      ds_commits_to_write := ds_commits_to_write st @ [c]\<rparr>)" (is "_ = Some ?st'")
    using rounds xs index assms(3)
    by (auto simp: add_commit_def last_commit_index_def last_commit_timestamp_ms_def split: option.splits)
  have cached: "ds_cached ?st' = ds_cached st" by (simp add: ds_cached_def)
  moreover have "ds_lookup ?st' = ds_lookup st" by (rule ds_lookup_cong) (simp_all add: cached)
  moreover have "gc_round cx st \<le> gc_round cx ?st'"
    using assms(4) by (simp add: gc_round_def calculate_gc_round_def last_commit_round_def diff_le_mono)
  then have "ds_inv cx ?st'"
    by (intro ds_inv_cong [OF inv cached]) (simp_all add: rounds len)
  ultimately show ?thesis using st' by simp
qed

end
