(* ===== verification/Dag_Recovery.thy ===== *)
theory Dag_Recovery
  imports Dag_Operations
begin

text \<open>
  \<open>DagState::new\<close>: the state recovered from a store holds exactly the stored blocks and genesis, and
  satisfies the invariant. The lemmas cover one phase of the recovery each: loading the blocks of
  an author, restoring the committed flags, and linking the own blocks.
\<close>

section \<open>Loading blocks\<close>

text \<open>The parts of a state that recording the metadata of blocks leaves alone.\<close>

definition same_frame :: "dag_state \<Rightarrow> dag_state \<Rightarrow> bool" where
  "same_frame st st' \<longleftrightarrow> ds_store st' = ds_store st \<and> ds_genesis st' = ds_genesis st \<and>
     ds_last_commit st' = ds_last_commit st \<and> ds_cached_rounds st' = ds_cached_rounds st \<and>
     ds_blocks_to_write st' = ds_blocks_to_write st \<and> ds_commits_to_write st' = ds_commits_to_write st \<and>
     ds_commit_info_to_write st' = ds_commit_info_to_write st \<and>
     ds_last_committed_rounds st' = ds_last_committed_rounds st"

lemma same_frame_trans: "same_frame st st' \<Longrightarrow> same_frame st' st'' \<Longrightarrow> same_frame st st''"
  by (simp add: same_frame_def)

lemma same_frame_refl [simp]: "same_frame st st"
  by (simp add: same_frame_def)

lemma same_frame_gc: "same_frame st st' \<Longrightarrow> gc_round cx st' = gc_round cx st"
  by (rule gc_round_cong) (simp add: same_frame_def)

lemma load_blocks:
  assumes "committee_ok (cx_committee cx)" and "cx_own_index cx < committee_size (cx_committee cx)"
    and "ds_shape cx st" and "cache_ok cx st"
    and "\<forall>b \<in> set bs. vb_author b < committee_size (cx_committee cx) \<and> 0 < vb_round b"
  shows "\<exists>st'. foldM (update_block_metadata cx now) st bs = Some st' \<and> ds_shape cx st' \<and> cache_ok cx st' \<and>
     same_frame st st' \<and> ds_evicted_rounds st' = ds_evicted_rounds st \<and>
     (\<forall>r. fmlookup (ds_cached st') r =
        (case find (\<lambda>b. vb_reference b = r) (rev bs) of Some b \<Rightarrow> Some b | None \<Rightarrow> fmlookup (ds_cached st) r))"
  using assms(3-)
proof (induction bs rule: rev_induct)
  case (snoc b bs)
  then obtain st1 where st1: "foldM (update_block_metadata cx now) st bs = Some st1" "ds_shape cx st1" "cache_ok cx st1"
      "same_frame st st1" "ds_evicted_rounds st1 = ds_evicted_rounds st"
      "\<forall>r. fmlookup (ds_cached st1) r =
        (case find (\<lambda>b. vb_reference b = r) (rev bs) of Some b \<Rightarrow> Some b | None \<Rightarrow> fmlookup (ds_cached st) r)"
    by auto
  have b: "vb_author b < committee_size (cx_committee cx)" "0 < vb_round b" using snoc.prems(3) by auto
  then obtain k H where k: "tk_inv cx 1 H k" "update_block_metadata cx now st1 b = Some (cache_block st1 b k)"
    using update_block_metadata_eq [OF assms(1,2) st1(2,3)] by blast
  have "length (ds_recent_refs_by_authority st1) = committee_size (cx_committee cx)"
    using st1(2) by (simp add: ds_shape_def Let_def)
  then have "cache_ok cx (cache_block st1 b k)" by (rule cache_ok_cache_block [OF st1(3) b])
  moreover have "ds_shape cx (cache_block st1 b k)" by (rule ds_shape_cache_block [OF st1(2) k(1)])
  moreover have "same_frame st (cache_block st1 b k)"
    using st1(4) by (simp add: same_frame_def cache_block_def)
  ultimately show ?case using st1(1,5,6) k(2) by (auto simp: foldM_append)
qed simp

text \<open>The single block of the reverse scan is the last of its author.\<close>

lemma scan_last_one:
  assumes "ms_inv ms"
  shows "\<exists>bs. ms_scan_last_blocks_by_author ms a 1 None = Some bs \<and>
     (\<forall>r. ms_lookup ms r \<noteq> None \<longrightarrow> br_author r = a \<longrightarrow> bs \<noteq> [] \<and> br_round r \<le> vb_round (last bs)) \<and>
     (bs \<noteq> [] \<longrightarrow> (\<exists>r. ms_lookup ms r = Some (last bs) \<and> br_author r = a))"
proof -
  let ?refs = "author_refs ms a (\<lambda>r. True)"
  have set: "set ?refs = {r. ms_lookup ms r \<noteq> None \<and> br_author r = a}"
    using set_author_refs [OF assms, of a "\<lambda>_. True"] by simp
  have last: "last_refs ms a 1 None = (if ?refs = [] then [] else [last ?refs])"
    by (cases ?refs rule: rev_cases) (simp_all add: last_refs_def Let_def)
  have "first_slice_length 1 = 1" "first_slice_length 0 = 0" by (simp_all add: first_slice_small)
  with last have scan: "ms_scan_last_blocks_by_author ms a 1 None =
      Some (if ?refs = [] then [] else [the (ms_lookup ms (last ?refs))])"
    unfolding ms_scan_last_eq [OF assms] by simp
  show ?thesis
  proof (cases "?refs = []")
    case True
    then have "{r. ms_lookup ms r \<noteq> None \<and> br_author r = a} = {}" unfolding set [symmetric] by simp
    then have "\<forall>r. ms_lookup ms r \<noteq> None \<longrightarrow> br_author r \<noteq> a" by blast
    with scan True show ?thesis by (intro exI [of _ "[]"]) simp
  next
    case False
    then have "last ?refs \<in> set ?refs" by simp
    then obtain b where b: "ms_lookup ms (last ?refs) = Some b" "br_author (last ?refs) = a" unfolding set by auto
    then have ref: "vb_reference b = last ?refs" using ms_lookup_reference [OF assms] by blast
    have "br_round r \<le> vb_round b" if r: "r \<in> set ?refs" for r
    proof -
      have "sorted ?refs" by (rule strict_sorted_imp_sorted) (rule sorted_wrt_author_refs)
      then have "r \<le> last ?refs" using r by (rule sorted_last_ge)
      then show ?thesis using block_ref_le_round br_round_reference ref by metis
    qed
    then have "br_round r \<le> vb_round b" if "ms_lookup ms r \<noteq> None" "br_author r = a" for r
      using that unfolding set by blast
    with scan False b show ?thesis by (intro exI [of _ "[b]"]) auto
  qed
qed

text \<open>How far the recovery of the blocks has come: the first \<open>k\<close> authorities are loaded.\<close>

definition loaded :: "consensus_context \<Rightarrow> mem_store \<Rightarrow> nat \<Rightarrow> dag_state \<Rightarrow> bool" where
  "loaded cx ms k st \<longleftrightarrow> ds_shape cx st \<and> cache_ok cx st \<and> ds_store st = ms \<and> ds_blocks_to_write st = [] \<and>
     all_stored st \<and>
     (\<forall>a < k. ds_evicted_rounds st ! a \<le> eviction_round (last_round_of (ds_recent_refs_by_authority st ! a))
        (gc_round cx st) (ds_cached_rounds st)) \<and>
     (\<forall>r. ms_lookup ms r \<noteq> None \<longrightarrow> br_author r < k \<longrightarrow>
        (r |\<in>| fmdom (ds_cached st) \<or> br_round r \<le> ds_evicted_rounds st ! br_author r) \<and>
        br_round r \<le> last_round_of (ds_recent_refs_by_authority st ! br_author r))"

definition store_valid :: "consensus_context \<Rightarrow> mem_store \<Rightarrow> bool" where
  "store_valid cx ms \<longleftrightarrow> ms_inv ms \<and>
     (\<forall>r. ms_lookup ms r \<noteq> None \<longrightarrow> 0 < br_round r \<and> br_author r < committee_size (cx_committee cx))"

lemma store_validD:
  assumes "store_valid cx ms" and "ms_lookup ms r = Some b"
  shows "vb_reference b = r" "0 < br_round r" "br_author r < committee_size (cx_committee cx)"
  using assms by (auto simp: store_valid_def ms_inv_def)

lemma recover_authority_loaded:
  assumes cx: "committee_ok (cx_committee cx)" "cx_own_index cx < committee_size (cx_committee cx)"
    and valid: "store_valid cx ms" and k: "k < committee_size (cx_committee cx)" and st: "loaded cx ms k st"
  shows "\<exists>st'. recover_authority cx now st k = Some st' \<and> loaded cx ms (Suc k) st' \<and> same_frame st st'"
proof -
  have inv: "ms_inv ms" using valid by (simp add: store_valid_def)
  have parts: "ds_shape cx st" "cache_ok cx st" "ds_store st = ms" "ds_blocks_to_write st = []" "all_stored st"
    using st by (simp_all add: loaded_def)
  have len: "length (ds_evicted_rounds st) = committee_size (cx_committee cx)"
      "length (ds_recent_refs_by_authority st) = committee_size (cx_committee cx)" "1 \<le> ds_cached_rounds st"
    using parts(1) by (simp_all add: ds_shape_def Let_def)
  obtain lb where lb: "ms_scan_last_blocks_by_author ms k 1 None = Some lb"
      "\<forall>r. ms_lookup ms r \<noteq> None \<longrightarrow> br_author r = k \<longrightarrow> lb \<noteq> [] \<and> br_round r \<le> vb_round (last lb)"
      "lb \<noteq> [] \<longrightarrow> (\<exists>r. ms_lookup ms r = Some (last lb) \<and> br_author r = k)"
    using scan_last_one [OF inv] by blast
  define L where "L = (if lb = [] then GENESIS_ROUND else vb_round (last lb))"
  define er where "er = eviction_round L (gc_round cx st) (ds_cached_rounds st)"
  obtain bs where bs: "ms_scan_blocks_by_author ms k (er + 1) = Some bs"
      "set bs = {b. ms_lookup ms (vb_reference b) = Some b \<and> vb_author b = k \<and> er + 1 \<le> vb_round b}"
    using mem.scan_Some [OF inv] by blast
  let ?st1 = "st\<lparr>ds_evicted_rounds := (ds_evicted_rounds st)[k := er]\<rparr>"
  have cached1: "ds_cached ?st1 = ds_cached st" by (simp add: ds_cached_def)
  have shape1: "ds_shape cx ?st1" using parts(1) by (simp add: ds_shape_def Let_def)
  have cache1: "cache_ok cx ?st1" using parts(2) cache_ok_cong [of ?st1 st cx] cached1 by simp
  have "\<forall>b \<in> set bs. vb_author b < committee_size (cx_committee cx) \<and> 0 < vb_round b"
    using bs(2) k by simp
  then obtain st' where st': "foldM (update_block_metadata cx now) ?st1 bs = Some st'" "ds_shape cx st'" "cache_ok cx st'"
      "same_frame ?st1 st'" "ds_evicted_rounds st' = (ds_evicted_rounds st)[k := er]"
      "\<forall>r. fmlookup (ds_cached st') r =
        (case find (\<lambda>b. vb_reference b = r) (rev bs) of Some b \<Rightarrow> Some b | None \<Rightarrow> fmlookup (ds_cached st) r)"
    using load_blocks [OF cx shape1 cache1, of bs now] unfolding cached1 by auto
  have run: "recover_authority cx now st k = Some st'"
    using lb(1) bs(1) st'(1) k len(1) unfolding recover_authority_def parts(3)
    by (simp add: Let_def L_def [symmetric] er_def [symmetric])
  have frame: "same_frame st st'" using st'(4) by (simp add: same_frame_def)
  then have same: "ds_store st' = ms" "ds_blocks_to_write st' = []" "gc_round cx st' = gc_round cx st"
      "ds_cached_rounds st' = ds_cached_rounds st"
    using parts same_frame_gc by (auto simp: same_frame_def)
  have stored: "all_stored st'"
    using parts(5) st'(6) bs(2) unfolding all_stored_def same parts(3)
    by (auto split: option.splits dest: find_SomeD)
  have keep: "r |\<in>| fmdom (ds_cached st) \<Longrightarrow> r |\<in>| fmdom (ds_cached st')" for r
    using st'(6) [rule_format, of r]
    by (cases "find (\<lambda>b. vb_reference b = r) (rev bs)") (auto simp: fmlookup_dom_iff)
  have found: "r |\<in>| fmdom (ds_cached st')" if r: "ms_lookup ms r \<noteq> None" "br_author r = k" "er < br_round r" for r
  proof -
    obtain b where b: "ms_lookup ms r = Some b" using r by auto
    then have "vb_reference b = r" by (rule store_validD(1) [OF valid])
    with b r bs(2) have "find (\<lambda>b. vb_reference b = r) (rev bs) \<noteq> None" by (auto simp: find_None_iff)
    then show ?thesis using st'(6) by (auto simp: fmlookup_dom_iff)
  qed
  have refs: "r |\<in>| ds_recent_refs_by_authority st' ! a \<longleftrightarrow> r |\<in>| fmdom (ds_cached st') \<and> br_author r = a"
    if "a < committee_size (cx_committee cx)" for a r
    by (rule refs_cached [OF st'(3) that])
  have mono: "last_round_of (ds_recent_refs_by_authority st ! a) \<le> last_round_of (ds_recent_refs_by_authority st' ! a)"
    if "a < committee_size (cx_committee cx)" for a
    using that keep refs refs_cached [OF parts(2)] by (intro last_round_of_mono) auto
  have L: "L \<le> last_round_of (ds_recent_refs_by_authority st' ! k)"
  proof (cases "lb = []")
    case False
    then obtain r where r: "ms_lookup ms r = Some (last lb)" "br_author r = k" using lb(3) by blast
    then have "vb_round (last lb) = br_round r" "0 < br_round r" using store_validD [OF valid r(1)] by auto
    moreover from this have "er < br_round r" using False len(3) by (auto simp: er_def L_def eviction_round_def)
    ultimately show ?thesis using found [of r] r refs [OF k, of r] False last_round_of_ge [of r] by (auto simp: L_def)
  qed (simp add: L_def GENESIS_ROUND_def)
  have "er \<le> eviction_round (last_round_of (ds_recent_refs_by_authority st' ! k)) (gc_round cx st) (ds_cached_rounds st)"
    unfolding er_def by (rule eviction_round_mono [OF L order_refl])
  moreover have "ds_evicted_rounds st ! a \<le> eviction_round (last_round_of (ds_recent_refs_by_authority st' ! a))
      (gc_round cx st) (ds_cached_rounds st)" if "a < k" for a
    using st that k eviction_round_mono [OF mono order_refl, of a "gc_round cx st" "ds_cached_rounds st"]
    unfolding loaded_def by (meson order_trans less_trans)
  ultimately have evicted: "\<forall>a < Suc k. ds_evicted_rounds st' ! a \<le> eviction_round
      (last_round_of (ds_recent_refs_by_authority st' ! a)) (gc_round cx st) (ds_cached_rounds st)"
    using k len(1) by (auto simp: st'(5) less_Suc_eq)
  have "(r |\<in>| fmdom (ds_cached st') \<or> br_round r \<le> ds_evicted_rounds st' ! br_author r) \<and>
      br_round r \<le> last_round_of (ds_recent_refs_by_authority st' ! br_author r)"
    if r: "ms_lookup ms r \<noteq> None" "br_author r < Suc k" for r
  proof (cases "br_author r = k")
    case True
    then have "br_round r \<le> L" using lb(2) r(1) by (auto simp: L_def)
    with True r(1) found [of r] L k len(1) show ?thesis by (auto simp: st'(5))
  next
    case False
    then have "br_author r < k" using r(2) by simp
    then have "(r |\<in>| fmdom (ds_cached st) \<or> br_round r \<le> ds_evicted_rounds st ! br_author r) \<and>
        br_round r \<le> last_round_of (ds_recent_refs_by_authority st ! br_author r)"
      using st r(1) by (simp add: loaded_def)
    with mono [of "br_author r"] keep False \<open>br_author r < k\<close> k show ?thesis by (auto simp: st'(5))
  qed
  then have "loaded cx ms (Suc k) st'"
    using evicted stored st'(2,3) unfolding loaded_def same by blast
  with run frame show ?thesis by blast
qed

lemma recover_authorities_loaded:
  assumes "committee_ok (cx_committee cx)" "cx_own_index cx < committee_size (cx_committee cx)"
    and "store_valid cx ms" and "loaded cx ms 0 st" and "k \<le> committee_size (cx_committee cx)"
  shows "\<exists>st'. foldM (recover_authority cx now) st [0..<k] = Some st' \<and> loaded cx ms k st' \<and> same_frame st st'"
  using assms(5)
proof (induction k)
  case 0
  with assms(4) show ?case by simp
next
  case (Suc k)
  then obtain st1 where st1: "foldM (recover_authority cx now) st [0..<k] = Some st1" "loaded cx ms k st1" "same_frame st st1"
    by auto
  with recover_authority_loaded [OF assms(1-3) _ st1(2)] Suc.prems obtain st2 where
    "recover_authority cx now st1 k = Some st2" "loaded cx ms (Suc k) st2" "same_frame st1 st2" by auto
  with st1 show ?case by (auto simp: foldM_append intro: same_frame_trans)
qed

lemma loaded_inv:
  assumes "committee_ok (cx_committee cx)" "cx_own_index cx < committee_size (cx_committee cx)"
    and valid: "store_valid cx ms" and st: "loaded cx ms (committee_size (cx_committee cx)) st"
  shows "ds_inv cx st"
proof -
  have parts: "ds_shape cx st" "cache_ok cx st" "ds_store st = ms" "ds_blocks_to_write st = []" "all_stored st"
    using st by (simp_all add: loaded_def)
  have "store_ok cx st"
    using valid parts(5) unfolding store_ok_def store_valid_def parts(3,4) all_stored_def by auto
  moreover have "eviction_ok cx st"
    using st valid unfolding eviction_ok_def loaded_def store_valid_def parts(3) by blast
  ultimately show ?thesis using assms(1,2) parts(1,2) by (simp add: ds_inv_def)
qed

section \<open>Statuses\<close>

text \<open>A state whose block statuses may differ.\<close>

definition same_but_status :: "dag_state \<Rightarrow> dag_state \<Rightarrow> bool" where
  "same_but_status st st' \<longleftrightarrow> (\<exists>recent. st' = st\<lparr>ds_recent_blocks := recent\<rparr> \<and>
     fmmap bi_block recent = fmmap bi_block (ds_recent_blocks st))"

lemma same_but_status_refl [simp]: "same_but_status st st"
  by (auto simp: same_but_status_def intro!: exI [of _ "ds_recent_blocks st"])

lemma same_but_status_trans: "same_but_status st st' \<Longrightarrow> same_but_status st' st'' \<Longrightarrow> same_but_status st st''"
  by (auto simp: same_but_status_def)

lemma same_but_status_cached: "same_but_status st st' \<Longrightarrow> ds_cached st' = ds_cached st"
  by (auto simp: same_but_status_def ds_cached_def)

lemma same_but_status_frame: "same_but_status st st' \<Longrightarrow> same_frame st st'"
  by (auto simp: same_but_status_def same_frame_def)

lemma same_but_status_lookup: "same_but_status st st' \<Longrightarrow> ds_lookup st' = ds_lookup st"
  using same_but_status_cached [of st st'] by (intro ds_lookup_cong) (auto simp: same_but_status_def)

lemma same_but_status_inv: "same_but_status st st' \<Longrightarrow> ds_inv cx st \<Longrightarrow> ds_inv cx st'"
  using same_but_status_cached [of st st'] gc_round_cong [of st' st cx]
  by (elim ds_inv_cong) (auto simp: same_but_status_def)

lemma set_committed_status: "set_committed st r = Some (st', first) \<Longrightarrow> same_but_status st st'"
  using set_committed_spec [of r st] by (auto simp: same_but_status_def set_committed_def intro: fmdomI elim!: bind_SomeE)

lemma link_loop_status:
  "link_loop gc recent targets linked = Some res \<Longrightarrow> fmmap bi_block (fst res) = fmmap bi_block recent"
proof (induction rule: link_loop.raw_induct [rotated, consumes 1, case_names 1])
  case (1 go gc recent targets linked res)
  show ?case
  proof (cases targets)
    case Nil
    with 1(2) show ?thesis by auto
  next
    case (Cons r ts)
    show ?thesis
    proof (cases "br_round r \<le> gc")
      case True
      with 1(2) Cons have "go gc recent ts linked = Some res" by simp
      then show ?thesis by (rule 1(1))
    next
      case False
      with 1(2) Cons obtain bi where bi: "fmlookup recent r = Some bi"
        and run: "(if bi_hard_linked bi then go gc recent ts linked
           else go gc (fmupd r (bi\<lparr>bi_hard_linked := True\<rparr>) recent) (ts @ vb_ancestors (bi_block bi)) (linked @ [r])) = Some res"
        by (auto elim: bind_SomeE)
      show ?thesis
      proof (cases "bi_hard_linked bi")
        case True
        with run have "go gc recent ts linked = Some res" by simp
        then show ?thesis by (rule 1(1))
      next
        case False
        with run have "fmmap bi_block (fst res) = fmmap bi_block (fmupd r (bi\<lparr>bi_hard_linked := True\<rparr>) recent)"
          by (intro 1(1)) simp
        also have "\<dots> = fmmap bi_block recent" by (rule same_but_links_cached) (rule link_one(3) [OF bi False])
        finally show ?thesis .
      qed
    qed
  qed
qed

lemma link_causal_history_status:
  "link_causal_history cx st r = Some (st', new) \<Longrightarrow> same_but_status st st'"
  using link_loop_status [of "gc_round cx st" "ds_recent_blocks st" "[r]" "[]"]
  by (auto simp: link_causal_history_def same_but_status_def elim!: bind_SomeE)

lemma recover_committed_block_status: "recover_committed_block st r = Some st' \<Longrightarrow> same_but_status st st'"
  by (auto simp: recover_committed_block_def intro: set_committed_status elim!: bind_SomeE split: if_splits)

lemma recover_committed_status: "recover_committed gc index st = Some st' \<Longrightarrow> same_but_status st st'"
proof (induction gc index st rule: recover_committed.induct)
  case (1 gc index st)
  show ?case
  proof (cases "ms_scan_commits (ds_store st) (commit_range_new index index)")
    case Nil
    with 1(2) show ?thesis by simp
  next
    case (Cons c cs)
    show ?thesis
    proof (cases "gc > 0 \<and> br_round (tc_leader c) \<le> gc")
      case True
      with 1(2) Cons show ?thesis by simp
    next
      case False
      with 1(2) Cons obtain st1 where st1:
        "foldM recover_committed_block st (filter (\<lambda>r. br_round r > gc) (tc_blocks c)) = Some st1"
        and rest: "(if index - 1 = 0 then Some st1 else recover_committed gc (index - 1) st1) = Some st'"
        by (auto elim: bind_SomeE)
      have status: "same_but_status st st1"
        by (rule foldM_invariant [OF st1]) (auto intro: recover_committed_block_status same_but_status_trans)
      show ?thesis
      proof (cases "index - 1 = 0")
        case True
        with rest status show ?thesis by simp
      next
        case False
        with rest have "recover_committed gc (index - 1) st1 = Some st'" by simp
        with 1(1) [OF Cons \<open>\<not> (gc > 0 \<and> br_round (tc_leader c) \<le> gc)\<close> st1 False] status show ?thesis
          by (blast intro: same_but_status_trans)
      qed
    qed
  qed
qed

section \<open>The recovered state\<close>

lemma map_fst_committee_authorities: "map fst (committee_authorities c) = [0..<committee_size c]"
  by (simp add: committee_authorities_def committee_size_def)

lemma genesis_map:
  assumes gs: "genesis_blocks C cx = Some gs"
  defines "g \<equiv> fmap_of_list (map (\<lambda>b. (vb_reference b, b)) (rev gs))"
  shows "fmlookup g r = Some b \<Longrightarrow> b \<in> set gs \<and> vb_reference b = r \<and> br_round r = GENESIS_ROUND"
    and "a < committee_size (cx_committee cx) \<Longrightarrow> \<exists>r. r |\<in>| fmdom g \<and> br_author r = a"
proof -
  assume "fmlookup g r = Some b"
  then have "(r, b) \<in> set (map (\<lambda>b. (vb_reference b, b)) (rev gs))"
    unfolding g_def fmlookup_of_list by (rule map_of_SomeD)
  then show "b \<in> set gs \<and> vb_reference b = r \<and> br_round r = GENESIS_ROUND"
    using genesis_blocks_in_set(1) [OF gs, of b] by (auto simp: GENESIS_ROUND_def)
next
  assume "a < committee_size (cx_committee cx)"
  with genesis_blocks_nth [OF gs this] have "gs ! a \<in> set gs" "br_author (vb_reference (gs ! a)) = a" by auto
  moreover from this have "vb_reference (gs ! a) |\<in>| fmdom g"
    by (auto simp: g_def fset_of_list_elem)
  ultimately show "\<exists>r. r |\<in>| fmdom g \<and> br_author r = a" by blast
qed

lemma raise_committed_length: "foldM raise_committed_round rounds rs = Some rounds' \<Longrightarrow> length rounds' = length rounds"
  by (erule foldM_invariant) (auto simp: raise_committed_round_def vec_set_eq_Some elim!: bind_SomeE)

lemma recover_commits_length:
  assumes "foldM (recover_commit ms) (rounds, []) cs = Some (rounds', sds)"
  shows "length rounds' = length rounds"
proof -
  have "length (fst (rounds', sds)) = length rounds"
    by (rule foldM_invariant [OF assms])
      (auto simp: recover_commit_def split: prod.splits elim!: bind_SomeE dest: raise_committed_length)
  then show ?thesis by simp
qed

lemma recover_rounds_length:
  assumes "recover_rounds cx ms = Some (rounds, unscored)"
    and "\<And>cr ci. ms_read_last_commit_info ms = Some (cr, ci) \<Longrightarrow>
      length (ci_committed_rounds ci) = committee_size (cx_committee cx)"
  shows "length rounds = committee_size (cx_committee cx)"
  using assms by (auto simp: recover_rounds_def split: option.splits dest!: recover_commits_length)

lemma unloaded_state_loaded:
  assumes "1 \<le> pm_dag_state_cached_rounds (cx_parameters cx)" and "genesis_blocks C cx = Some gs"
    and "length rounds = committee_size (cx_committee cx)"
  shows "loaded cx ms 0 (unloaded_state cx now ms gs rounds sg)"
proof -
  have "ds_shape cx (unloaded_state cx now ms gs rounds sg)"
    using assms genesis_map [OF assms(2)] tk_inv_new [of cx 1 now]
    by (auto simp: ds_shape_def unloaded_state_def Let_def)
  then show ?thesis
    by (simp add: loaded_def cache_ok_def all_stored_def ds_cached_def) (simp add: unloaded_state_def Let_def)
qed

lemma dag_state_new_spec:
  assumes cx: "committee_ok (cx_committee cx)" "cx_own_index cx < committee_size (cx_committee cx)"
    and cached: "1 \<le> pm_dag_state_cached_rounds (cx_parameters cx)" and valid: "store_valid cx ms"
    and infos: "\<And>cr ci. ms_read_last_commit_info ms = Some (cr, ci) \<Longrightarrow>
      length (ci_committed_rounds ci) = committee_size (cx_committee cx)"
    and new: "dag_state_new C cx now ms = Some st" and gs: "genesis_blocks C cx = Some gs"
  shows "ds_inv cx st \<and> ds_store st = ms \<and> ds_blocks_to_write st = [] \<and> ds_commits_to_write st = [] \<and>
     ds_commit_info_to_write st = [] \<and> ds_last_commit st = ms_read_last_commit ms \<and>
     ds_genesis st = fmap_of_list (map (\<lambda>b. (vb_reference b, b)) (rev gs)) \<and>
     (\<forall>r. ds_lookup st r = (if br_round r = GENESIS_ROUND then fmlookup (ds_genesis st) r else ms_lookup ms r))"
proof -
  let ?n = "committee_size (cx_committee cx)"
  obtain rounds unscored sg st1 st2 proposed where
    rounds: "recover_rounds cx ms = Some (rounds, unscored)" and
    st1: "foldM (recover_authority cx now) (unloaded_state cx now ms gs rounds sg) [0..<?n] = Some st1" and
    st2: "(case ms_read_last_commit ms of Some c \<Rightarrow> recover_committed (gc_round cx st1) (tc_index c) st1 | None \<Rightarrow> Some st1) = Some st2" and
    st: "foldM (\<lambda>st b. map_option fst (link_causal_history cx st (vb_reference b))) st2 proposed = Some st"
    using new gs unfolding dag_state_new_def map_fst_committee_authorities
    by (elim bind_SomeE) (simp split: prod.splits, blast elim!: bind_SomeE)
  let ?st0 = "unloaded_state cx now ms gs rounds sg"
  have "loaded cx ms 0 ?st0"
    by (rule unloaded_state_loaded [OF cached gs recover_rounds_length [OF rounds infos]])
  then have loaded: "loaded cx ms ?n st1" and frame: "same_frame ?st0 st1"
    using recover_authorities_loaded [OF cx valid, of ?st0 ?n now] st1 by auto
  have inv: "ds_inv cx st1" by (rule loaded_inv [OF cx valid loaded])
  have "same_but_status st1 st2"
    using st2 by (auto split: option.splits dest: recover_committed_status simp del: recover_committed.simps)
  moreover have "same_but_status st2 st"
    by (rule foldM_invariant [OF st])
      (auto intro: same_but_status_trans dest: link_causal_history_status)
  ultimately have status: "same_but_status st1 st" by (rule same_but_status_trans)
  have frame: "same_frame ?st0 st"
    by (rule same_frame_trans [OF frame same_but_status_frame [OF status]])
  have "all_stored st1" "ds_store st1 = ms" using loaded by (auto simp: loaded_def)
  then have "ds_lookup st1 r = (if br_round r = GENESIS_ROUND then fmlookup (ds_genesis st1) r else ms_lookup ms r)" for r
    by (auto simp: ds_lookup_cached all_stored_def split: option.splits)
  moreover have "ds_genesis st1 = ds_genesis st"
    using same_but_status_frame [OF status] by (simp add: same_frame_def)
  ultimately show ?thesis
    using frame same_but_status_inv [OF status inv] same_but_status_lookup [OF status]
    by (simp add: same_frame_def unloaded_state_def Let_def)
qed

end
