(* ===== verification/Dag_Machine.thy ===== *)
theory Dag_Machine
  imports Dag_Recovery
begin

text \<open>
  \<open>DagState\<close> as a state machine: its operations, and a crash followed by a restart at any point, as
  the steps of a transition relation, against the specification of a block database with durable
  and volatile contents. The properties of \<open>DagState\<close> follow from the invariant and the simulation.
\<close>

section \<open>Commits and commit infos in the store\<close>

lemma ms_commits_write_blocks: "ms_commits (foldl ms_write_block ms bs) = ms_commits ms"
  by (fact ms_write_blocks_frame)

lemma ms_commit_info_write_blocks:
  "ms_commit_info (foldl ms_write_block ms bs) = ms_commit_info ms"
  "ms_commit_info (foldl (\<lambda>ms c. ms\<lparr>ms_commits := g ms c\<rparr>) ms cs) = ms_commit_info ms"
  by (induction bs arbitrary: ms, simp_all add: ms_write_block_def Let_def)
    (induction cs arbitrary: ms, simp_all)

lemma ms_commits_write:
  "fmlookup (ms_commits (ms_write ms wb)) k =
     (case find (\<lambda>c. (tc_index c, tc_digest c) = k) (rev (wb_commits wb)) of
        Some c \<Rightarrow> Some c | None \<Rightarrow> fmlookup (ms_commits ms) k)"
proof -
  have "fmlookup (ms_commits (foldl (\<lambda>ms c. ms\<lparr>ms_commits := fmupd (tc_index c, tc_digest c) c (ms_commits ms)\<rparr>) ms cs)) k =
      (case find (\<lambda>c. (tc_index c, tc_digest c) = k) (rev cs) of
        Some c \<Rightarrow> Some c | None \<Rightarrow> fmlookup (ms_commits ms) k)" for ms :: mem_store and cs
    by (induction cs rule: rev_induct) auto
  then show ?thesis
    by (simp add: ms_write_def Let_def ms_write_commit_info_frame(3) ms_commits_write_blocks cong: option.case_cong)
qed

lemma ms_commit_info_write:
  "fmlookup (ms_commit_info (ms_write ms wb)) k =
     (case find (\<lambda>(cr, ci). (cr_index cr, cr_digest cr) = k) (rev (wb_commit_info wb)) of
        Some (cr, ci) \<Rightarrow> Some ci | None \<Rightarrow> fmlookup (ms_commit_info ms) k)"
proof -
  have "fmlookup (ms_commit_info (foldl (\<lambda>ms (cr, ci). ms\<lparr>ms_commit_info :=
        fmupd (cr_index cr, cr_digest cr) ci (ms_commit_info ms)\<rparr>) ms cs)) k =
      (case find (\<lambda>(cr, ci). (cr_index cr, cr_digest cr) = k) (rev cs) of
        Some (cr, ci) \<Rightarrow> Some ci | None \<Rightarrow> fmlookup (ms_commit_info ms) k)" for ms :: mem_store and cs
    by (induction cs rule: rev_induct) (auto simp: case_prod_beta)
  then show ?thesis
    by (simp add: ms_write_def Let_def ms_commit_info_write_blocks cong: option.case_cong)
qed

lemma last_key_value_Some:
  assumes "last_key_value m = Some (k, v)"
  shows "fmlookup m k = Some v" and "k' |\<in>| fmdom m \<Longrightarrow> k' \<le> k"
proof -
  let ?kvs = "sorted_list_of_fmap m"
  have ne: "?kvs \<noteq> []" and last: "last ?kvs = (k, v)"
    using assms by (auto simp: last_key_value_def Let_def split: if_splits)
  then have "(k, v) \<in> set ?kvs" by (metis last_in_set)
  then show "fmlookup m k = Some v" by simp
  have "k = last (map fst ?kvs)" using ne last by (metis fst_conv last_map)
  then have k: "k = last (sorted_list_of_fset (fmdom m))" by simp
  show "k' \<le> k" if "k' |\<in>| fmdom m"
    using sorted_last_ge [of "sorted_list_of_fset (fmdom m)" k'] that by (simp add: k)
qed

lemma last_key_value_None: "last_key_value m = None \<longleftrightarrow> m = fmempty"
proof -
  have "last_key_value m = None \<longleftrightarrow> sorted_list_of_fmap m = []" by (simp add: last_key_value_def Let_def)
  also have "\<dots> \<longleftrightarrow> (\<forall>k v. fmlookup m k \<noteq> Some v)"
    using in_sorted_list_of_fmap [of _ _ m] by (cases "sorted_list_of_fmap m") (fastforce simp del: in_sorted_list_of_fmap)+
  also have "\<dots> \<longleftrightarrow> m = fmempty" by (auto intro: fmap_ext)
  finally show ?thesis .
qed

text \<open>All commits a state has seen: stored or waiting to be written.\<close>

definition commits_of :: "dag_state \<Rightarrow> trusted_commit set" where
  "commits_of st = {c. \<exists>k. fmlookup (ms_commits (ds_store st)) k = Some c} \<union> set (ds_commits_to_write st)"

definition infos_of :: "dag_state \<Rightarrow> commit_info set" where
  "infos_of st = {ci. \<exists>k. fmlookup (ms_commit_info (ds_store st)) k = Some ci} \<union> snd ` set (ds_commit_info_to_write st)"

text \<open>
  The commits have distinct indices, the last commit is the one with the highest, and the commit
  infos have a round for every authority.
\<close>

definition persist_ok :: "consensus_context \<Rightarrow> dag_state \<Rightarrow> bool" where
  "persist_ok cx st \<longleftrightarrow>
     (\<forall>k c. fmlookup (ms_commits (ds_store st)) k = Some c \<longrightarrow> k = (tc_index c, tc_digest c)) \<and>
     inj_on tc_index (commits_of st) \<and> (\<forall>c \<in> commits_of st. tc_index c \<le> last_commit_index st) \<and>
     (case ds_last_commit st of Some l \<Rightarrow> l \<in> commits_of st | None \<Rightarrow> commits_of st = {}) \<and>
     (\<forall>ci \<in> infos_of st. length (ci_committed_rounds ci) = committee_size (cx_committee cx))"

lemma persist_ok_cong:
  assumes "ds_store st' = ds_store st" and "ds_commits_to_write st' = ds_commits_to_write st"
    and "ds_commit_info_to_write st' = ds_commit_info_to_write st" and "ds_last_commit st' = ds_last_commit st"
  shows "persist_ok cx st' = persist_ok cx st"
  unfolding persist_ok_def commits_of_def infos_of_def last_commit_index_def assms ..

lemma persist_ok_same_commits:
  assumes "persist_ok cx st" and "ds_store st' = ds_store st" and "commits_of st' = commits_of st"
    and "ds_last_commit st' = ds_last_commit st"
    and "\<forall>ci \<in> infos_of st'. length (ci_committed_rounds ci) = committee_size (cx_committee cx)"
  shows "persist_ok cx st'"
  using assms(1,5) unfolding persist_ok_def last_commit_index_def assms(2-4) by blast

lemma persist_okD:
  assumes "persist_ok cx st"
  shows "fmlookup (ms_commits (ds_store st)) k = Some c \<Longrightarrow> k = (tc_index c, tc_digest c)"
    and "c \<in> commits_of st \<Longrightarrow> c' \<in> commits_of st \<Longrightarrow> tc_index c = tc_index c' \<Longrightarrow> c = c'"
    and "c \<in> commits_of st \<Longrightarrow> tc_index c \<le> last_commit_index st"
    and "ds_last_commit st = Some l \<Longrightarrow> l \<in> commits_of st"
    and "ds_last_commit st = None \<Longrightarrow> commits_of st = {}"
    and "ci \<in> infos_of st \<Longrightarrow> length (ci_committed_rounds ci) = committee_size (cx_committee cx)"
  using assms unfolding persist_ok_def by (blast, blast dest: inj_onD, blast, simp, simp, blast)

lemma stored_commits: "fmlookup (ms_commits (ds_store st)) k = Some c \<Longrightarrow> c \<in> commits_of st"
  unfolding commits_of_def by blast

lemma persisted_last_commit:
  assumes ok: "persist_ok cx st" and "ds_commits_to_write st = []"
  shows "ms_read_last_commit (ds_store st) = ds_last_commit st"
proof (cases "last_key_value (ms_commits (ds_store st))")
  case None
  then have "commits_of st = {}" using assms(2) by (simp add: commits_of_def last_key_value_None)
  then have "ds_last_commit st = None" using persist_okD(4) [OF ok] by (cases "ds_last_commit st") auto
  with None show ?thesis by (simp add: ms_read_last_commit_def)
next
  case (Some kv)
  obtain k v where kv: "kv = (k, v)" by fastforce
  note last = last_key_value_Some [OF Some [unfolded kv]]
  have v: "v \<in> commits_of st" "k = (tc_index v, tc_digest v)"
    using stored_commits [OF last(1)] persist_okD(1) [OF ok last(1)] .
  then obtain l where l: "ds_last_commit st = Some l" "l \<in> commits_of st"
    using persist_okD(4,5) [OF ok] by (cases "ds_last_commit st") auto
  then obtain k' where k': "fmlookup (ms_commits (ds_store st)) k' = Some l"
    using assms(2) unfolding commits_of_def by auto
  then have "k' \<le> k" by (intro last(2) fmdomI)
  then have "tc_index l \<le> tc_index v" using persist_okD(1) [OF ok k'] v(2) by auto
  moreover have "tc_index v \<le> tc_index l" using persist_okD(3) [OF ok v(1)] l(1) by (simp add: last_commit_index_def)
  ultimately have "v = l" using persist_okD(2) [OF ok v(1) l(2)] by simp
  with Some kv l(1) show ?thesis by (simp add: ms_read_last_commit_def)
qed

text \<open>The last stored commit is the one with the highest index.\<close>

lemma recovered_commits:
  assumes ok: "persist_ok cx st"
  shows "case ms_read_last_commit (ds_store st) of
     Some l \<Rightarrow> (\<exists>k. fmlookup (ms_commits (ds_store st)) k = Some l) \<and>
       (\<forall>k c. fmlookup (ms_commits (ds_store st)) k = Some c \<longrightarrow> tc_index c \<le> tc_index l)
   | None \<Rightarrow> \<forall>k. fmlookup (ms_commits (ds_store st)) k = None"
proof (cases "last_key_value (ms_commits (ds_store st))")
  case None
  moreover from None have "ms_commits (ds_store st) = fmempty" unfolding last_key_value_None .
  ultimately show ?thesis by (simp add: ms_read_last_commit_def)
next
  case (Some kv)
  obtain k v where kv: "kv = (k, v)" by fastforce
  note last = last_key_value_Some [OF Some [unfolded kv]]
  have "tc_index c \<le> tc_index v" if c: "fmlookup (ms_commits (ds_store st)) k' = Some c" for k' c
  proof -
    have "k' \<le> k" using c by (intro last(2) fmdomI)
    then show ?thesis using persist_okD(1) [OF ok c] persist_okD(1) [OF ok last(1)] by auto
  qed
  with last(1) Some kv show ?thesis
    by (auto simp: ms_read_last_commit_def simp del: split_paired_Ex split_paired_All)
qed

lemma ms_read_last_commit_info_stored:
  assumes "ms_read_last_commit_info ms = Some (cr, ci)"
  shows "\<exists>k. fmlookup (ms_commit_info ms) k = Some ci"
proof -
  obtain k where "last_key_value (ms_commit_info ms) = Some (k, ci)"
    using assms by (auto simp: ms_read_last_commit_info_def)
  then have "fmlookup (ms_commit_info ms) k = Some ci" by (rule last_key_value_Some(1))
  then show ?thesis ..
qed

section \<open>Frames of the operations\<close>

lemma evict_authority_frame: "evict_authority cx st a = Some st' \<Longrightarrow> same_frame st st'"
  by (auto simp: evict_authority_def same_frame_def Let_def elim!: bind_SomeE)

lemma flush_frame:
  assumes "flush cx st = Some st'"
  shows "same_frame (written st) st'"
proof (cases "ds_blocks_to_write st = [] \<and> ds_commits_to_write st = [] \<and> ds_commit_info_to_write st = []")
  case True
  with assms have "st' = st" by (auto simp: flush_def Let_def)
  with True show ?thesis by (simp add: written_def same_frame_def ms_write_def Let_def)
next
  case False
  with assms have "foldM (evict_authority cx) (written st) (map fst (committee_authorities (cx_committee cx))) = Some st'"
    by (auto simp: flush_def written_def Let_def)
  then show ?thesis
    by (rule foldM_invariant) (auto intro: same_frame_trans evict_authority_frame)
qed

lemma written_commits:
  assumes "persist_ok cx st"
  shows "{c. \<exists>k. fmlookup (ms_commits (ds_store (written st))) k = Some c} = commits_of st"
    and "fmlookup (ms_commits (ds_store (written st))) k = Some c \<Longrightarrow> k = (tc_index c, tc_digest c)"
proof -
  have lookup: "fmlookup (ms_commits (ds_store (written st))) k =
      (case find (\<lambda>c. (tc_index c, tc_digest c) = k) (rev (ds_commits_to_write st)) of
        Some c \<Rightarrow> Some c | None \<Rightarrow> fmlookup (ms_commits (ds_store st)) k)" for k
    by (simp add: written_def ms_commits_write)
  have key: "fmlookup (ms_commits (ds_store st)) k = Some c \<Longrightarrow> k = (tc_index c, tc_digest c)" for k c
    by (rule persist_okD(1) [OF assms])
  then show "fmlookup (ms_commits (ds_store (written st))) k = Some c \<Longrightarrow> k = (tc_index c, tc_digest c)"
    by (auto simp: lookup split: option.splits dest: find_SomeD)
  have "c \<in> commits_of st" if "fmlookup (ms_commits (ds_store (written st))) k = Some c" for k c
    using that stored_commits [of st k c]
    by (auto simp: lookup split: option.splits dest!: find_SomeD) (simp add: commits_of_def)
  moreover have "fmlookup (ms_commits (ds_store (written st))) (tc_index c, tc_digest c) = Some c" if c: "c \<in> commits_of st" for c
  proof (cases "find (\<lambda>c'. (tc_index c', tc_digest c') = (tc_index c, tc_digest c)) (rev (ds_commits_to_write st))")
    case None
    then have "c \<notin> set (ds_commits_to_write st)" by (auto simp: find_None_iff)
    then obtain k where "fmlookup (ms_commits (ds_store st)) k = Some c" using c unfolding commits_of_def by blast
    with key None show ?thesis by (auto simp: lookup)
  next
    case (Some c')
    then have "c' \<in> commits_of st" "tc_index c' = tc_index c" by (auto simp: commits_of_def dest: find_SomeD)
    then have "c' = c" using persist_okD(2) [OF assms] c by blast
    with Some show ?thesis by (simp add: lookup)
  qed
  ultimately show "{c. \<exists>k. fmlookup (ms_commits (ds_store (written st))) k = Some c} = commits_of st" by blast
qed

lemma written_infos: "infos_of (written st) \<subseteq> infos_of st"
proof -
  have "ci \<in> infos_of st" if ci: "fmlookup (ms_commit_info (ds_store (written st))) k = Some ci" for k ci
  proof (cases "find (\<lambda>(cr, ci). (cr_index cr, cr_digest cr) = k) (rev (ds_commit_info_to_write st))")
    case None
    with ci have "fmlookup (ms_commit_info (ds_store st)) k = Some ci" by (simp add: written_def ms_commit_info_write)
    then show ?thesis unfolding infos_of_def by blast
  next
    case (Some p)
    with ci have "snd p = ci" by (simp add: written_def ms_commit_info_write split: prod.splits)
    moreover have "p \<in> set (ds_commit_info_to_write st)" using find_SomeD [OF Some] by simp
    ultimately show ?thesis unfolding infos_of_def by blast
  qed
  moreover have "ds_commit_info_to_write (written st) = []" by (simp add: written_def)
  ultimately show ?thesis unfolding infos_of_def [of "written st"] by auto
qed

lemma persist_ok_flush:
  assumes ok: "persist_ok cx st" and "flush cx st = Some st'"
  shows "persist_ok cx st'" and "ds_commits_to_write st' = []"
proof -
  have frame: "same_frame (written st) st'" by (rule flush_frame [OF assms(2)])
  have empty: "ds_commits_to_write (written st) = []" by (simp add: written_def)
  then have commits: "commits_of (written st) = commits_of st"
    using written_commits(1) [OF ok] by (simp add: commits_of_def [of "written st"])
  have index: "last_commit_index (written st) = last_commit_index st" by (simp add: last_commit_index_def)
  have "persist_ok cx (written st)"
    unfolding persist_ok_def commits written_sel index
  proof (intro conjI allI impI)
    fix k c assume "fmlookup (ms_commits (ds_store (written st))) k = Some c"
    then show "k = (tc_index c, tc_digest c)" by (rule written_commits(2) [OF ok])
  qed (use ok written_infos [of st] in \<open>auto simp: persist_ok_def\<close>)
  then show "persist_ok cx st'" using frame persist_ok_cong [of st' "written st"] by (simp add: same_frame_def)
  show "ds_commits_to_write st' = []" using frame empty by (simp add: same_frame_def)
qed

lemma accept_block_Some:
  assumes inv: "ds_inv cx st" and acc: "accept_block cx now st b = Some st'"
  shows "ds_inv cx st'" and "ds_lookup st' = spec_accept (ds_lookup st) b"
    and "st' = st \<or> (\<exists>k. st' = (cache_block st b k)\<lparr>ds_blocks_to_write := ds_blocks_to_write st @ [b]\<rparr>)"
proof -
  obtain known where "contains_block st (vb_reference b) = Some known" and round: "0 < vb_round b"
    using acc by (auto simp: accept_block_def Let_def split: if_splits elim!: bind_SomeE)
  then have a: "vb_author b < committee_size (cx_committee cx)"
    using ds_invD(3) [OF inv]
    by (auto simp: contains_block_def contains_blocks_def contains_cached_def ds_shape_def Let_def vec_get_eq_Some
        elim!: bind_SomeE)
  have known: "contains_block st (vb_reference b) = Some (ds_lookup st (vb_reference b) \<noteq> None)"
    using contains_block_lookup [OF inv] a by simp
  obtain k H where k: "tk_inv cx 1 H k" "update_block_metadata cx now st b = Some (cache_block st b k)"
    using update_block_metadata_eq [OF ds_invD(1-4) [OF inv] a round] by blast
  have own: "get_uncommitted_blocks_at_slot st (vb_slot b) = []"
    if "vb_author b = cx_own_index cx" "ds_lookup st (vb_reference b) = None"
    using acc known that by (auto simp: accept_block_def Let_def split: if_splits elim!: bind_SomeE)
  have "\<exists>st'. accept_block cx now st b = Some st' \<and> ds_inv cx st' \<and> ds_lookup st' = spec_accept (ds_lookup st) b \<and>
      ds_last_commit st' = ds_last_commit st"
    by (rule accept_block_spec [OF inv a round own])
  then show "ds_inv cx st'" "ds_lookup st' = spec_accept (ds_lookup st) b" using acc by auto
  show "st' = st \<or> (\<exists>k. st' = (cache_block st b k)\<lparr>ds_blocks_to_write := ds_blocks_to_write st @ [b]\<rparr>)"
    using acc known k(2) by (auto simp: accept_block_def Let_def split: if_splits elim!: bind_SomeE)
qed

section \<open>The transition relation\<close>

text \<open>The operations of the state; \<open>OpRestart\<close> is a crash followed by \<open>DagState::new\<close> on the store.\<close>

datatype dag_op =
    OpAccept timestamp_ms verified_block
  | OpAddCommit timestamp_ms trusted_commit
  | OpRecoverCommits "trusted_commit list"
  | OpAddCommitInfo reputation_scores
  | OpTakeVotes nat
  | OpAddScoring "committed_sub_dag list"
  | OpClearScoring
  | OpSetCommitted block_ref
  | OpLink block_ref
  | OpFlush
  | OpRestart timestamp_ms

fun dag_step :: "crypto \<Rightarrow> consensus_context \<Rightarrow> dag_state \<Rightarrow> dag_op \<Rightarrow> dag_state option" where
  "dag_step C cx st (OpAccept now b) = accept_block cx now st b"
| "dag_step C cx st (OpAddCommit now c) = add_commit cx now st c"
| "dag_step C cx st (OpRecoverCommits cs) = Some (recover_commits_to_write st cs)"
| "dag_step C cx st (OpAddCommitInfo scores) = add_commit_info st scores"
| "dag_step C cx st (OpTakeVotes limit) = Some (fst (take_commit_votes st limit))"
| "dag_step C cx st (OpAddScoring sds) = add_scoring_subdags cx st sds"
| "dag_step C cx st OpClearScoring = Some (clear_scoring_subdag st)"
| "dag_step C cx st (OpSetCommitted r) = map_option fst (set_committed st r)"
| "dag_step C cx st (OpLink r) = map_option fst (link_causal_history cx st r)"
| "dag_step C cx st OpFlush = flush cx st"
| "dag_step C cx st (OpRestart now) = dag_state_new C cx now (ds_store st)"

text \<open>
  What the callers keep to: leaders are committed in the order of their rounds, and only stored
  commits are written again at start-up.
\<close>

fun op_allowed :: "dag_state \<Rightarrow> dag_op \<Rightarrow> bool" where
  "op_allowed st (OpAddCommit now c) = (last_commit_round st \<le> br_round (tc_leader c))"
| "op_allowed st (OpRecoverCommits cs) = (\<forall>c \<in> set cs. fmlookup (ms_commits (ds_store st)) (tc_index c, tc_digest c) = Some c)"
| "op_allowed st _ = True"

definition context_ok :: "consensus_context \<Rightarrow> bool" where
  "context_ok cx \<longleftrightarrow> committee_ok (cx_committee cx) \<and> cx_own_index cx < committee_size (cx_committee cx) \<and>
     1 \<le> pm_dag_state_cached_rounds (cx_parameters cx)"

inductive dag_reach :: "crypto \<Rightarrow> consensus_context \<Rightarrow> dag_op list \<Rightarrow> dag_state \<Rightarrow> bool" for C cx where
  reach_new: "context_ok cx \<Longrightarrow> dag_state_new C cx now mem_store_new = Some st \<Longrightarrow> dag_reach C cx [] st"
| reach_step: "dag_reach C cx ops st \<Longrightarrow> op_allowed st op \<Longrightarrow> dag_step C cx st op = Some st' \<Longrightarrow>
    dag_reach C cx (ops @ [op]) st'"

section \<open>The specification\<close>

text \<open>A database of blocks and a last commit, with what survives a crash.\<close>

record block_db =
  db_known :: "block_ref \<rightharpoonup> verified_block"
  db_durable :: "block_ref \<rightharpoonup> verified_block"
  db_commit :: "trusted_commit option"
  db_durable_commit :: "trusted_commit option"

fun spec_step :: "block_db \<Rightarrow> dag_op \<Rightarrow> block_db" where
  "spec_step db (OpAccept now b) = db\<lparr>db_known := spec_accept (db_known db) b\<rparr>"
| "spec_step db (OpAddCommit now c) =
     (if (case db_commit db of Some l \<Rightarrow> tc_index c \<le> tc_index l | None \<Rightarrow> False) then db else db\<lparr>db_commit := Some c\<rparr>)"
| "spec_step db OpFlush = db\<lparr>db_durable := db_known db, db_durable_commit := db_commit db\<rparr>"
| "spec_step db (OpRestart now) = db\<lparr>db_known := db_durable db, db_commit := db_durable_commit db\<rparr>"
| "spec_step db _ = db"

definition spec_init :: "verified_block list \<Rightarrow> block_db" where
  "spec_init gs = (let g = map_of (map (\<lambda>b. (vb_reference b, b)) (rev gs)) in
     \<lparr>db_known = g, db_durable = g, db_commit = None, db_durable_commit = None\<rparr>)"

definition ds_durable :: "dag_state \<Rightarrow> block_ref \<rightharpoonup> verified_block" where
  "ds_durable st r = (if br_round r = GENESIS_ROUND then fmlookup (ds_genesis st) r else ms_lookup (ds_store st) r)"

definition db_of :: "dag_state \<Rightarrow> block_db" where
  "db_of st = \<lparr>db_known = ds_lookup st, db_durable = ds_durable st,
     db_commit = ds_last_commit st, db_durable_commit = ms_read_last_commit (ds_store st)\<rparr>"

definition machine_inv :: "crypto \<Rightarrow> consensus_context \<Rightarrow> dag_state \<Rightarrow> bool" where
  "machine_inv C cx st \<longleftrightarrow> context_ok cx \<and> ds_inv cx st \<and> persist_ok cx st \<and>
     (\<exists>gs. genesis_blocks C cx = Some gs \<and> ds_genesis st = fmap_of_list (map (\<lambda>b. (vb_reference b, b)) (rev gs)))"

lemma ds_durable_cong:
  "ds_genesis st' = ds_genesis st \<Longrightarrow> ds_store st' = ds_store st \<Longrightarrow> ds_durable st' = ds_durable st"
  by (rule ext) (simp only: ds_durable_def)

lemma db_of_cong:
  "ds_lookup st' = ds_lookup st \<Longrightarrow> ds_genesis st' = ds_genesis st \<Longrightarrow> ds_store st' = ds_store st \<Longrightarrow>
     ds_last_commit st' = ds_last_commit st \<Longrightarrow> db_of st' = db_of st"
  by (simp add: db_of_def ds_durable_cong [of st' st])

lemma ds_inv_store_valid: "ds_inv cx st \<Longrightarrow> store_valid cx (ds_store st)"
  using ds_invD(5) [of cx st] unfolding store_ok_def store_valid_def by blast

text \<open>Steps that leave the blocks, the commits and the store as they are.\<close>

lemma quiet_step:
  assumes inv: "machine_inv C cx st" and "ds_cached st' = ds_cached st"
    and "ds_recent_refs_by_authority st' = ds_recent_refs_by_authority st" "ds_evicted_rounds st' = ds_evicted_rounds st"
    and "ds_last_committed_rounds st' = ds_last_committed_rounds st" and "ds_cached_rounds st' = ds_cached_rounds st"
    and "ds_threshold_clock st' = ds_threshold_clock st" and "ds_blocks_to_write st' = ds_blocks_to_write st"
    and "ds_highest_accepted_round st' = ds_highest_accepted_round st" and "ds_genesis st' = ds_genesis st"
    and "ds_store st' = ds_store st" and "ds_last_commit st' = ds_last_commit st" and "persist_ok cx st'"
  shows "machine_inv C cx st' \<and> db_of st' = db_of st"
proof -
  have ds: "ds_inv cx st" using inv by (simp add: machine_inv_def)
  have gc: "gc_round cx st' = gc_round cx st" by (rule gc_round_cong) (fact assms)
  have "ds_inv cx st'" by (rule ds_inv_cong [OF ds]) (simp_all only: assms gc order_refl)
  then have "machine_inv C cx st'" using inv assms(10,13) by (simp add: machine_inv_def)
  moreover have "ds_lookup st' = ds_lookup st" by (rule ds_lookup_cong) (fact assms)+
  then have "db_of st' = db_of st" by (rule db_of_cong) (fact assms)+
  ultimately show ?thesis ..
qed

lemma status_step:
  assumes inv: "machine_inv C cx st" and "same_but_status st st'"
  shows "machine_inv C cx st' \<and> db_of st' = db_of st"
proof (rule quiet_step [OF inv same_but_status_cached [OF assms(2)]])
  show "persist_ok cx st'"
    using inv same_but_status_frame [OF assms(2)] persist_ok_cong [of st' st cx]
    by (simp add: same_frame_def machine_inv_def)
qed (use assms(2) in \<open>auto simp: same_but_status_def\<close>)

lemma accept_step:
  assumes inv: "machine_inv C cx st" and acc: "accept_block cx now st b = Some st'"
  shows "machine_inv C cx st' \<and> db_of st' = spec_step (db_of st) (OpAccept now b)"
proof -
  have ds: "ds_inv cx st" using inv by (simp add: machine_inv_def)
  note facts = accept_block_Some [OF ds acc]
  have frame: "ds_store st' = ds_store st" "ds_genesis st' = ds_genesis st" "ds_last_commit st' = ds_last_commit st"
      "ds_commits_to_write st' = ds_commits_to_write st" "ds_commit_info_to_write st' = ds_commit_info_to_write st"
    using facts(3) by (auto simp: cache_block_def)
  have "persist_ok cx st'" using inv persist_ok_cong [of st' st cx] frame by (simp add: machine_inv_def)
  moreover have "ds_durable st' = ds_durable st" by (rule ds_durable_cong) (fact frame)+
  ultimately show ?thesis using facts(1,2) inv frame by (simp add: machine_inv_def db_of_def)
qed

lemma raise_committed_authors:
  "foldM raise_committed_round rounds rs = Some rounds' \<Longrightarrow> r \<in> set rs \<Longrightarrow> br_author r < length rounds"
proof (induction rs arbitrary: rounds)
  case (Cons x rs)
  then obtain rounds1 where "raise_committed_round rounds x = Some rounds1" "foldM raise_committed_round rounds1 rs = Some rounds'"
    by (auto elim: bind_SomeE)
  moreover from this have "br_author x < length rounds" "length rounds1 = length rounds"
    by (auto simp: raise_committed_round_def vec_get_eq_Some vec_set_eq_Some elim!: bind_SomeE)
  ultimately show ?case using Cons.IH [of rounds1] Cons.prems(2) by auto
qed simp

lemma add_commit_Some:
  assumes inv: "ds_inv cx st" and add: "add_commit cx now st c = Some st'"
    and allowed: "last_commit_round st \<le> br_round (tc_leader c)"
    and new: "\<not> (case ds_last_commit st of Some l \<Rightarrow> tc_index c \<le> tc_index l | None \<Rightarrow> False)"
  shows "ds_inv cx st' \<and> ds_lookup st' = ds_lookup st \<and> ds_last_commit st' = Some c \<and>
     ds_commits_to_write st' = ds_commits_to_write st @ [c] \<and> tc_index c = last_commit_index st + 1 \<and>
     ds_store st' = ds_store st \<and> ds_genesis st' = ds_genesis st \<and>
     ds_commit_info_to_write st' = ds_commit_info_to_write st"
proof -
  obtain rounds where rounds: "foldM raise_committed_round (ds_last_committed_rounds st) (tc_blocks c) = Some rounds"
    and guards: "tc_index c = last_commit_index st + 1" "last_commit_timestamp_ms st \<le> tc_timestamp_ms c"
    and frame: "ds_store st' = ds_store st" "ds_genesis st' = ds_genesis st"
      "ds_commit_info_to_write st' = ds_commit_info_to_write st"
    using add new
    by (auto simp: add_commit_def Let_def last_commit_index_def last_commit_timestamp_ms_def
        split: if_splits option.splits elim!: bind_SomeE)
  have "length (ds_last_committed_rounds st) = committee_size (cx_committee cx)"
    using ds_invD(3) [OF inv] by (simp add: ds_shape_def Let_def)
  then have "\<forall>r \<in> set (tc_blocks c). br_author r < committee_size (cx_committee cx)"
    using raise_committed_authors [OF rounds] by simp
  with add_commit_spec [OF inv guards allowed, of now] add frame guards show ?thesis by auto
qed

lemma add_commit_step:
  assumes inv: "machine_inv C cx st" and add: "add_commit cx now st c = Some st'"
    and allowed: "last_commit_round st \<le> br_round (tc_leader c)"
  shows "machine_inv C cx st' \<and> db_of st' = spec_step (db_of st) (OpAddCommit now c)"
proof (cases "case ds_last_commit st of Some l \<Rightarrow> tc_index c \<le> tc_index l | None \<Rightarrow> False")
  case True
  then have "st' = st" using add by (simp add: add_commit_def)
  with True inv show ?thesis by (simp add: db_of_def)
next
  case False
  have ds: "ds_inv cx st" and ok: "persist_ok cx st" using inv by (simp_all add: machine_inv_def)
  note facts = add_commit_Some [OF ds add allowed False]
  have commits: "commits_of st' = insert c (commits_of st)" using facts by (auto simp: commits_of_def)
  have index: "last_commit_index st' = tc_index c" using facts by (simp add: last_commit_index_def)
  have lower: "tc_index c' < tc_index c" if "c' \<in> commits_of st" for c'
    using persist_okD(3) [OF ok that] facts by simp
  have "tc_index c \<notin> tc_index ` (commits_of st - {c})" using lower by fastforce
  then have "inj_on tc_index (commits_of st')"
    using ok unfolding commits persist_ok_def by (simp only: inj_on_insert simp_thms)
  moreover have "\<forall>c' \<in> commits_of st'. tc_index c' \<le> last_commit_index st'"
    using lower unfolding commits index by (auto dest: less_imp_le)
  moreover have "infos_of st' = infos_of st" using facts by (simp add: infos_of_def)
  ultimately have "persist_ok cx st'"
    using ok facts commits by (simp add: persist_ok_def)
  moreover have "ds_durable st' = ds_durable st" by (rule ds_durable_cong) (use facts in simp_all)
  ultimately show ?thesis using facts inv False by (simp add: machine_inv_def db_of_def)
qed

lemma flush_step:
  assumes inv: "machine_inv C cx st" and fl: "flush cx st = Some st'"
  shows "machine_inv C cx st' \<and> db_of st' = spec_step (db_of st) OpFlush"
proof -
  have ds: "ds_inv cx st" and ok: "persist_ok cx st" using inv by (simp_all add: machine_inv_def)
  have facts: "ds_inv cx st'" "ds_lookup st' = ds_lookup st" "all_stored st'" "ds_last_commit st' = ds_last_commit st"
    using flush_spec [OF ds] fl by auto
  have "ds_genesis st' = ds_genesis st" using flush_frame [OF fl] by (simp add: same_frame_def)
  moreover have "ds_durable st' = ds_lookup st'"
    using facts(3) by (auto simp: fun_eq_iff ds_durable_def ds_lookup_cached all_stored_def split: option.splits)
  moreover have "ms_read_last_commit (ds_store st') = ds_last_commit st'"
    using persisted_last_commit [OF persist_ok_flush [OF ok fl]] .
  ultimately show ?thesis
    using facts inv persist_ok_flush(1) [OF ok fl] by (simp add: machine_inv_def db_of_def)
qed

lemma restart_step:
  assumes inv: "machine_inv C cx st" and new: "dag_state_new C cx now (ds_store st) = Some st'"
  shows "machine_inv C cx st' \<and> db_of st' = spec_step (db_of st) (OpRestart now)"
proof -
  have ds: "ds_inv cx st" and ok: "persist_ok cx st" and cx: "context_ok cx" using inv by (simp_all add: machine_inv_def)
  obtain gs where gs: "genesis_blocks C cx = Some gs" "ds_genesis st = fmap_of_list (map (\<lambda>b. (vb_reference b, b)) (rev gs))"
    using inv by (auto simp: machine_inv_def)
  have infos: "length (ci_committed_rounds ci) = committee_size (cx_committee cx)"
    if "ms_read_last_commit_info (ds_store st) = Some (cr, ci)" for cr ci
  proof -
    have "ci \<in> infos_of st" using ms_read_last_commit_info_stored [OF that] unfolding infos_of_def by blast
    then show ?thesis by (rule persist_okD(6) [OF ok])
  qed
  have facts: "ds_inv cx st'" "ds_store st' = ds_store st" "ds_commits_to_write st' = []" "ds_commit_info_to_write st' = []"
      "ds_last_commit st' = ms_read_last_commit (ds_store st)" "ds_genesis st' = ds_genesis st"
      "ds_lookup st' = ds_durable st"
    unfolding fun_eq_iff ds_durable_def using dag_state_new_spec [OF _ _ _ ds_inv_store_valid [OF ds] infos new gs(1)] cx gs(2)
    by (auto simp: context_ok_def)
  have commits: "commits_of st' \<subseteq> commits_of st" "infos_of st' \<subseteq> infos_of st"
    using facts(2-4) unfolding commits_of_def infos_of_def by auto
  have "case ds_last_commit st' of Some l \<Rightarrow> l \<in> commits_of st' | None \<Rightarrow> commits_of st' = {}"
    and "\<forall>c \<in> commits_of st'. tc_index c \<le> last_commit_index st'"
    using recovered_commits [OF ok] facts(2,3,5)
    by (cases "ms_read_last_commit (ds_store st)";
        auto simp: commits_of_def last_commit_index_def simp del: split_paired_Ex split_paired_All)+
  then have "persist_ok cx st'"
    using ok commits facts(2) unfolding persist_ok_def by (auto intro: inj_on_subset)
  moreover have "ds_durable st' = ds_durable st" by (rule ds_durable_cong) (fact facts)+
  ultimately show ?thesis using facts gs inv by (simp add: machine_inv_def db_of_def)
qed

lemma commit_info_step:
  assumes inv: "machine_inv C cx st" and add: "add_commit_info st scores = Some st'"
  shows "machine_inv C cx st' \<and> db_of st' = db_of st"
proof -
  obtain l where st': "st' = st\<lparr>ds_commit_info_to_write := ds_commit_info_to_write st @
       [(tc_reference l, \<lparr>ci_committed_rounds = ds_last_committed_rounds st, ci_reputation_scores = scores\<rparr>)]\<rparr>"
    using add by (auto simp: add_commit_info_def elim!: bind_SomeE split: if_splits)
  have "length (ds_last_committed_rounds st) = committee_size (cx_committee cx)"
    using inv ds_invD(3) [of cx st] by (simp add: machine_inv_def ds_shape_def Let_def)
  then have infos: "\<forall>ci \<in> infos_of st'. length (ci_committed_rounds ci) = committee_size (cx_committee cx)"
    using inv unfolding machine_inv_def persist_ok_def by (auto simp: infos_of_def st')
  have "persist_ok cx st'"
    by (rule persist_ok_same_commits [OF _ _ _ _ infos, of st])
      (use inv in \<open>simp_all add: machine_inv_def st' commits_of_def\<close>)
  then show ?thesis by (intro quiet_step [OF inv]) (simp_all add: st' ds_cached_def)
qed

lemma recover_commits_step:
  assumes inv: "machine_inv C cx st"
    and cs: "\<forall>c \<in> set cs. fmlookup (ms_commits (ds_store st)) (tc_index c, tc_digest c) = Some c"
  shows "machine_inv C cx (recover_commits_to_write st cs) \<and> db_of (recover_commits_to_write st cs) = db_of st"
    (is "machine_inv C cx ?st' \<and> _")
proof -
  have "set cs \<subseteq> commits_of st" using cs stored_commits by blast
  then have commits: "commits_of ?st' = commits_of st" unfolding commits_of_def recover_commits_to_write_def by auto
  have ok: "persist_ok cx st" using inv by (simp add: machine_inv_def)
  have "infos_of ?st' = infos_of st" by (simp add: recover_commits_to_write_def infos_of_def)
  then have infos: "\<forall>ci \<in> infos_of ?st'. length (ci_committed_rounds ci) = committee_size (cx_committee cx)"
    using persist_okD(6) [OF ok] by blast
  have "persist_ok cx ?st'"
    by (rule persist_ok_same_commits [OF ok _ commits _ infos]) (simp_all add: recover_commits_to_write_def)
  then show ?thesis by (intro quiet_step [OF inv]) (simp_all add: recover_commits_to_write_def ds_cached_def)
qed

lemma machine_step:
  assumes inv: "machine_inv C cx st" and "op_allowed st op" and step: "dag_step C cx st op = Some st'"
  shows "machine_inv C cx st' \<and> db_of st' = spec_step (db_of st) op"
proof -
  have ok: "persist_ok cx st" using inv by (simp add: machine_inv_def)
  have votes: "machine_inv C cx (st\<lparr>ds_pending_commit_votes := vs\<rparr>) \<and> db_of (st\<lparr>ds_pending_commit_votes := vs\<rparr>) = db_of st" for vs
  proof (rule quiet_step [OF inv])
    show "persist_ok cx (st\<lparr>ds_pending_commit_votes := vs\<rparr>)" by (subst persist_ok_cong [of _ st]) (simp_all add: ok)
  qed (simp_all add: ds_cached_def)
  have scoring: "machine_inv C cx (st\<lparr>ds_scoring_subdag := sg\<rparr>) \<and> db_of (st\<lparr>ds_scoring_subdag := sg\<rparr>) = db_of st" for sg
  proof (rule quiet_step [OF inv])
    show "persist_ok cx (st\<lparr>ds_scoring_subdag := sg\<rparr>)" by (subst persist_ok_cong [of _ st]) (simp_all add: ok)
  qed (simp_all add: ds_cached_def)
  show ?thesis
  proof (cases op)
    case (OpSetCommitted r)
    with step obtain first where "set_committed st r = Some (st', first)" by auto
    from status_step [OF inv set_committed_status [OF this]] OpSetCommitted show ?thesis by simp
  next
    case (OpLink r)
    with step obtain new where "link_causal_history cx st r = Some (st', new)" by auto
    from status_step [OF inv link_causal_history_status [OF this]] OpLink show ?thesis by simp
  next
    case (OpTakeVotes n)
    with step show ?thesis using votes by (auto simp: take_commit_votes_def)
  next
    case (OpAddScoring sds)
    with step obtain sg where "st' = st\<lparr>ds_scoring_subdag := sg\<rparr>"
      by (auto simp: add_scoring_subdags_def elim!: bind_SomeE)
    with OpAddScoring show ?thesis using scoring by simp
  next
    case OpClearScoring
    with step show ?thesis using scoring by (auto simp: clear_scoring_subdag_def)
  next
    case (OpAccept now b)
    with step show ?thesis using accept_step [OF inv] by simp
  next
    case (OpAddCommit now c)
    with step assms(2) show ?thesis using add_commit_step [OF inv, of now c st'] by simp
  next
    case (OpRecoverCommits cs)
    with step assms(2) show ?thesis using recover_commits_step [OF inv, of cs] by auto
  next
    case (OpAddCommitInfo scores)
    with step show ?thesis using commit_info_step [OF inv, of scores st'] by simp
  next
    case OpFlush
    with step show ?thesis using flush_step [OF inv, of st'] by simp
  next
    case (OpRestart now)
    with step show ?thesis using restart_step [OF inv, of now st'] by simp
  qed
qed

text \<open>Every reachable state satisfies the invariant and shows what the specification shows.\<close>

lemma reach_machine:
  assumes "dag_reach C cx ops st"
  shows "machine_inv C cx st \<and> (\<exists>gs. genesis_blocks C cx = Some gs \<and> db_of st = foldl spec_step (spec_init gs) ops)"
  using assms
proof induction
  case (reach_new now st)
  then obtain gs where gs: "genesis_blocks C cx = Some gs" by (auto simp: dag_state_new_def elim: bind_SomeE)
  have valid: "store_valid cx mem_store_new"
    by (simp add: store_valid_def ms_inv_new) (simp add: mem_store_new_def ms_lookup_def)
  have empty: "ms_read_last_commit_info mem_store_new = None" "ms_read_last_commit mem_store_new = None"
    by (simp_all add: ms_read_last_commit_info_def ms_read_last_commit_def mem_store_new_def last_key_value_None)
  have facts: "ds_inv cx st" "ds_store st = mem_store_new" "ds_commits_to_write st = []" "ds_commit_info_to_write st = []"
      "ds_last_commit st = None" "ds_genesis st = fmap_of_list (map (\<lambda>b. (vb_reference b, b)) (rev gs))"
      "\<forall>r. ds_lookup st r = (if br_round r = GENESIS_ROUND then fmlookup (ds_genesis st) r else None)"
    using dag_state_new_spec [OF _ _ _ valid _ reach_new(2) gs] reach_new(1) empty
    by (auto simp: context_ok_def mem_store_new_def ms_lookup_def)
  have "persist_ok cx st"
    using facts by (simp add: persist_ok_def commits_of_def infos_of_def mem_store_new_def)
  then have "machine_inv C cx st" using facts reach_new(1) gs by (simp add: machine_inv_def)
  moreover have lookup: "ds_lookup st = fmlookup (ds_genesis st)"
  proof
    fix r
    show "ds_lookup st r = fmlookup (ds_genesis st) r"
    proof (cases "fmlookup (ds_genesis st) r")
      case (Some b)
      then have "br_round r = GENESIS_ROUND" using genesis_map(1) [OF gs] unfolding facts(6) by blast
      with facts(7) show ?thesis by simp
    qed (use facts(7) in simp)
  qed
  moreover have "ds_durable st = ds_lookup st"
    using facts(2,7) by (auto simp: fun_eq_iff ds_durable_def mem_store_new_def ms_lookup_def)
  ultimately show ?case
    using gs facts empty by (auto simp: db_of_def spec_init_def Let_def fmlookup_of_list)
next
  case (reach_step ops st op st')
  then show ?case using machine_step [of C cx st op st'] by auto
qed

text \<open>A state holds genesis blocks and accepted blocks only.\<close>

lemma spec_step_known:
  "db_known (spec_step db op) r = Some b \<or> db_durable (spec_step db op) r = Some b \<Longrightarrow>
     db_known db r = Some b \<or> db_durable db r = Some b \<or> (\<exists>now. op = OpAccept now b)"
  by (cases op) (auto simp: spec_accept_def split: if_splits)

lemma spec_known:
  "db_known (foldl spec_step (spec_init gs) ops) r = Some b \<or> db_durable (foldl spec_step (spec_init gs) ops) r = Some b \<Longrightarrow>
     b \<in> set gs \<or> (\<exists>now. OpAccept now b \<in> set ops)"
proof (induction ops arbitrary: r rule: rev_induct)
  case Nil
  then show ?case by (auto simp: spec_init_def Let_def dest!: map_of_SomeD)
next
  case (snoc op ops)
  then have "db_known (foldl spec_step (spec_init gs) ops) r = Some b \<or>
      db_durable (foldl spec_step (spec_init gs) ops) r = Some b \<or> (\<exists>now. op = OpAccept now b)"
    using spec_step_known [of "foldl spec_step (spec_init gs) ops" op r b] by simp
  then show ?case using snoc.IH [of r] by auto
qed

lemma reach_known:
  assumes "dag_reach C cx ops st" and "ds_lookup st r = Some b"
  shows "vb_reference b = r" and "vb_round b = 0 \<and> vb_ancestors b = [] \<or> (\<exists>now. OpAccept now b \<in> set ops)"
proof -
  obtain gs where inv: "machine_inv C cx st" and gs: "genesis_blocks C cx = Some gs"
    and db: "db_of st = foldl spec_step (spec_init gs) ops"
    using reach_machine [OF assms(1)] by blast
  show "vb_reference b = r" using ds_lookup_reference [of cx st, OF _ assms(2)] inv by (simp add: machine_inv_def)
  have "db_known (foldl spec_step (spec_init gs) ops) r = Some b" using assms(2) by (simp add: db [symmetric] db_of_def)
  then show "vb_round b = 0 \<and> vb_ancestors b = [] \<or> (\<exists>now. OpAccept now b \<in> set ops)"
    using spec_known [of gs ops r b] genesis_blocks_in_set [OF gs] by blast
qed

definition accepted_blocks :: "dag_op list \<Rightarrow> verified_block list" where
  "accepted_blocks ops = concat (map (\<lambda>op. case op of OpAccept now b \<Rightarrow> [b] | _ \<Rightarrow> []) ops)"

lemma accepted_blocks_iff: "b \<in> set (accepted_blocks ops) \<longleftrightarrow> (\<exists>now. OpAccept now b \<in> set ops)"
  by (force simp: accepted_blocks_def split: dag_op.splits)

lemma reach_history:
  assumes reach: "dag_reach C cx ops st"
    and "\<forall>b \<in> set (accepted_blocks ops). \<forall>y \<in> set (vb_ancestors b). br_round y < vb_round b \<and>
      (lo < br_round y \<longrightarrow> ds_lookup st y \<noteq> None)"
  shows "wf_history (ds_lookup st)" and "complete_above (ds_lookup st) lo"
proof -
  have anc: "br_round y < vb_round b \<and> (lo < br_round y \<longrightarrow> ds_lookup st y \<noteq> None)"
    if "ds_lookup st r = Some b" "y \<in> set (vb_ancestors b)" for r b y
    using reach_known(2) [OF reach that(1)] that(2) assms(2) by (auto simp: accepted_blocks_iff)
  have ref: "ds_lookup st r = Some b \<Longrightarrow> vb_reference b = r" for r b by (rule reach_known(1) [OF reach])
  show "wf_history (ds_lookup st)"
    unfolding wf_history_def using anc ref by (metis br_round_reference)
  show "complete_above (ds_lookup st) lo" unfolding complete_above_def using anc by blast
qed

section \<open>Runs\<close>

text \<open>An executable run of operations from an empty store, for the concrete instances.\<close>

definition dag_run :: "crypto \<Rightarrow> consensus_context \<Rightarrow> timestamp_ms \<Rightarrow> dag_op list \<Rightarrow> dag_state option" where
  "dag_run C cx now ops = Option.bind (dag_state_new C cx now mem_store_new)
     (\<lambda>st. foldM (\<lambda>st op. if op_allowed st op then dag_step C cx st op else None) st ops)"

lemma dag_run_reach:
  assumes "context_ok cx" and "dag_run C cx now ops = Some st"
  shows "dag_reach C cx ops st"
proof -
  obtain st0 where st0: "dag_state_new C cx now mem_store_new = Some st0"
    and run: "foldM (\<lambda>st op. if op_allowed st op then dag_step C cx st op else None) st0 ops = Some st"
    using assms(2) by (auto simp: dag_run_def elim: bind_SomeE)
  have "dag_reach C cx [] st0" using assms(1) st0 by (rule reach_new)
  with run show ?thesis
  proof (induction ops arbitrary: st rule: rev_induct)
    case (snoc op ops)
    then show ?case by (auto simp: foldM_append elim!: bind_SomeE split: if_splits intro: reach_step)
  qed simp
qed

lemma context_ok_example: "context_ok example_context"
  by (simp add: context_ok_def example_context_def)

text \<open>Two rounds of the four authorities, the second without the last one, then a flush.\<close>

definition example_round1 :: "verified_block list" where
  "example_round1 = map (\<lambda>a. example_block 1 a 1 []) [0, 1, 2, 3]"

definition example_round2 :: "verified_block list" where
  "example_round2 = map (\<lambda>a. example_block 2 a 1 (map vb_reference (take 3 example_round1))) [0, 1, 2]"

definition example_ops :: "dag_op list" where
  "example_ops = map (OpAccept 7) (example_round1 @ example_round2) @ [OpFlush]"

declare link_loop.simps [code]
declare link_down.simps [code]

lemma example_run: "\<exists>st. dag_run example_crypto example_context 5 example_ops = Some st"
proof -
  have "dag_run example_crypto example_context 5 example_ops \<noteq> None" by code_simp
  then show ?thesis by simp
qed

section \<open>Properties\<close>

text \<open>
  a batched read through genesis, cache and store returns for each reference, in order, what a
  read of that reference alone returns.
\<close>

theorem get_blocks_pointwise:
  "get_blocks st refs = map (get_block st) refs \<and> (\<forall>r. get_block st r =
     (if br_round r = GENESIS_ROUND then fmlookup (ds_genesis st) r
      else (case fmlookup (ds_recent_blocks st) r of
          Some bi \<Rightarrow> Some (bi_block bi)
        | None \<Rightarrow> fmlookup (ms_blocks (ds_store st)) (block_key r))))"
  by (simp add: get_blocks_lookup get_block_lookup fun_eq_iff ds_lookup_def ms_lookup_def cong: option.case_cong)

text \<open>
  C33: whatever operations, flushes and restarts led to a state, the answer of \<open>contains_blocks\<close>,
  which skips the store for references above the last cached one of their author, is whether
  \<open>get_blocks\<close> finds the block, and it never panics on valid authors.
\<close>

theorem contains_blocks_correct:
  assumes "dag_reach C cx ops st" and "\<forall>r \<in> set refs. br_author r < committee_size (cx_committee cx)"
  shows "contains_blocks st refs = Some (map (\<lambda>b. b \<noteq> None) (get_blocks st refs))"
proof -
  have "ds_inv cx st" using reach_machine [OF assms(1)] by (simp add: machine_inv_def)
  then show ?thesis using contains_blocks_lookup assms(2) by (simp add: get_blocks_lookup comp_def)
qed

theorem contains_blocks_correct_witness:
  "\<exists>st. dag_run example_crypto example_context 5 example_ops = Some st \<and>
     contains_blocks st [BlockRef 1 3 1, BlockRef 2 3 1] =
       Some (map (\<lambda>b. b \<noteq> None) (get_blocks st [BlockRef 1 3 1, BlockRef 2 3 1]))"
proof -
  obtain st where st: "dag_run example_crypto example_context 5 example_ops = Some st" using example_run by blast
  then have "dag_reach example_crypto example_context example_ops st" by (rule dag_run_reach [OF context_ok_example])
  from contains_blocks_correct [OF this, of "[BlockRef 1 3 1, BlockRef 2 3 1]"] st show ?thesis by simp
qed

text \<open>
  C32: \<open>DagState\<close> refines a database with durable and volatile contents: after any sequence of
  operations, flushes and crashes with restart, the blocks it returns, the blocks in its store and
  the last commit in memory and on disk are those of the specification; a flush makes everything
  durable and a restart brings back exactly what was durable.
\<close>

theorem dag_state_refines:
  assumes "dag_reach C cx ops st"
  shows "\<exists>gs. genesis_blocks C cx = Some gs \<and> db_of st = foldl spec_step (spec_init gs) ops"
  using reach_machine [OF assms] by blast

theorem dag_state_refines_witness:
  "\<exists>st gs. dag_run example_crypto example_context 5 (example_ops @ [OpRestart 9]) = Some st \<and>
     genesis_blocks example_crypto example_context = Some gs \<and>
     db_of st = foldl spec_step (spec_init gs) (example_ops @ [OpRestart 9])"
proof -
  have "dag_run example_crypto example_context 5 (example_ops @ [OpRestart 9]) \<noteq> None" by code_simp
  then obtain st where st: "dag_run example_crypto example_context 5 (example_ops @ [OpRestart 9]) = Some st" by blast
  from dag_state_refines [OF dag_run_reach [OF context_ok_example this]] st show ?thesis by blast
qed

text \<open>
  C34: in every reachable state a known block above the garbage collection round is in the cache, so
  the reads of the commit rule and of the linearizer, which look at the cache only, miss nothing.
\<close>

theorem known_above_gc_cached:
  assumes "dag_reach C cx ops st" and "gc_round cx st < br_round r"
  shows "get_block st r = map_option bi_block (fmlookup (ds_recent_blocks st) r)"
proof -
  have "ds_inv cx st" using reach_machine [OF assms(1)] by (simp add: machine_inv_def)
  from lookup_above_gc [OF this assms(2)] show ?thesis by (simp add: get_block_lookup ds_cached_lookup)
qed

theorem known_above_gc_cached_witness:
  "\<exists>st. dag_run example_crypto example_context 5 example_ops = Some st \<and>
     get_block st (BlockRef 2 1 1) = map_option bi_block (fmlookup (ds_recent_blocks st) (BlockRef 2 1 1)) \<and>
     fmlookup (ds_recent_blocks st) (BlockRef 2 1 1) \<noteq> None"
proof -
  have run: "case dag_run example_crypto example_context 5 example_ops of
      Some st \<Rightarrow> gc_round example_context st < 2 \<and> fmlookup (ds_recent_blocks st) (BlockRef 2 1 1) \<noteq> None
    | None \<Rightarrow> False" by code_simp
  then obtain st where st: "dag_run example_crypto example_context 5 example_ops = Some st"
      "gc_round example_context st < 2" "fmlookup (ds_recent_blocks st) (BlockRef 2 1 1) \<noteq> None"
    by (auto split: option.splits)
  from known_above_gc_cached [OF dag_run_reach [OF context_ok_example st(1)], of "BlockRef 2 1 1"] st show ?thesis
    by auto
qed

text \<open>
  C35: on a history whose blocks have ancestors of lower rounds, all of them known down to the round
  asked for, \<open>ancestors_at_round\<close> ends without a panic and returns, in the order of their references,
  exactly the blocks of that round that are linked from the later block through higher rounds.
\<close>

theorem ancestors_at_round_exact:
  assumes "wf_history (get_block st)" and "complete_above (get_block st) lo"
    and "\<forall>y \<in> set (vb_ancestors b). lo < br_round y \<longrightarrow> get_block st y \<noteq> None"
  shows "\<exists>bs. ancestors_at_round st b (lo + 1) = Some bs \<and> sorted_wrt (<) (map vb_reference bs) \<and>
     set bs = {x. get_block st (vb_reference x) = Some x \<and> vb_round x = lo + 1 \<and>
       linked_to (get_block st) (lo + 1) (set (vb_ancestors b)) (vb_reference x)}"
proof -
  have get: "get_block st = ds_lookup st" by (rule ext) (rule get_block_lookup)
  have "ds_lookup st x \<noteq> None" if "linked_to (ds_lookup st) (lo + 1) (set (vb_ancestors b)) x" "lo + 1 \<le> br_round x" for x
    using that assms(2,3) unfolding get by cases (auto simp: complete_above_def)
  with ancestors_at_round_spec [OF assms(1) [unfolded get], of "lo + 1" b] show ?thesis
    unfolding get by simp
qed

theorem ancestors_at_round_exact_witness:
  "\<exists>st bs. dag_run example_crypto example_context 5 example_ops = Some st \<and>
     ancestors_at_round st (example_block 3 0 1 (map vb_reference example_round2)) (0 + 1) = Some bs \<and>
     set bs = {x. get_block st (vb_reference x) = Some x \<and> vb_round x = 0 + 1 \<and>
       linked_to (get_block st) (0 + 1) (set (map vb_reference example_round2)) (vb_reference x)}"
proof -
  have "case dag_run example_crypto example_context 5 example_ops of
      Some st \<Rightarrow> (\<forall>b \<in> set (accepted_blocks example_ops). \<forall>y \<in> set (vb_ancestors b). br_round y < vb_round b \<and>
          (0 < br_round y \<longrightarrow> ds_lookup st y \<noteq> None)) \<and>
        (\<forall>y \<in> set (map vb_reference example_round2). ds_lookup st y \<noteq> None)
    | None \<Rightarrow> False" by code_simp
  then obtain st where st: "dag_run example_crypto example_context 5 example_ops = Some st"
    and acc: "\<forall>b \<in> set (accepted_blocks example_ops). \<forall>y \<in> set (vb_ancestors b). br_round y < vb_round b \<and>
          (0 < br_round y \<longrightarrow> ds_lookup st y \<noteq> None)"
    and last: "\<forall>y \<in> set (map vb_reference example_round2). ds_lookup st y \<noteq> None"
    by (auto split: option.splits)
  have get: "get_block st = ds_lookup st" by (rule ext) (rule get_block_lookup)
  note history = reach_history [OF dag_run_reach [OF context_ok_example st] acc, folded get]
  from ancestors_at_round_exact [OF history, of "example_block 3 0 1 (map vb_reference example_round2)"]
    last [folded get] st
  show ?thesis by auto
qed

text \<open>
  C36: in a reachable state whose cached blocks above the garbage collection round have their
  ancestors above it cached, and whose hard links are closed, linking the causal history of a block
  ends without a panic and marks exactly the not yet linked blocks above the garbage collection
  round in the history of the block, each reported once; the links stay closed.
\<close>

theorem link_causal_history_exact:
  assumes "complete_above (\<lambda>r. map_option bi_block (fmlookup (ds_recent_blocks st) r)) (gc_round cx st)"
    and "gc_round cx st < br_round root \<longrightarrow> root |\<in>| fmdom (ds_recent_blocks st)" and "links_closed cx st"
  shows "\<exists>st' new. link_causal_history cx st root = Some (st', new) \<and> distinct new \<and> links_closed cx st' \<and>
     set new = {r. linked_to (\<lambda>r. map_option bi_block (fmlookup (ds_recent_blocks st) r)) (gc_round cx st) {root} r \<and>
       gc_round cx st < br_round r \<and> is_hard_linked st r \<noteq> Some True} \<and>
     (\<forall>r. is_hard_linked st' r = (if r \<in> set new then Some True else is_hard_linked st r))"
proof -
  have cached: "fmlookup (ds_cached st) = (\<lambda>r. map_option bi_block (fmlookup (ds_recent_blocks st) r))"
    by (rule ext) (rule ds_cached_lookup)
  have dom: "fmdom (ds_cached st) = fmdom (ds_recent_blocks st)" by (simp add: ds_cached_def)
  obtain recent new where run: "link_causal_history cx st root = Some (st\<lparr>ds_recent_blocks := recent\<rparr>, new)"
    and same: "same_but_links (ds_recent_blocks st) recent" and "distinct new"
    and H: "hard_linked recent = hard_linked (ds_recent_blocks st) \<union> set new"
    and closed: "links_closed cx (st\<lparr>ds_recent_blocks := recent\<rparr>)"
    and new: "set new = {r. linked_to (fmlookup (ds_cached st)) (gc_round cx st) {root} r \<and> gc_round cx st < br_round r} -
       hard_linked (ds_recent_blocks st)"
    using link_causal_history_spec [of st cx root] assms unfolding cached dom by blast
  have hl: "r \<in> hard_linked m \<longleftrightarrow> map_option bi_hard_linked (fmlookup m r) = Some True" for r m
    by (auto simp: hard_linked_def)
  have "fmdom recent = fmdom (ds_recent_blocks st)"
    using arg_cong [OF same [unfolded same_but_links_def], of fmdom] by simp
  then have none: "fmlookup recent r = None \<longleftrightarrow> fmlookup (ds_recent_blocks st) r = None" for r
    by (metis fmdom_notD fmdom_notI)
  have "map_option bi_hard_linked (fmlookup recent r) =
      (if r \<in> set new then Some True else map_option bi_hard_linked (fmlookup (ds_recent_blocks st) r))" for r
    using hl [of r recent] hl [of r "ds_recent_blocks st"] H none [of r]
    by (cases "fmlookup recent r"; cases "fmlookup (ds_recent_blocks st) r") auto
  then show ?thesis
    using run \<open>distinct new\<close> closed new hl [of _ "ds_recent_blocks st"]
    by (intro exI [of _ "st\<lparr>ds_recent_blocks := recent\<rparr>"] exI [of _ new])
      (auto simp: cached is_hard_linked_def)
qed

theorem link_causal_history_exact_witness:
  "\<exists>st st' new. dag_run example_crypto example_context 5 example_ops = Some st \<and>
     link_causal_history example_context st (BlockRef 2 0 1) = Some (st', new) \<and> distinct new \<and>
     (\<forall>r. is_hard_linked st' r = (if r \<in> set new then Some True else is_hard_linked st r))"
proof -
  have "case dag_run example_crypto example_context 5 example_ops of
      Some st \<Rightarrow> BlockRef 2 0 1 |\<in>| fmdom (ds_recent_blocks st) \<and>
        (\<forall>(r, bi) \<in> set (sorted_list_of_fmap (ds_recent_blocks st)). \<not> bi_hard_linked bi \<and>
          (\<forall>y \<in> set (vb_ancestors (bi_block bi)). fmlookup (ds_recent_blocks st) y \<noteq> None))
    | None \<Rightarrow> False" by code_simp
  then obtain st where st: "dag_run example_crypto example_context 5 example_ops = Some st"
    and root: "BlockRef 2 0 1 |\<in>| fmdom (ds_recent_blocks st)"
    and blocks: "\<forall>(r, bi) \<in> set (sorted_list_of_fmap (ds_recent_blocks st)). \<not> bi_hard_linked bi \<and>
          (\<forall>y \<in> set (vb_ancestors (bi_block bi)). fmlookup (ds_recent_blocks st) y \<noteq> None)"
    by (auto split: option.splits simp del: in_sorted_list_of_fmap)
  have block: "\<not> bi_hard_linked bi \<and> (\<forall>y \<in> set (vb_ancestors (bi_block bi)). fmlookup (ds_recent_blocks st) y \<noteq> None)"
    if "fmlookup (ds_recent_blocks st) r = Some bi" for r bi
    using blocks that by fastforce
  then have "hard_linked (ds_recent_blocks st) = {}" by (auto simp: hard_linked_def)
  then have "links_closed example_context st" by (simp add: links_closed_def)
  moreover have "complete_above (\<lambda>r. map_option bi_block (fmlookup (ds_recent_blocks st) r)) (gc_round example_context st)"
    using block by (fastforce simp: complete_above_def)
  ultimately show ?thesis
    using link_causal_history_exact [of st example_context "BlockRef 2 0 1"] root st by blast
qed

end
