(* ===== verification/Dag_Agreement.thy ===== *)
theory Dag_Agreement
  imports Dag_Operations Commits
begin

text \<open>
  The argument behind the commit rule, on block DAGs rather than on code: votes, certificates and
  blames as sets of authorities, and the facts that follow from intersecting quorums when the stake of
  the equivocating authorities is below the validity threshold. The map \<open>D\<close> holds every block
  any validator ever accepted; a validator sees a part \<open>m\<close> of it.
\<close>

section \<open>Valid DAGs\<close>

text \<open>What the block verifier checks of a block: one ancestor per author, lower rounds, a quorum of parents.\<close>

definition block_ok :: "committee \<Rightarrow> verified_block \<Rightarrow> bool" where
  "block_ok c b \<longleftrightarrow> vb_author b < committee_size c \<and>
     (\<forall>y \<in> set (vb_ancestors b). br_author y < committee_size c \<and> br_round y < vb_round b) \<and>
     distinct (map br_author (vb_ancestors b)) \<and>
     (0 < vb_round b \<longrightarrow>
       reached_quorum c (weight c {br_author y |y. y \<in> set (vb_ancestors b) \<and> br_round y + 1 = vb_round b}))"

definition valid_dag :: "committee \<Rightarrow> (block_ref \<rightharpoonup> verified_block) \<Rightarrow> bool" where
  "valid_dag c D \<longleftrightarrow> (\<forall>r b. D r = Some b \<longrightarrow> vb_reference b = r \<and> block_ok c b)"

text \<open>Only authorities in \<open>Byz\<close>, below the validity threshold together, sign two blocks for a round.\<close>

definition few_equivocators :: "committee \<Rightarrow> authority_index set \<Rightarrow> (block_ref \<rightharpoonup> verified_block) \<Rightarrow> bool" where
  "few_equivocators c Byz D \<longleftrightarrow> \<not> reached_validity c (weight c Byz) \<and>
     (\<forall>r r'. D r \<noteq> None \<longrightarrow> D r' \<noteq> None \<longrightarrow> slot_of_ref r = slot_of_ref r' \<longrightarrow> br_author r \<notin> Byz \<longrightarrow> r = r')"

definition dag_ok :: "committee \<Rightarrow> authority_index set \<Rightarrow> (block_ref \<rightharpoonup> verified_block) \<Rightarrow> bool" where
  "dag_ok c Byz D \<longleftrightarrow> committee_ok c \<and> valid_dag c D \<and> few_equivocators c Byz D"

text \<open>What one validator holds: a part of the DAG, complete above its garbage collection round.\<close>

definition view_of :: "(block_ref \<rightharpoonup> verified_block) \<Rightarrow> round \<Rightarrow> (block_ref \<rightharpoonup> verified_block) \<Rightarrow> bool" where
  "view_of D gc m \<longleftrightarrow> (\<forall>r b. m r = Some b \<longrightarrow> D r = Some b) \<and> complete_above m gc"

section \<open>Votes, certificates, blames\<close>

definition voters :: "(block_ref \<rightharpoonup> verified_block) \<Rightarrow> block_ref \<Rightarrow> verified_block \<Rightarrow> authority_index set" where
  "voters D l x = {br_author y |y. y \<in> set (vb_ancestors x) \<and> (\<exists>v. D y = Some v \<and> l \<in> set (vb_ancestors v))}"

definition certifies :: "committee \<Rightarrow> (block_ref \<rightharpoonup> verified_block) \<Rightarrow> verified_block \<Rightarrow> block_ref \<Rightarrow> bool" where
  "certifies c D x l \<longleftrightarrow> vb_round x = br_round l + 2 \<and> reached_quorum c (weight c (voters D l x))"

definition blamed :: "committee \<Rightarrow> (block_ref \<rightharpoonup> verified_block) \<Rightarrow> slot \<Rightarrow> bool" where
  "blamed c m s \<longleftrightarrow> reached_quorum c (weight c {br_author r |r. br_round r = slot_round s + 1 \<and>
     (\<exists>b. m r = Some b \<and> (\<forall>a \<in> set (vb_ancestors b). br_author a \<noteq> slot_authority s))})"

definition supported :: "committee \<Rightarrow> (block_ref \<rightharpoonup> verified_block) \<Rightarrow> (block_ref \<rightharpoonup> verified_block) \<Rightarrow> block_ref \<Rightarrow> bool" where
  "supported c D m l \<longleftrightarrow> reached_quorum c (weight c {br_author r |r. \<exists>b. m r = Some b \<and> certifies c D b l})"

definition cert_link :: "committee \<Rightarrow> (block_ref \<rightharpoonup> verified_block) \<Rightarrow> verified_block \<Rightarrow> block_ref \<Rightarrow> bool" where
  "cert_link c D A l \<longleftrightarrow>
     (\<exists>x b. linked_to D (br_round l + 2) (set (vb_ancestors A)) x \<and> D x = Some b \<and> certifies c D b l)"

lemma valid_dagD:
  assumes "valid_dag c D" and "D r = Some b"
  shows "vb_reference b = r" "vb_round b = br_round r" "vb_author b = br_author r" "br_author r < committee_size c"
    "\<And>y. y \<in> set (vb_ancestors b) \<Longrightarrow> br_author y < committee_size c \<and> br_round y < br_round r"
    "distinct (map br_author (vb_ancestors b))"
    "0 < br_round r \<Longrightarrow>
       reached_quorum c (weight c {br_author y |y. y \<in> set (vb_ancestors b) \<and> br_round y + 1 = br_round r})"
proof -
  have ok: "block_ok c b" and ref: "vb_reference b = r" using assms by (simp_all add: valid_dag_def)
  show "vb_reference b = r" by (rule ref)
  show rb: "vb_round b = br_round r" and ab: "vb_author b = br_author r"
    using ref by (simp_all flip: ref)
  show "br_author r < committee_size c" "distinct (map br_author (vb_ancestors b))"
    using ok by (simp_all add: block_ok_def flip: ab)
  show "y \<in> set (vb_ancestors b) \<Longrightarrow> br_author y < committee_size c \<and> br_round y < br_round r" for y
    using ok by (simp add: block_ok_def flip: rb)
  show "0 < br_round r \<Longrightarrow>
     reached_quorum c (weight c {br_author y |y. y \<in> set (vb_ancestors b) \<and> br_round y + 1 = br_round r})"
    using ok by (simp add: block_ok_def flip: rb)
qed

text \<open>A block names at most one ancestor per author.\<close>

lemma one_ancestor:
  assumes "valid_dag c D" and "D r = Some b" and "x \<in> set (vb_ancestors b)" and "y \<in> set (vb_ancestors b)"
    and "br_author x = br_author y"
  shows "x = y"
  using valid_dagD(6) [OF assms(1,2)] assms(3-5) by (auto simp: distinct_map dest: inj_onD)

lemma no_honest_equivocation:
  assumes "few_equivocators c Byz D" and "D r = Some b" and "D r' = Some b'"
    and "br_round r = br_round r'" and "br_author r = br_author r'" and "br_author r \<notin> Byz"
  shows "r = r'"
  using assms by (auto simp: few_equivocators_def slot_of_ref_def)

text \<open>A certified block has voters in the round above it.\<close>

lemma voter_round:
  assumes "valid_dag c D" and "D x = Some b" and "certifies c D b l" and "y \<in> set (vb_ancestors b)"
    and "D y = Some v" and "l \<in> set (vb_ancestors v)"
  shows "br_round y = br_round l + 1"
  using valid_dagD(2,5) [OF assms(1,2)] valid_dagD(5) [OF assms(1,5)] assms(3,4,6)
  by (fastforce simp: certifies_def)

lemma certified_unique:
  assumes ok: "dag_ok c Byz D" and x: "D x = Some b" "certifies c D b l"
    and x': "D x' = Some b'" "certifies c D b' l'" and slot: "slot_of_ref l = slot_of_ref l'"
  shows "l = l'"
proof -
  have valid: "valid_dag c D" and few: "few_equivocators c Byz D" and c: "committee_ok c"
    using ok by (simp_all add: dag_ok_def)
  obtain i where i: "i \<in> voters D l b \<inter> voters D l' b'" "i \<notin> Byz"
    using cq.honest_in_both [OF c, of "voters D l b" "voters D l' b'" Byz] x(2) x'(2) few
    by (auto simp: certifies_def few_equivocators_def)
  then obtain y v y' v' where y: "y \<in> set (vb_ancestors b)" "D y = Some v" "l \<in> set (vb_ancestors v)" "br_author y = i"
    and y': "y' \<in> set (vb_ancestors b')" "D y' = Some v'" "l' \<in> set (vb_ancestors v')" "br_author y' = i"
    by (auto simp: voters_def)
  have "br_round y = br_round y'"
    using voter_round [OF valid x y(1-3)] voter_round [OF valid x' y'(1-3)] slot by (simp add: slot_of_ref_def)
  then have "y = y'" using no_honest_equivocation [OF few y(2) y'(2)] y(4) y'(4) i(2) by simp
  then show ?thesis using one_ancestor [OF valid y(2), of l l'] y(2,3) y'(2,3) slot by (simp add: slot_of_ref_def)
qed

lemma blamed_not_certified:
  assumes ok: "dag_ok c Byz D" and x: "D x = Some b" "certifies c D b l"
    and m: "\<And>r b. m r = Some b \<Longrightarrow> D r = Some b" and blame: "blamed c m (slot_of_ref l)"
  shows False
proof -
  have valid: "valid_dag c D" and few: "few_equivocators c Byz D" and c: "committee_ok c"
    using ok by (simp_all add: dag_ok_def)
  let ?S = "{br_author r |r. br_round r = br_round l + 1 \<and>
     (\<exists>b. m r = Some b \<and> (\<forall>a \<in> set (vb_ancestors b). br_author a \<noteq> br_author l))}"
  obtain i where i: "i \<in> voters D l b \<inter> ?S" "i \<notin> Byz"
    using cq.honest_in_both [OF c, of "voters D l b" ?S Byz] x(2) few blame
    by (auto simp: certifies_def few_equivocators_def blamed_def slot_of_ref_def)
  then obtain y v r w where y: "y \<in> set (vb_ancestors b)" "D y = Some v" "l \<in> set (vb_ancestors v)" "br_author y = i"
    and r: "br_round r = br_round l + 1" "m r = Some w" "\<forall>a \<in> set (vb_ancestors w). br_author a \<noteq> br_author l" "br_author r = i"
    by (auto simp: voters_def)
  have "y = r"
    using no_honest_equivocation [OF few y(2) m [OF r(2)]] voter_round [OF valid x y(1-3)] y(4) r(1,4) i(2) by simp
  then show False using y(2,3) m [OF r(2)] r(3) by auto
qed

section \<open>Anchors\<close>

lemma linked_to_larger_dag:
  "linked_to m lo S r \<Longrightarrow> (\<And>r b. m r = Some b \<Longrightarrow> D r = Some b) \<Longrightarrow> linked_to D lo S r"
  by (induction rule: linked_to.induct) (auto intro: linked_to.intros)

text \<open>The history of a block holds, at every lower round, blocks of a quorum of authorities.\<close>

lemma history_quorum:
  assumes c: "committee_ok c" and valid: "valid_dag c D" and view: "view_of D gc m" and gc: "gc < d"
    and A: "m a = Some A" and lt: "d < br_round a"
  shows "reached_quorum c (weight c {br_author x |x. br_round x = d \<and> m x \<noteq> None \<and>
     linked_to D d (set (vb_ancestors A)) x})"
  using A lt
proof (induction "br_round a" arbitrary: a A rule: less_induct)
  case less
  have sub: "m r = Some b \<Longrightarrow> D r = Some b" for r b using view by (auto simp: view_of_def)
  have known: "m y \<noteq> None" if "y \<in> set (vb_ancestors A)" "gc < br_round y" for y
    using view less.prems(1) that by (auto simp: view_of_def complete_above_def)
  let ?P = "{br_author y |y. y \<in> set (vb_ancestors A) \<and> br_round y + 1 = br_round a}"
  have quorum: "reached_quorum c (weight c ?P)"
    using valid_dagD(7) [OF valid sub [OF less.prems(1)]] less.prems(2) by simp
  show ?case
  proof (cases "br_round a = d + 1")
    case True
    then have "?P \<subseteq> {br_author x |x. br_round x = d \<and> m x \<noteq> None \<and> linked_to D d (set (vb_ancestors A)) x}"
      using known gc by (auto intro: linked_base)
    with quorum show ?thesis by (rule cq.quorum_superset)
  next
    case False
    obtain p where p: "p \<in> set (vb_ancestors A)" "br_round p + 1 = br_round a"
      using cq.honest_in_quorum [OF c quorum, of "{}"] validity_positive [OF c] by (auto simp: reached_validity_def)
    then have d: "d < br_round p" using False less.prems(2) by simp
    then obtain P where P: "m p = Some P" using known [OF p(1)] gc by auto
    have "linked_to D d (set (vb_ancestors A)) x" if "linked_to D d (set (vb_ancestors P)) x" for x
      using that by (rule linked_to_trans) (blast intro: linked_step linked_base p(1) d sub P)
    then have "{br_author x |x. br_round x = d \<and> m x \<noteq> None \<and> linked_to D d (set (vb_ancestors P)) x} \<subseteq>
        {br_author x |x. br_round x = d \<and> m x \<noteq> None \<and> linked_to D d (set (vb_ancestors A)) x}" by blast
    with less.hyps [OF _ P d] p(2) show ?thesis by (auto intro: cq.quorum_superset)
  qed
qed

text \<open>A directly committed leader is certified in the history of every later block.\<close>

lemma supported_cert_link:
  assumes ok: "dag_ok c Byz D" and m: "\<And>r b. m r = Some b \<Longrightarrow> D r = Some b" and sup: "supported c D m l"
    and view: "view_of D gc m'" "gc < br_round l + 2" and A: "m' a = Some A" "br_round l + 2 < br_round a"
  shows "cert_link c D A l"
proof -
  have valid: "valid_dag c D" and few: "few_equivocators c Byz D" and c: "committee_ok c"
    using ok by (simp_all add: dag_ok_def)
  let ?Q = "{br_author r |r. \<exists>b. m r = Some b \<and> certifies c D b l}"
  let ?H = "{br_author x |x. br_round x = br_round l + 2 \<and> m' x \<noteq> None \<and>
     linked_to D (br_round l + 2) (set (vb_ancestors A)) x}"
  obtain i where "i \<in> ?Q \<inter> ?H" "i \<notin> Byz"
    using cq.honest_in_both [OF c _ history_quorum [OF c valid view A], of ?Q Byz] sup few
    by (auto simp: supported_def few_equivocators_def)
  then obtain r b x x' where r: "m r = Some b" "certifies c D b l" "br_author r = i"
    and x: "br_round x = br_round l + 2" "m' x = Some x'" "linked_to D (br_round l + 2) (set (vb_ancestors A)) x" "br_author x = i"
    by auto
  have x': "D x = Some x'" using view(1) x(2) by (auto simp: view_of_def)
  have "br_round r = br_round l + 2" using valid_dagD(2) [OF valid m [OF r(1)]] r(2) by (simp add: certifies_def)
  then have "r = x" using no_honest_equivocation [OF few m [OF r(1)] x'] x r(3) \<open>i \<notin> Byz\<close> by simp
  then show ?thesis using x(3) m [OF r(1)] r(2) by (auto simp: cert_link_def)
qed

lemma supported_certified:
  assumes "committee_ok c" and "supported c D m l"
  obtains r b where "m r = Some b" "certifies c D b l"
proof -
  obtain i where "i \<in> {br_author r |r. \<exists>b. m r = Some b \<and> certifies c D b l}"
    using cq.honest_in_quorum [OF assms(1) assms(2) [unfolded supported_def], of "{}"] validity_positive [OF assms(1)]
    by (auto simp: reached_validity_def)
  then show ?thesis using that by blast
qed

section \<open>Sequences of decisions\<close>

text \<open>The first committed leader, if every leader before it is skipped.\<close>

fun anchor_of :: "leader_status list \<Rightarrow> verified_block option" where
  "anchor_of [] = None"
| "anchor_of (LCommit b # ls) = Some b"
| "anchor_of (LSkip s # ls) = anchor_of ls"
| "anchor_of (LUndecided s # ls) = None"

text \<open>
  A justified status of the leader slot, given the statuses of the later rounds: a commit is
  supported directly or certified in the history of the anchor, a skip is blamed directly or has no
  certificate there. The anchor is at least three rounds above, two positions into the later ones.
\<close>

fun justified ::
  "committee \<Rightarrow> (block_ref \<rightharpoonup> verified_block) \<Rightarrow> (block_ref \<rightharpoonup> verified_block) \<Rightarrow> slot \<Rightarrow> leader_status list \<Rightarrow> leader_status \<Rightarrow> bool" where
  "justified c D m s later (LCommit b) \<longleftrightarrow> m (vb_reference b) = Some b \<and> slot_of_ref (vb_reference b) = s \<and>
     (supported c D m (vb_reference b) \<or>
      (\<exists>A. anchor_of (drop 2 later) = Some A \<and> cert_link c D A (vb_reference b)))"
| "justified c D m s later (LSkip s') \<longleftrightarrow> s' = s \<and>
     (blamed c m s \<or>
      (\<exists>A. anchor_of (drop 2 later) = Some A \<and> (\<forall>l. slot_of_ref l = s \<longrightarrow> \<not> cert_link c D A l)))"
| "justified c D m s later (LUndecided s') \<longleftrightarrow> s' = s"

text \<open>The statuses of the rounds from \<open>lo\<close> on.\<close>

fun decisions ::
  "committee \<Rightarrow> (block_ref \<rightharpoonup> verified_block) \<Rightarrow> (block_ref \<rightharpoonup> verified_block) \<Rightarrow> (round \<Rightarrow> authority_index) \<Rightarrow>
     round \<Rightarrow> leader_status list \<Rightarrow> bool" where
  "decisions c D m elect lo [] \<longleftrightarrow> True"
| "decisions c D m elect lo (x # xs) \<longleftrightarrow>
     justified c D m (Slot lo (elect lo)) xs x \<and> decisions c D m elect (lo + 1) xs"

lemma decisions_nth:
  "decisions c D m elect lo xs \<Longrightarrow> k < length xs \<Longrightarrow>
     justified c D m (Slot (lo + k) (elect (lo + k))) (drop (Suc k) xs) (xs ! k)"
proof (induction xs arbitrary: lo k)
  case (Cons x xs)
  show ?case
  proof (cases k)
    case (Suc j)
    then show ?thesis using Cons.IH [of "lo + 1" j] Cons.prems by simp
  qed (use Cons.prems in simp)
qed simp

lemma anchor_of_nth:
  assumes "anchor_of xs = Some A"
  obtains k where "k < length xs" "xs ! k = LCommit A" "\<And>j. j < k \<Longrightarrow> \<exists>s. xs ! j = LSkip s"
proof -
  have "\<exists>k < length xs. xs ! k = LCommit A \<and> (\<forall>j < k. \<exists>s. xs ! j = LSkip s)"
    using assms
  proof (induction xs rule: anchor_of.induct)
    case (3 s ls)
    then obtain k where "k < length ls" "ls ! k = LCommit A" "\<forall>j < k. \<exists>s. ls ! j = LSkip s" by auto
    then show ?case by (intro exI [of _ "Suc k"]) (auto simp: nth_Cons split: nat.splits)
  qed auto
  then show ?thesis using that by blast
qed

text \<open>The anchor of round \<open>lo + k\<close>, by its position in the sequence.\<close>

lemma decisions_anchor:
  assumes dec: "decisions c D m elect lo xs" and "anchor_of (drop 2 (drop (Suc k) xs)) = Some A"
  obtains n where "k + 3 \<le> n" "n < length xs" "xs ! n = LCommit A" "m (vb_reference A) = Some A"
    "br_round (vb_reference A) = lo + n" "\<And>j. k + 3 \<le> j \<Longrightarrow> j < n \<Longrightarrow> \<exists>s. xs ! j = LSkip s"
proof -
  have d: "drop 2 (drop (Suc k) xs) = drop (k + 3) xs" by (simp add: eval_nat_numeral)
  obtain i where i: "i < length (drop (k + 3) xs)" "drop (k + 3) xs ! i = LCommit A"
    "\<And>j. j < i \<Longrightarrow> \<exists>s. drop (k + 3) xs ! j = LSkip s"
    using anchor_of_nth [OF assms(2) [unfolded d]] by metis
  let ?n = "k + 3 + i"
  have n: "?n < length xs" "xs ! ?n = LCommit A" using i(1,2) by auto
  have "justified c D m (Slot (lo + ?n) (elect (lo + ?n))) (drop (Suc ?n) xs) (LCommit A)"
    using decisions_nth [OF dec n(1)] unfolding n(2) .
  then have "m (vb_reference A) = Some A" "br_round (vb_reference A) = lo + ?n"
    by (auto simp: slot_of_ref_def)
  moreover have "\<exists>s. xs ! j = LSkip s" if "k + 3 \<le> j" "j < ?n" for j
  proof -
    have "j - (k + 3) < i" "drop (k + 3) xs ! (j - (k + 3)) = xs ! j" using that i(1) by auto
    with i(3) show ?thesis by metis
  qed
  ultimately show ?thesis using that [of ?n] n by auto
qed

text \<open>The same decision about a leader: the same block committed, or skipped by both.\<close>

fun agree :: "leader_status \<Rightarrow> leader_status \<Rightarrow> bool" where
  "agree (LCommit b) (LCommit b') \<longleftrightarrow> b = b'"
| "agree (LSkip s) (LSkip s') \<longleftrightarrow> s = s'"
| "agree _ _ \<longleftrightarrow> False"

lemma agree_sym: "agree x y \<longleftrightarrow> agree y x"
  by (cases x; cases y) auto

lemma justified_certified:
  assumes "committee_ok c" and "\<And>r b. m r = Some b \<Longrightarrow> D r = Some b" and "justified c D m s later (LCommit b)"
  obtains x x' where "D x = Some x'" "certifies c D x' (vb_reference b)"
proof -
  from assms(3) consider "supported c D m (vb_reference b)" | A where "cert_link c D A (vb_reference b)" by auto
  then show ?thesis
  proof cases
    case 1
    then show ?thesis using that assms(2) supported_certified [OF assms(1) 1] by metis
  next
    case 2
    then show ?thesis using that by (auto simp: cert_link_def)
  qed
qed

text \<open>
  One commit against one skip: they clash unless the later decisions do. The hypothesis \<open>later\<close> is
  agreement on the rounds above.
\<close>

lemma commit_skip_clash:
  assumes ok: "dag_ok c Byz D" and view: "view_of D gc m" "view_of D gc' m'" "gc' < lo'"
    and dec: "decisions c D m elect lo xs" "decisions c D m' elect lo' ys"
    and k: "k < length xs" "k' < length ys" "lo + k = lo' + k'"
    and commit: "xs ! k = LCommit b" and skip: "ys ! k' = LSkip s"
    and later: "\<And>n n' b s. k < n \<Longrightarrow> n < length xs \<Longrightarrow> n' < length ys \<Longrightarrow> lo + n = lo' + n' \<Longrightarrow>
      is_decided (xs ! n) \<Longrightarrow> is_decided (ys ! n') \<Longrightarrow> agree (xs ! n) (ys ! n')"
  shows False
proof -
  have c: "committee_ok c" and valid: "valid_dag c D" using ok by (simp_all add: dag_ok_def)
  have sub: "m r = Some b \<Longrightarrow> D r = Some b" "m' r = Some b \<Longrightarrow> D r = Some b" for r b
    using view by (auto simp: view_of_def)
  let ?s = "Slot (lo + k) (elect (lo + k))" and ?l = "vb_reference b"
  have jc: "justified c D m ?s (drop (Suc k) xs) (LCommit b)" using decisions_nth [OF dec(1) k(1)] commit by simp
  have js: "justified c D m' ?s (drop (Suc k') ys) (LSkip s)" using decisions_nth [OF dec(2) k(2)] skip k(3) by simp
  have slot: "slot_of_ref ?l = ?s" and l: "br_round ?l = lo + k" using jc by (auto simp: slot_of_ref_def)
  have "\<not> blamed c m' ?s"
    using justified_certified [OF c sub(1) jc] blamed_not_certified [OF ok _ _ sub(2)] slot by metis
  then obtain A' where A': "anchor_of (drop 2 (drop (Suc k') ys)) = Some A'" "\<not> cert_link c D A' ?l"
    using js slot by auto
  then obtain n' where n': "k' + 3 \<le> n'" "n' < length ys" "ys ! n' = LCommit A'" "m' (vb_reference A') = Some A'"
    "br_round (vb_reference A') = lo' + n'" "\<And>j. k' + 3 \<le> j \<Longrightarrow> j < n' \<Longrightarrow> \<exists>s. ys ! j = LSkip s"
    using decisions_anchor [OF dec(2)] by metis
  have "\<not> supported c D m ?l"
    using supported_cert_link [OF ok sub(1) _ view(2) _ n'(4)] A'(2) n'(1,5) view(3) k(3) l by auto
  then obtain A where A: "anchor_of (drop 2 (drop (Suc k) xs)) = Some A" "cert_link c D A ?l" using jc by auto
  then obtain n where n: "k + 3 \<le> n" "n < length xs" "xs ! n = LCommit A"
    "\<And>j. k + 3 \<le> j \<Longrightarrow> j < n \<Longrightarrow> \<exists>s. xs ! j = LSkip s"
    using decisions_anchor [OF dec(1)] by metis
  consider "lo + n = lo' + n'" | "lo + n < lo' + n'" | "lo' + n' < lo + n" by linarith
  then show False
  proof cases
    case 1
    then show False using later [of n n'] n n' A A' by simp
  next
    case 2
    define j where "j = lo + n - lo'"
    have "lo + n = lo' + j" "k' + 3 \<le> j" "j < n'" using 2 k(3) n(1) by (auto simp: j_def)
    then show False using later [of n j] n n'(2) n'(6) [of j] by auto
  next
    case 3
    define j where "j = lo' + n' - lo"
    have "lo + j = lo' + n'" "k + 3 \<le> j" "j < n" using 3 k(3) n'(1) by (auto simp: j_def)
    then show False using later [of j n'] n' n(2) n(4) [of j] by auto
  qed
qed

lemma commits_agree:
  assumes ok: "dag_ok c Byz D" and sub: "\<And>r b. m r = Some b \<Longrightarrow> D r = Some b" "\<And>r b. m' r = Some b \<Longrightarrow> D r = Some b"
    and jb: "justified c D m s later (LCommit b)" and jb': "justified c D m' s later' (LCommit b')"
  shows "b = b'"
proof -
  have c: "committee_ok c" using ok by (simp add: dag_ok_def)
  obtain x u where x: "D x = Some u" "certifies c D u (vb_reference b)" by (rule justified_certified [OF c sub(1) jb])
  obtain x' u' where x': "D x' = Some u'" "certifies c D u' (vb_reference b')" by (rule justified_certified [OF c sub(2) jb'])
  have facts: "slot_of_ref (vb_reference b) = slot_of_ref (vb_reference b')"
      "m (vb_reference b) = Some b" "m' (vb_reference b') = Some b'"
    using jb jb' by (simp_all only: justified.simps)
  have "vb_reference b = vb_reference b'" by (rule certified_unique [OF ok x x' facts(1)])
  moreover have "D (vb_reference b) = Some b" "D (vb_reference b') = Some b'"
    by (rule sub(1) [OF facts(2)], rule sub(2) [OF facts(3)])
  ultimately show "b = b'" by (metis option.inject)
qed

lemma decided_cases:
  assumes "is_decided x" and "is_decided y"
    and "\<And>b b'. x = LCommit b \<Longrightarrow> y = LCommit b' \<Longrightarrow> P" and "\<And>b s. x = LCommit b \<Longrightarrow> y = LSkip s \<Longrightarrow> P"
    and "\<And>b s. x = LSkip s \<Longrightarrow> y = LCommit b \<Longrightarrow> P" and "\<And>s s'. x = LSkip s \<Longrightarrow> y = LSkip s' \<Longrightarrow> P"
  shows P
  using assms by (cases x; cases y) simp_all

lemma decisions_agree:
  assumes ok: "dag_ok c Byz D" and view: "view_of D gc m" "view_of D gc' m'" "gc < lo" "gc' < lo'"
    and dec: "decisions c D m elect lo xs" "decisions c D m' elect lo' ys"
    and k: "k < length xs" "k' < length ys" "lo + k = lo' + k'" and decided: "is_decided (xs ! k)" "is_decided (ys ! k')"
  shows "agree (xs ! k) (ys ! k')"
  using k decided
proof (induction "length xs - k" arbitrary: k k' rule: less_induct)
  case less
  have later: "agree (xs ! n) (ys ! n')"
    if "k < n" "n < length xs" "n' < length ys" "lo + n = lo' + n'" "is_decided (xs ! n)" "is_decided (ys ! n')" for n n'
    using less.hyps [of n n'] that by simp
  have later': "agree (ys ! n') (xs ! n)"
    if "k' < n'" "n' < length ys" "n < length xs" "lo' + n' = lo + n" "is_decided (ys ! n')" "is_decided (xs ! n)" for n n'
    using iffD1 [OF agree_sym, OF later [of n n']] that less.prems(3) by simp
  have sub: "m r = Some b \<Longrightarrow> D r = Some b" "m' r = Some b \<Longrightarrow> D r = Some b" for r b
    using view(1,2) by (simp_all add: view_of_def)
  let ?s = "Slot (lo + k) (elect (lo + k))"
  have j: "justified c D m ?s (drop (Suc k) xs) (xs ! k)" "justified c D m' ?s (drop (Suc k') ys) (ys ! k')"
    using decisions_nth [OF dec(1) less.prems(1)] decisions_nth [OF dec(2) less.prems(2)] by (simp_all only: less.prems(3))
  show ?case
  proof (rule decided_cases [OF less.prems(4,5)])
    fix b b' assume e: "xs ! k = LCommit b" "ys ! k' = LCommit b'"
    have "b = b'" by (rule commits_agree [OF ok sub j [unfolded e]])
    then show ?thesis unfolding e by simp
  next
    fix b s assume e: "xs ! k = LCommit b" "ys ! k' = LSkip s"
    show ?thesis by (rule FalseE, rule commit_skip_clash [OF ok view(1,2,4) dec less.prems(1-3) e later])
  next
    fix b s assume e: "xs ! k = LSkip s" "ys ! k' = LCommit b"
    show ?thesis
      by (rule FalseE, rule commit_skip_clash [OF ok view(2,1,3) dec(2,1) less.prems(2,1) less.prems(3) [symmetric] e(2,1) later'])
  next
    fix s s' assume e: "xs ! k = LSkip s" "ys ! k' = LSkip s'"
    show ?thesis using j unfolding e by simp
  qed
qed

end
