(* ===== verification/Block_Manager.thy ===== *)
theory Block_Manager
  imports Dag_Machine Dag_Agreement
begin

text \<open>
  The block manager of \<open>consensus/core/src/block_manager.rs\<close>: blocks are held back until their ancestors
  above the garbage collection round are in the DAG state, and then enter it together with the
  blocks that waited for them. The manager and the DAG state it writes are passed as two
  arguments. The time a block was suspended is only measured, and left out with the other metrics, but for
  the index operations on the way to them, which can panic.
\<close>

section \<open>State\<close>

record suspended_block =
  sb_block :: verified_block
  sb_missing_ancestors :: "block_ref fset"

record block_manager =
  bm_suspended_blocks :: "(block_ref, suspended_block) fmap"
  bm_missing_ancestors :: "(block_ref, block_ref fset) fmap"
  bm_missing_blocks :: "block_ref fset"
  bm_received_block_rounds :: "(round \<times> round) option list"

definition block_manager_new :: "consensus_context \<Rightarrow> block_manager" where
  "block_manager_new cx = \<lparr>bm_suspended_blocks = fmempty, bm_missing_ancestors = fmempty,
     bm_missing_blocks = {||}, bm_received_block_rounds = replicate (committee_size (cx_committee cx)) None\<rparr>"

datatype try_accept_result = Accepted verified_block | Suspended "block_ref fset" | Processed | Skipped

section \<open>Unsuspending\<close>

definition try_unsuspend_block :: "block_manager \<Rightarrow> block_ref \<Rightarrow> block_ref \<Rightarrow> (block_manager \<times> suspended_block option) option" where
  "try_unsuspend_block bm r accepted_dependency = do {
     s \<leftarrow> fmlookup (bm_suspended_blocks bm) r;
     assert_that (accepted_dependency |\<in>| sb_missing_ancestors s);
     let s' = s\<lparr>sb_missing_ancestors := sb_missing_ancestors s |-| {|accepted_dependency|}\<rparr>;
     Some (if sb_missing_ancestors s' = {||}
       then (bm\<lparr>bm_suspended_blocks := fmdrop r (bm_suspended_blocks bm)\<rparr>, Some s')
       else (bm\<lparr>bm_suspended_blocks := fmupd r s' (bm_suspended_blocks bm)\<rparr>, None))
   }"

text \<open>The children of one block: the manager, the references to process and the blocks unsuspended.\<close>

definition unsuspend_child ::
  "block_ref \<Rightarrow> block_manager \<times> block_ref list \<times> verified_block list \<Rightarrow> block_ref \<Rightarrow>
     (block_manager \<times> block_ref list \<times> verified_block list) option" where
  "unsuspend_child block_ref acc r = do {
     (bm', unsuspended) \<leftarrow> try_unsuspend_block (fst acc) r block_ref;
     Some (case unsuspended of
         Some s \<Rightarrow> (bm', fst (snd acc) @ [vb_reference (sb_block s)], snd (snd acc) @ [sb_block s])
       | None \<Rightarrow> (bm', snd acc))
   }"

text \<open>The \<open>while\<close> loop; the references to process are a stack, popped at its end.\<close>

partial_function (option) unsuspend_loop ::
  "block_manager \<Rightarrow> block_ref list \<Rightarrow> verified_block list \<Rightarrow> (block_manager \<times> verified_block list) option" where
  "unsuspend_loop bm to_process unsuspended =
     (if to_process = [] then Some (bm, unsuspended)
      else case fmlookup (bm_missing_ancestors bm) (last to_process) of
          None \<Rightarrow> unsuspend_loop bm (butlast to_process) unsuspended
        | Some children \<Rightarrow>
            Option.bind (foldM (unsuspend_child (last to_process))
                (bm\<lparr>bm_missing_ancestors := fmdrop (last to_process) (bm_missing_ancestors bm)\<rparr>, butlast to_process, unsuspended)
                (sorted_list_of_fset children))
              (\<lambda>(bm', to_process', unsuspended'). unsuspend_loop bm' to_process' unsuspended'))"

definition try_unsuspend_children_blocks ::
  "consensus_context \<Rightarrow> block_manager \<Rightarrow> block_ref \<Rightarrow> (block_manager \<times> verified_block list) option" where
  "try_unsuspend_children_blocks cx bm accepted_block = do {
     (bm', unsuspended) \<leftarrow> unsuspend_loop bm [accepted_block] [];
     _ \<leftarrow> mapM (\<lambda>b. committee_authority (cx_committee cx) (vb_author b)) unsuspended;
     Some (bm', unsuspended)
   }"

text \<open>
  \<open>try_unsuspend_blocks_for_latest_gc_round\<close>: the missing ancestors at or below the garbage
  collection round, from the lowest on, are given up.
\<close>

definition first_key_value :: "('k::linorder, 'v) fmap \<Rightarrow> ('k \<times> 'v) option" where
  "first_key_value m = (case sorted_list_of_fmap m of [] \<Rightarrow> None | kv # _ \<Rightarrow> Some kv)"

partial_function (option) gc_loop ::
  "consensus_context \<Rightarrow> timestamp_ms \<Rightarrow> round \<Rightarrow> block_manager \<Rightarrow> dag_state \<Rightarrow> (block_manager \<times> dag_state) option" where
  "gc_loop cx now gc bm st =
     (case first_key_value (bm_missing_ancestors bm) of
        None \<Rightarrow> Some (bm, st)
      | Some (r, _) \<Rightarrow>
          if gc < br_round r then Some (bm, st)
          else Option.bind (committee_authority (cx_committee cx) (br_author r)) (\<lambda>_.
            Option.bind (assert_that (r |\<notin>| fmdom (bm_suspended_blocks bm))) (\<lambda>_.
              Option.bind (try_unsuspend_children_blocks cx
                  (bm\<lparr>bm_missing_blocks := bm_missing_blocks bm |-| {|r|}\<rparr>) r) (\<lambda>(bm', unsuspended).
                Option.bind (accept_blocks cx st (map (Pair now) unsuspended)) (\<lambda>st'.
                  Option.bind (mapM (\<lambda>b. committee_authority (cx_committee cx) (vb_author b)) unsuspended) (\<lambda>_.
                    gc_loop cx now gc bm' st'))))))"

definition try_unsuspend_blocks_for_latest_gc_round ::
  "consensus_context \<Rightarrow> timestamp_ms \<Rightarrow> block_manager \<Rightarrow> dag_state \<Rightarrow> (block_manager \<times> dag_state) option" where
  "try_unsuspend_blocks_for_latest_gc_round cx now bm st = gc_loop cx now (gc_round cx st) bm st"

section \<open>Accepting\<close>

text \<open>A missing ancestor of a block: the references missing and to fetch so far are passed along.\<close>

definition add_missing_ancestor ::
  "consensus_context \<Rightarrow> block_ref \<Rightarrow> block_manager \<times> block_ref fset \<times> block_ref fset \<Rightarrow> bool \<times> block_ref \<Rightarrow>
     (block_manager \<times> block_ref fset \<times> block_ref fset) option" where
  "add_missing_ancestor cx block_ref acc p = (case (acc, p) of ((bm, missing, fetch), (found, ancestor)) \<Rightarrow>
     if found then Some acc
     else do {
       let children = (case fmlookup (bm_missing_ancestors bm) ancestor of Some C \<Rightarrow> C | None \<Rightarrow> {||});
       let bm1 = bm\<lparr>bm_missing_ancestors := fmupd ancestor (finsert block_ref children) (bm_missing_ancestors bm)\<rparr>;
       _ \<leftarrow> committee_authority (cx_committee cx) (br_author ancestor);
       Some (if ancestor |\<in>| fmdom (bm_suspended_blocks bm) then (bm1, finsert ancestor missing, fetch)
         else (bm1\<lparr>bm_missing_blocks := finsert ancestor (bm_missing_blocks bm)\<rparr>, finsert ancestor missing, finsert ancestor fetch))
     })"

definition try_accept_one_block ::
  "consensus_context \<Rightarrow> block_manager \<Rightarrow> dag_state \<Rightarrow> verified_block \<Rightarrow> (block_manager \<times> try_accept_result) option" where
  "try_accept_one_block cx bm st b = do {
     let block_ref = vb_reference b;
     let gc = gc_round cx st;
     known \<leftarrow> (if block_ref |\<in>| fmdom (bm_suspended_blocks bm) then Some True else contains_block st block_ref);
     if known then Some (bm, Processed)
     else if vb_round b \<le> gc then do {
       _ \<leftarrow> committee_authority (cx_committee cx) (vb_author b);
       Some (bm, Skipped)
     }
     else do {
       let ancestors = filter (\<lambda>a. br_round a = GENESIS_ROUND \<or> gc < br_round a) (vb_ancestors b);
       found \<leftarrow> contains_blocks st ancestors;
       (bm1, missing, fetch) \<leftarrow> foldM (add_missing_ancestor cx block_ref) (bm, {||}, {||}) (zip found ancestors);
       let bm2 = bm1\<lparr>bm_missing_blocks := bm_missing_blocks bm1 |-| {|block_ref|}\<rparr>;
       if missing \<noteq> {||} then do {
         _ \<leftarrow> committee_authority (cx_committee cx) (vb_author b);
         Some (bm2\<lparr>bm_suspended_blocks := fmupd block_ref \<lparr>sb_block = b, sb_missing_ancestors = missing\<rparr> (bm_suspended_blocks bm2)\<rparr>,
           Suspended fetch)
       }
       else Some (bm2, Accepted b)
     }
   }"

text \<open>The block stops waiting: it leaves the children of each of its missing ancestors.\<close>

definition drop_child :: "block_ref \<Rightarrow> (block_ref, block_ref fset) fmap \<Rightarrow> block_ref \<Rightarrow> (block_ref, block_ref fset) fmap" where
  "drop_child r m ancestor = (case fmlookup m ancestor of Some C \<Rightarrow> fmupd ancestor (C |-| {|r|}) m | None \<Rightarrow> m)"

definition try_accept_one_committed_block ::
  "consensus_context \<Rightarrow> timestamp_ms \<Rightarrow> block_manager \<Rightarrow> dag_state \<Rightarrow> verified_block \<Rightarrow>
     (block_manager \<times> dag_state \<times> try_accept_result) option" where
  "try_accept_one_committed_block cx now bm st b = do {
     let r = vb_reference b;
     known \<leftarrow> contains_block st r;
     if known then Some (bm, st, Processed)
     else do {
       let bm1 = bm\<lparr>bm_missing_blocks := bm_missing_blocks bm |-| {|r|}\<rparr>;
       let bm2 = (case fmlookup (bm_suspended_blocks bm1) r of
           Some s \<Rightarrow> bm1\<lparr>bm_suspended_blocks := fmdrop r (bm_suspended_blocks bm1),
             bm_missing_ancestors := foldl (drop_child r) (bm_missing_ancestors bm1) (sorted_list_of_fset (sb_missing_ancestors s))\<rparr>
         | None \<Rightarrow> bm1);
       st' \<leftarrow> accept_blocks cx st [(now, b)];
       Some (bm2, st', Accepted b)
     }
   }"

definition update_block_received_metrics :: "consensus_context \<Rightarrow> block_manager \<Rightarrow> verified_block \<Rightarrow> block_manager option" where
  "update_block_received_metrics cx bm b = do {
     received \<leftarrow> vec_get (bm_received_block_rounds bm) (vb_author b);
     let rounds = (case received of
         Some (lowest, highest) \<Rightarrow> (min lowest (vb_round b), max highest (vb_round b))
       | None \<Rightarrow> (vb_round b, vb_round b));
     received' \<leftarrow> vec_set (bm_received_block_rounds bm) (vb_author b) (Some rounds);
     _ \<leftarrow> committee_authority (cx_committee cx) (vb_author b);
     Some (bm\<lparr>bm_received_block_rounds := received'\<rparr>)
   }"

text \<open>The state of the loop over the received blocks: manager, DAG state, accepted and missing blocks.\<close>

type_synonym accept_state = "block_manager \<times> dag_state \<times> verified_block list \<times> block_ref fset"

text \<open>The common end of the loop body: the children of the accepted block follow it into the DAG state.\<close>

definition accept_with_children ::
  "consensus_context \<Rightarrow> timestamp_ms \<Rightarrow> accept_state \<Rightarrow> block_ref \<Rightarrow> verified_block list \<Rightarrow> accept_state option" where
  "accept_with_children cx now acc block_ref blocks_to_accept = (case acc of (bm, st, accepted, missing) \<Rightarrow> do {
     (bm', unsuspended) \<leftarrow> try_unsuspend_children_blocks cx bm block_ref;
     st' \<leftarrow> accept_blocks cx st (map (Pair now) (blocks_to_accept @ unsuspended));
     Some (bm', st', accepted @ blocks_to_accept @ unsuspended, missing)
   })"

definition accept_step ::
  "consensus_context \<Rightarrow> timestamp_ms \<Rightarrow> bool \<Rightarrow> accept_state \<Rightarrow> verified_block \<Rightarrow> accept_state option" where
  "accept_step cx now committed acc b = (case acc of (bm, st, accepted, missing) \<Rightarrow> do {
     bm1 \<leftarrow> update_block_received_metrics cx bm b;
     if committed then do {
       (bm2, st', result) \<leftarrow> try_accept_one_committed_block cx now bm1 st b;
       case result of
         Accepted b' \<Rightarrow> accept_with_children cx now (bm2, st', accepted @ [b'], missing) (vb_reference b) []
       | Processed \<Rightarrow> Some (bm2, st', accepted, missing)
       | _ \<Rightarrow> None
     }
     else do {
       (bm2, result) \<leftarrow> try_accept_one_block cx bm1 st b;
       case result of
         Accepted b' \<Rightarrow> accept_with_children cx now (bm2, st, accepted, missing) (vb_reference b) [b']
       | Suspended fetch \<Rightarrow> Some (bm2, st, accepted, missing |\<union>| fetch)
       | _ \<Rightarrow> Some (bm2, st, accepted, missing)
     }
   })"

definition try_accept_blocks_internal ::
  "consensus_context \<Rightarrow> timestamp_ms \<Rightarrow> block_manager \<Rightarrow> dag_state \<Rightarrow> verified_block list \<Rightarrow> bool \<Rightarrow> accept_state option" where
  "try_accept_blocks_internal cx now bm st blocks committed =
     foldM (accept_step cx now committed) (bm, st, [], {||}) (sort_key vb_round blocks)"

definition try_accept_blocks ::
  "consensus_context \<Rightarrow> timestamp_ms \<Rightarrow> block_manager \<Rightarrow> dag_state \<Rightarrow> verified_block list \<Rightarrow> accept_state option" where
  "try_accept_blocks cx now bm st blocks = try_accept_blocks_internal cx now bm st blocks False"

definition try_accept_committed_blocks ::
  "consensus_context \<Rightarrow> timestamp_ms \<Rightarrow> block_manager \<Rightarrow> dag_state \<Rightarrow> verified_block list \<Rightarrow>
     (block_manager \<times> dag_state \<times> verified_block list) option" where
  "try_accept_committed_blocks cx now bm st blocks = do {
     (bm', st', accepted, missing) \<leftarrow> try_accept_blocks_internal cx now bm st blocks True;
     assert_that (missing = {||});
     Some (bm', st', accepted)
   }"

section \<open>Looking for blocks\<close>

definition find_step ::
  "consensus_context \<Rightarrow> block_manager \<times> block_ref fset \<Rightarrow> bool \<times> block_ref \<Rightarrow> (block_manager \<times> block_ref fset) option" where
  "find_step cx acc p = (case (acc, p) of ((bm, missing), (found, r)) \<Rightarrow>
     if found \<or> r |\<in>| fmdom (bm_suspended_blocks bm) then Some acc
     else if r |\<in>| bm_missing_blocks bm then Some (bm, finsert r missing)
     else do {
       let children = (case fmlookup (bm_missing_ancestors bm) r of Some C \<Rightarrow> C | None \<Rightarrow> {||});
       _ \<leftarrow> committee_authority (cx_committee cx) (br_author r);
       Some (bm\<lparr>bm_missing_blocks := finsert r (bm_missing_blocks bm),
         bm_missing_ancestors := fmupd r children (bm_missing_ancestors bm)\<rparr>, finsert r missing)
     })"

definition try_find_blocks ::
  "consensus_context \<Rightarrow> block_manager \<Rightarrow> dag_state \<Rightarrow> block_ref list \<Rightarrow> (block_manager \<times> block_ref fset) option" where
  "try_find_blocks cx bm st block_refs = do {
     let refs = filter (\<lambda>r. gc_round cx st < br_round r) block_refs;
     if refs = [] then Some (bm, {||})
     else do {
       let refs = sort_key br_round refs;
       found \<leftarrow> contains_blocks st refs;
       foldM (find_step cx) (bm, {||}) (zip found refs)
     }
   }"

end
