(* ===== verification/Suspension.thy ===== *)
theory Suspension
  imports Block_Manager
begin

text \<open>
  The invariant of the block manager: what is suspended waits for something missing, what is missing is
  waited for, and what is in the DAG state has its ancestors above the garbage collection round, but for
  blocks that a certified commit brought without them.
\<close>

section \<open>The invariant\<close>

text \<open>
  The manager against the blocks \<open>K\<close> known so far, all from a valid DAG \<open>D\<close>. The references in \<open>P\<close> are
  resolved, either known or below the garbage collection round, but their children not yet told. The blocks in
  \<open>E\<close> were taken from a certified commit without all their ancestors.
\<close>

definition waiting :: "(block_ref \<rightharpoonup> verified_block) \<Rightarrow> round \<Rightarrow> block_ref set \<Rightarrow> block_ref set \<Rightarrow>
    (block_ref, block_ref fset) fmap \<Rightarrow> block_ref \<Rightarrow> suspended_block \<Rightarrow> bool" where
  "waiting D gc K P m x s \<longleftrightarrow> x \<notin> K \<and> x \<notin> P \<and> D x = Some (sb_block s) \<and> sb_missing_ancestors s \<noteq> {||} \<and>
     (\<forall>y. y |\<in>| sb_missing_ancestors s \<longrightarrow> y \<in> set (vb_ancestors (sb_block s)) \<and> (\<exists>C. fmlookup m y = Some C \<and> x |\<in>| C)) \<and>
     (\<forall>y \<in> set (vb_ancestors (sb_block s)). gc < br_round y \<longrightarrow> y \<in> K \<or> y |\<in>| sb_missing_ancestors s)"

definition bm_inv :: "(block_ref \<rightharpoonup> verified_block) \<Rightarrow> block_ref set \<Rightarrow> round \<Rightarrow> block_ref set \<Rightarrow> block_ref set \<Rightarrow> block_manager \<Rightarrow> bool" where
  "bm_inv D E gc K P bm \<longleftrightarrow>
     (\<forall>x s. fmlookup (bm_suspended_blocks bm) x = Some s \<longrightarrow> waiting D gc K P (bm_missing_ancestors bm) x s) \<and>
     (\<forall>y C x. fmlookup (bm_missing_ancestors bm) y = Some C \<longrightarrow> x |\<in>| C \<longrightarrow>
        (\<exists>s. fmlookup (bm_suspended_blocks bm) x = Some s \<and> y |\<in>| sb_missing_ancestors s)) \<and>
     (\<forall>y. y |\<in>| fmdom (bm_missing_ancestors bm) \<longrightarrow> y \<in> K \<longrightarrow> y \<in> P) \<and>
     (\<forall>y \<in> P. y \<in> K \<or> br_round y \<le> gc) \<and>
     (\<forall>y. y |\<in>| bm_missing_blocks bm \<longleftrightarrow>
        y |\<in>| fmdom (bm_missing_ancestors bm) \<and> y |\<notin>| fmdom (bm_suspended_blocks bm) \<and> y \<notin> P) \<and>
     (\<forall>x \<in> K - E. \<forall>b. D x = Some b \<longrightarrow> (\<forall>y \<in> set (vb_ancestors b). gc < br_round y \<longrightarrow> y \<in> K))"

lemma bm_invI:
  assumes "\<And>x s. fmlookup (bm_suspended_blocks bm) x = Some s \<Longrightarrow> waiting D gc K P (bm_missing_ancestors bm) x s"
    and "\<And>y C x. fmlookup (bm_missing_ancestors bm) y = Some C \<Longrightarrow> x |\<in>| C \<Longrightarrow>
      \<exists>s. fmlookup (bm_suspended_blocks bm) x = Some s \<and> y |\<in>| sb_missing_ancestors s"
    and "\<And>y. y |\<in>| fmdom (bm_missing_ancestors bm) \<Longrightarrow> y \<in> K \<Longrightarrow> y \<in> P" and "\<And>y. y \<in> P \<Longrightarrow> y \<in> K \<or> br_round y \<le> gc"
    and "\<And>y. y |\<in>| bm_missing_blocks bm \<longleftrightarrow> y |\<in>| fmdom (bm_missing_ancestors bm) \<and> y |\<notin>| fmdom (bm_suspended_blocks bm) \<and> y \<notin> P"
    and "\<And>x b y. x \<in> K \<Longrightarrow> x \<notin> E \<Longrightarrow> D x = Some b \<Longrightarrow> y \<in> set (vb_ancestors b) \<Longrightarrow> gc < br_round y \<Longrightarrow> y \<in> K"
  shows "bm_inv D E gc K P bm"
  using assms unfolding bm_inv_def by blast

lemma bm_inv_suspended:
  assumes "bm_inv D E gc K P bm" and "fmlookup (bm_suspended_blocks bm) x = Some s"
  shows "x \<notin> K" "x \<notin> P" "D x = Some (sb_block s)" "sb_missing_ancestors s \<noteq> {||}"
    "\<And>y. y |\<in>| sb_missing_ancestors s \<Longrightarrow> y \<in> set (vb_ancestors (sb_block s))"
    "\<And>y. y |\<in>| sb_missing_ancestors s \<Longrightarrow> \<exists>C. fmlookup (bm_missing_ancestors bm) y = Some C \<and> x |\<in>| C"
    "\<And>y. y \<in> set (vb_ancestors (sb_block s)) \<Longrightarrow> gc < br_round y \<Longrightarrow> y \<in> K \<or> y |\<in>| sb_missing_ancestors s"
  using assms unfolding bm_inv_def waiting_def by blast+

lemma bm_inv_missing:
  assumes "bm_inv D E gc K P bm"
  shows "\<And>y C x. fmlookup (bm_missing_ancestors bm) y = Some C \<Longrightarrow> x |\<in>| C \<Longrightarrow>
      \<exists>s. fmlookup (bm_suspended_blocks bm) x = Some s \<and> y |\<in>| sb_missing_ancestors s"
    "\<And>y. y |\<in>| fmdom (bm_missing_ancestors bm) \<Longrightarrow> y \<in> K \<Longrightarrow> y \<in> P"
    "\<And>y. y \<in> P \<Longrightarrow> y \<in> K \<or> br_round y \<le> gc"
    "\<And>y. y |\<in>| bm_missing_blocks bm \<longleftrightarrow> y |\<in>| fmdom (bm_missing_ancestors bm) \<and> y |\<notin>| fmdom (bm_suspended_blocks bm) \<and> y \<notin> P"
    "\<And>x b y. x \<in> K \<Longrightarrow> x \<notin> E \<Longrightarrow> D x = Some b \<Longrightarrow> y \<in> set (vb_ancestors b) \<Longrightarrow> gc < br_round y \<Longrightarrow> y \<in> K"
  using assms unfolding bm_inv_def by blast+

section \<open>Telling the children\<close>

definition told :: "block_ref \<Rightarrow> block_ref set \<Rightarrow> (block_ref, suspended_block) fmap \<Rightarrow> block_ref \<Rightarrow> suspended_block option" where
  "told r C S x = (case fmlookup S x of
     None \<Rightarrow> None
   | Some s \<Rightarrow> if x \<in> C then
         (if sb_missing_ancestors s |-| {|r|} = {||} then None
          else Some (s\<lparr>sb_missing_ancestors := sb_missing_ancestors s |-| {|r|}\<rparr>))
       else Some s)"

definition released :: "block_ref \<Rightarrow> (block_ref, suspended_block) fmap \<Rightarrow> block_ref list \<Rightarrow> verified_block list" where
  "released r S cs = map (\<lambda>x. sb_block (the (fmlookup S x)))
     (filter (\<lambda>x. sb_missing_ancestors (the (fmlookup S x)) |-| {|r|} = {||}) cs)"

lemma released_cong: "(\<And>x. x \<in> set cs \<Longrightarrow> fmlookup S x = fmlookup S' x) \<Longrightarrow> released r S cs = released r S' cs"
  unfolding released_def by (rule map_cong) (auto cong: filter_cong)

lemma unsuspend_children:
  assumes "distinct cs" and "\<forall>x \<in> set cs. \<exists>s. fmlookup (bm_suspended_blocks bm) x = Some s \<and> r |\<in>| sb_missing_ancestors s"
  shows "\<exists>S'. foldM (unsuspend_child r) (bm, P, U) cs = Some (bm\<lparr>bm_suspended_blocks := S'\<rparr>,
       P @ map vb_reference (released r (bm_suspended_blocks bm) cs), U @ released r (bm_suspended_blocks bm) cs) \<and>
     fmlookup S' = told r (set cs) (bm_suspended_blocks bm)"
  using assms
proof (induction cs arbitrary: bm P U)
  case Nil
  then show ?case by (auto simp: told_def released_def split: option.splits intro!: exI [of _ "bm_suspended_blocks bm"])
next
  case (Cons x cs)
  let ?S = "bm_suspended_blocks bm"
  obtain s where s: "fmlookup ?S x = Some s" "r |\<in>| sb_missing_ancestors s" using Cons.prems by auto
  define gone where "gone \<longleftrightarrow> sb_missing_ancestors s |-| {|r|} = {||}"
  define S1 where "S1 = (if gone then fmdrop x ?S else fmupd x (s\<lparr>sb_missing_ancestors := sb_missing_ancestors s |-| {|r|}\<rparr>) ?S)"
  have look: "fmlookup S1 z = fmlookup ?S z" if "z \<in> set cs" for z
    using that Cons.prems(1) by (auto simp: S1_def)
  have step: "unsuspend_child r (bm, P, U) x = Some (bm\<lparr>bm_suspended_blocks := S1\<rparr>,
      if gone then P @ [vb_reference (sb_block s)] else P, if gone then U @ [sb_block s] else U)"
    using s by (auto simp: unsuspend_child_def try_unsuspend_block_def S1_def gone_def)
  have "\<forall>z \<in> set cs. \<exists>s. fmlookup (bm_suspended_blocks (bm\<lparr>bm_suspended_blocks := S1\<rparr>)) z = Some s \<and> r |\<in>| sb_missing_ancestors s"
    using Cons.prems(2) look by auto
  from Cons.IH [OF _ this, of "if gone then P @ [vb_reference (sb_block s)] else P" "if gone then U @ [sb_block s] else U"] Cons.prems(1)
  obtain S' where S': "foldM (unsuspend_child r) (bm\<lparr>bm_suspended_blocks := S1\<rparr>, if gone then P @ [vb_reference (sb_block s)] else P,
        if gone then U @ [sb_block s] else U) cs =
      Some (bm\<lparr>bm_suspended_blocks := S'\<rparr>, (if gone then P @ [vb_reference (sb_block s)] else P) @ map vb_reference (released r S1 cs),
        (if gone then U @ [sb_block s] else U) @ released r S1 cs)" "fmlookup S' = told r (set cs) S1"
    by auto
  have rel: "released r S1 cs = released r ?S cs" using look by (rule released_cong)
  have "told r (set cs) S1 = told r (set (x # cs)) ?S"
    using Cons.prems(1) s by (auto simp: told_def fun_eq_iff S1_def gone_def split: option.splits)
  moreover have "released r ?S (x # cs) = (if gone then sb_block s # released r ?S cs else released r ?S cs)"
    using s by (simp add: released_def gone_def)
  ultimately show ?case using S' step rel by (intro exI [of _ S']) auto
qed

text \<open>The references of the blocks that waited for \<open>r\<close> only.\<close>

definition freed :: "block_ref \<Rightarrow> block_manager \<Rightarrow> block_ref set" where
  "freed r bm = {x. \<exists>s. fmlookup (bm_suspended_blocks bm) x = Some s \<and> r |\<in>| sb_missing_ancestors s \<and>
     sb_missing_ancestors s |-| {|r|} = {||}}"

lemma bm_inv_told:
  assumes inv: "bm_inv D E gc K (insert r P) bm" and r: "r \<notin> P" and C: "fmlookup (bm_missing_ancestors bm) r = Some C"
    and S': "fmlookup S' = told r (fset C) (bm_suspended_blocks bm)"
  shows "bm_inv D E gc (K \<union> freed r bm) (P \<union> freed r bm)
     (bm\<lparr>bm_missing_ancestors := fmdrop r (bm_missing_ancestors bm), bm_suspended_blocks := S'\<rparr>)"
proof -
  note sus = bm_inv_suspended [OF inv] and mis = bm_inv_missing [OF inv]
  let ?S = "bm_suspended_blocks bm" and ?M = "bm_missing_ancestors bm" and ?N = "freed r bm"
  have inC: "x |\<in>| C \<longleftrightarrow> r |\<in>| sb_missing_ancestors s" if "fmlookup ?S x = Some s" for x s
    using sus(6) [OF that, of r] mis(1) [OF C, of x] C that by auto
  have S'_Some: "fmlookup S' x = Some s' \<longleftrightarrow> (\<exists>s. fmlookup ?S x = Some s \<and> x \<notin> ?N \<and>
      s' = s\<lparr>sb_missing_ancestors := sb_missing_ancestors s |-| {|r|}\<rparr>)" for x s'
  proof -
    have "s\<lparr>sb_missing_ancestors := sb_missing_ancestors s |-| {|r|}\<rparr> = s" if "r |\<notin>| sb_missing_ancestors s" for s :: suspended_block
      using that by simp
    then show ?thesis using inC by (auto simp: S' told_def freed_def split: option.splits if_splits)
  qed
  have dom: "x |\<in>| fmdom S' \<longleftrightarrow> x |\<in>| fmdom ?S \<and> x \<notin> ?N" for x
    using S'_Some by (auto simp: fmlookup_dom_iff)
  have N: "x |\<in>| fmdom ?S \<and> x \<notin> K \<and> x \<noteq> r \<and> x \<notin> P" if x: "x \<in> ?N" for x
    using x sus(1,2) by (auto simp: freed_def fmlookup_dom_iff)
  have K: "r \<in> K \<or> br_round r \<le> gc" using mis(3) by simp
  have closed: "y \<in> K" if x: "x \<in> ?N" "D x = Some b" "y \<in> set (vb_ancestors b)" "gc < br_round y" for x b y
  proof -
    obtain s where s: "fmlookup ?S x = Some s" "sb_missing_ancestors s |-| {|r|} = {||}" using x(1) by (auto simp: freed_def)
    have "y |\<in>| sb_missing_ancestors s \<Longrightarrow> y = r" using s(2) by (auto dest: fsubsetD)
    with sus(3) [OF s(1)] sus(7) [OF s(1), of y] x K show ?thesis by auto
  qed
  show ?thesis
    unfolding bm_inv_def waiting_def
  proof (intro conjI allI impI ballI)
    fix x s' assume "fmlookup (bm_suspended_blocks (bm\<lparr>bm_missing_ancestors := fmdrop r ?M, bm_suspended_blocks := S'\<rparr>)) x = Some s'"
    then obtain s where s: "fmlookup ?S x = Some s" "x \<notin> ?N" "s' = s\<lparr>sb_missing_ancestors := sb_missing_ancestors s |-| {|r|}\<rparr>"
      by (auto simp: S'_Some)
    show "x \<notin> K \<union> ?N" "x \<notin> P \<union> ?N" "D x = Some (sb_block s')" using sus(1-3) [OF s(1)] s by auto
    show "sb_missing_ancestors s' \<noteq> {||}" using s sus(4) [OF s(1)] by (auto simp: freed_def)
    show "y \<in> set (vb_ancestors (sb_block s'))" if "y |\<in>| sb_missing_ancestors s'" for y
      using that s sus(5) [OF s(1)] by simp
    show "\<exists>C. fmlookup (bm_missing_ancestors (bm\<lparr>bm_missing_ancestors := fmdrop r ?M, bm_suspended_blocks := S'\<rparr>)) y = Some C \<and> x |\<in>| C"
      if "y |\<in>| sb_missing_ancestors s'" for y
      using that s sus(6) [OF s(1), of y] by auto
    show "y \<in> K \<union> ?N \<or> y |\<in>| sb_missing_ancestors s'" if "y \<in> set (vb_ancestors (sb_block s'))" "gc < br_round y" for y
      using that s sus(7) [OF s(1), of y] K by auto
  next
    fix y C' x assume "fmlookup (bm_missing_ancestors (bm\<lparr>bm_missing_ancestors := fmdrop r ?M, bm_suspended_blocks := S'\<rparr>)) y = Some C'"
      and x: "x |\<in>| C'"
    then have y: "fmlookup ?M y = Some C'" "y \<noteq> r" by (auto split: if_splits)
    obtain s where s: "fmlookup ?S x = Some s" "y |\<in>| sb_missing_ancestors s" using mis(1) [OF y(1) x] by blast
    have "x \<notin> ?N" using s y(2) by (auto simp: freed_def)
    then show "\<exists>s. fmlookup (bm_suspended_blocks (bm\<lparr>bm_missing_ancestors := fmdrop r ?M, bm_suspended_blocks := S'\<rparr>)) x = Some s \<and>
        y |\<in>| sb_missing_ancestors s" using s y(2) by (auto simp: S'_Some)
  next
    fix y assume "y |\<in>| fmdom (bm_missing_ancestors (bm\<lparr>bm_missing_ancestors := fmdrop r ?M, bm_suspended_blocks := S'\<rparr>))" "y \<in> K \<union> ?N"
    then show "y \<in> P \<union> ?N" using mis(2) by auto
  next
    fix y assume "y \<in> P \<union> ?N"
    then show "y \<in> K \<union> ?N \<or> br_round y \<le> gc" using mis(3) by auto
  next
    fix y
    show "y |\<in>| bm_missing_blocks (bm\<lparr>bm_missing_ancestors := fmdrop r ?M, bm_suspended_blocks := S'\<rparr>) \<longleftrightarrow>
        y |\<in>| fmdom (bm_missing_ancestors (bm\<lparr>bm_missing_ancestors := fmdrop r ?M, bm_suspended_blocks := S'\<rparr>)) \<and>
        y |\<notin>| fmdom (bm_suspended_blocks (bm\<lparr>bm_missing_ancestors := fmdrop r ?M, bm_suspended_blocks := S'\<rparr>)) \<and> y \<notin> P \<union> ?N"
      using mis(4) [of y] dom [of y] N [of y] r by auto
  next
    fix x b y assume "x \<in> K \<union> ?N - E" "D x = Some b" "y \<in> set (vb_ancestors b)" "gc < br_round y"
    then show "y \<in> K \<union> ?N" using closed mis(5) by auto
  qed
qed

lemma bm_inv_childless:
  "bm_inv D E gc K (insert r P) bm \<Longrightarrow> fmlookup (bm_missing_ancestors bm) r = None \<Longrightarrow> bm_inv D E gc K P bm"
  unfolding bm_inv_def waiting_def by (auto simp: fmlookup_dom_iff; metis option.distinct(1))

lemma told_dom: 
  assumes "fmlookup S' = told r (fset C) (bm_suspended_blocks bm)"
    and "\<And>x s. fmlookup (bm_suspended_blocks bm) x = Some s \<Longrightarrow> x |\<in>| C \<longleftrightarrow> r |\<in>| sb_missing_ancestors s"
  shows "fset (fmdom S') = fset (fmdom (bm_suspended_blocks bm)) - freed r bm"
  using assms(2) by (auto simp: fmlookup_dom_iff assms(1) told_def freed_def split: option.splits if_splits)

lemma released_freed:
  assumes "\<And>r b. D r = Some b \<Longrightarrow> vb_reference b = r" and inv: "bm_inv D E gc K P bm" and C: "fmlookup (bm_missing_ancestors bm) r = Some C"
  defines "out \<equiv> released r (bm_suspended_blocks bm) (sorted_list_of_fset C)"
  shows "vb_reference ` set out = freed r bm" "distinct (map vb_reference out)" "\<forall>b \<in> set out. D (vb_reference b) = Some b"
proof -
  let ?S = "bm_suspended_blocks bm" and ?cs = "sorted_list_of_fset C"
  have s: "\<exists>s. fmlookup ?S x = Some s \<and> r |\<in>| sb_missing_ancestors s \<and> D x = Some (sb_block s) \<and> vb_reference (sb_block s) = x"
    if "x |\<in>| C" for x
    using bm_inv_missing(1) [OF inv C that] bm_inv_suspended(3) [OF inv] assms(1) by blast
  have refs: "map vb_reference out = filter (\<lambda>x. sb_missing_ancestors (the (fmlookup ?S x)) |-| {|r|} = {||}) ?cs"
    unfolding out_def released_def map_map comp_def by (rule map_idI) (use s in fastforce)
  then show "distinct (map vb_reference out)" by simp
  have "vb_reference ` set out = {x. x |\<in>| C \<and> sb_missing_ancestors (the (fmlookup ?S x)) |-| {|r|} = {||}}"
    using arg_cong [OF refs, of set] by auto
  also have "\<dots> = freed r bm"
  proof (intro set_eqI iffI; clarify)
    fix x assume x: "x |\<in>| C" "sb_missing_ancestors (the (fmlookup ?S x)) |-| {|r|} = {||}"
    then show "x \<in> freed r bm" using s [OF x(1)] by (auto simp: freed_def)
  next
    fix x assume "x \<in> freed r bm"
    then obtain s' where s': "fmlookup ?S x = Some s'" "r |\<in>| sb_missing_ancestors s'" "sb_missing_ancestors s' |-| {|r|} = {||}"
      by (auto simp: freed_def)
    then show "x |\<in>| C \<and> sb_missing_ancestors (the (fmlookup ?S x)) |-| {|r|} = {||}"
      using bm_inv_suspended(6) [OF inv s'(1,2)] C by simp
  qed
  finally show "vb_reference ` set out = freed r bm" .
  show "\<forall>b \<in> set out. D (vb_reference b) = Some b"
    unfolding out_def released_def using s by fastforce
qed

lemma unsuspend_loop_spec:
  assumes D: "\<And>r b. D r = Some b \<Longrightarrow> vb_reference b = r" and "bm_inv D E gc K (set P) bm" and "distinct P"
  shows "\<exists>bm' out. unsuspend_loop bm P U = Some (bm', U @ out) \<and> bm_inv D E gc (K \<union> vb_reference ` set out) {} bm' \<and>
     distinct (map vb_reference out) \<and> (\<forall>b \<in> set out. D (vb_reference b) = Some b \<and> vb_reference b |\<in>| fmdom (bm_suspended_blocks bm)) \<and>
     fmdom (bm_missing_ancestors bm') |\<subseteq>| fmdom (bm_missing_ancestors bm) \<and> set P \<inter> fset (fmdom (bm_missing_ancestors bm')) = {} \<and>
     fset (fmdom (bm_suspended_blocks bm')) = fset (fmdom (bm_suspended_blocks bm)) - vb_reference ` set out \<and>
     bm_received_block_rounds bm' = bm_received_block_rounds bm"
  using assms(2,3)
proof (induction "card (fset (fmdom (bm_suspended_blocks bm))) + length P" arbitrary: K P bm U rule: less_induct)
  case less
  show ?case
  proof (cases P rule: rev_cases)
    case Nil
    then show ?thesis using less.prems by (subst unsuspend_loop.simps) auto
  next
    case (snoc P' r)
    have inv: "bm_inv D E gc K (insert r (set P')) bm" and r: "r \<notin> set P'" "distinct P'" using less.prems snoc by auto
    show ?thesis
    proof (cases "fmlookup (bm_missing_ancestors bm) r")
      case None
      have "card (fset (fmdom (bm_suspended_blocks bm))) + length P' < card (fset (fmdom (bm_suspended_blocks bm))) + length P"
        using snoc by simp
      from less.hyps [OF this bm_inv_childless [OF inv None] r(2), of U] None snoc
      show ?thesis by (subst unsuspend_loop.simps) (force simp: fmlookup_dom_iff fsubset_iff)
    next
      case (Some C)
      let ?S = "bm_suspended_blocks bm" and ?cs = "sorted_list_of_fset C"
      let ?bm = "bm\<lparr>bm_missing_ancestors := fmdrop r (bm_missing_ancestors bm)\<rparr>" and ?new = "released r ?S ?cs"
      have "\<forall>x \<in> set ?cs. \<exists>s. fmlookup (bm_suspended_blocks ?bm) x = Some s \<and> r |\<in>| sb_missing_ancestors s"
        using bm_inv_missing(1) [OF inv Some] by simp
      from unsuspend_children [OF distinct_sorted_list_of_fset this, of P' U] obtain S' where
        fold: "foldM (unsuspend_child r) (?bm, P', U) ?cs = Some (?bm\<lparr>bm_suspended_blocks := S'\<rparr>, P' @ map vb_reference ?new, U @ ?new)"
        and S': "fmlookup S' = told r (fset C) ?S" by auto
      let ?bm' = "?bm\<lparr>bm_suspended_blocks := S'\<rparr>"
      note new = released_freed [OF D inv Some]
      have inC: "x |\<in>| C \<longleftrightarrow> r |\<in>| sb_missing_ancestors s" if "fmlookup ?S x = Some s" for x s
        using bm_inv_suspended(6) [OF inv that, of r] bm_inv_missing(1) [OF inv Some, of x] Some that by auto
      have dom: "fset (fmdom S') = fset (fmdom ?S) - freed r bm" using S' inC by (rule told_dom)
      have sub: "freed r bm \<subseteq> fset (fmdom ?S)" by (auto simp: freed_def fmlookup_dom_iff)
      have "freed r bm \<inter> set P' = {}" using bm_inv_suspended(2) [OF inv] by (auto simp: freed_def)
      then have dist: "distinct (P' @ map vb_reference ?new)" using r(2) new(1,2) by auto
      have inv': "bm_inv D E gc (K \<union> freed r bm) (set (P' @ map vb_reference ?new)) ?bm'"
        using bm_inv_told [OF inv r(1) Some S'] new(1) by simp
      have "length ?new = card (freed r bm)" using distinct_card [OF new(2)] new(1) by simp
      moreover have "card (fset (fmdom S')) + card (freed r bm) = card (fset (fmdom ?S))"
        unfolding dom using sub card_mono [OF _ sub] by (simp add: card_Diff_subset finite_subset)
      ultimately have "card (fset (fmdom (bm_suspended_blocks ?bm'))) + length (P' @ map vb_reference ?new) <
          card (fset (fmdom ?S)) + length P" using snoc by simp
      from less.hyps [OF this inv' dist, of "U @ ?new"] obtain bm' out where
        run: "unsuspend_loop ?bm' (P' @ map vb_reference ?new) (U @ ?new) = Some (bm', (U @ ?new) @ out)"
        and fin: "bm_inv D E gc (K \<union> freed r bm \<union> vb_reference ` set out) {} bm'" "distinct (map vb_reference out)"
          "\<forall>b \<in> set out. D (vb_reference b) = Some b \<and> vb_reference b |\<in>| fmdom S'"
          "fmdom (bm_missing_ancestors bm') |\<subseteq>| fmdom (bm_missing_ancestors ?bm)"
          "set (P' @ map vb_reference ?new) \<inter> fset (fmdom (bm_missing_ancestors bm')) = {}"
          "fset (fmdom (bm_suspended_blocks bm')) = fset (fmdom S') - vb_reference ` set out"
          "bm_received_block_rounds bm' = bm_received_block_rounds bm" by auto
      have "unsuspend_loop bm P U = Some (bm', U @ ?new @ out)"
        using run by (subst unsuspend_loop.simps) (simp add: snoc Some fold)
      moreover have "distinct (map vb_reference (?new @ out))" using new(1,2) fin(2,3) dom by auto
      moreover have "\<forall>b \<in> set (?new @ out). D (vb_reference b) = Some b \<and> vb_reference b |\<in>| fmdom ?S"
        using new(1,3) fin(3) dom sub by auto
      moreover have "bm_inv D E gc (K \<union> vb_reference ` set (?new @ out)) {} bm'"
        using fin(1) new(1) by (simp add: image_Un Un_assoc)
      moreover have "fmdom (bm_missing_ancestors bm') |\<subseteq>| fmdom (bm_missing_ancestors bm)" "r |\<notin>| fmdom (bm_missing_ancestors bm')"
        using fin(4) by auto
      moreover have "set P \<inter> fset (fmdom (bm_missing_ancestors bm')) = {}" using fin(4,5) snoc by auto
      moreover have "fset (fmdom (bm_suspended_blocks bm')) = fset (fmdom ?S) - vb_reference ` set (?new @ out)"
        unfolding fin(6) dom using new(1) by auto
      ultimately show ?thesis using fin(7) by (intro exI [of _ bm'] exI [of _ "?new @ out"]) blast
    qed
  qed
qed

section \<open>Entering the DAG state\<close>

text \<open>The validator itself never signs two blocks for a round.\<close>

definition own_unique :: "consensus_context \<Rightarrow> (block_ref \<rightharpoonup> verified_block) \<Rightarrow> bool" where
  "own_unique cx D \<longleftrightarrow> (\<forall>r r'. D r \<noteq> None \<longrightarrow> D r' \<noteq> None \<longrightarrow> br_author r = cx_own_index cx \<longrightarrow>
     slot_of_ref r = slot_of_ref r' \<longrightarrow> r = r')"

definition dag_part :: "consensus_context \<Rightarrow> (block_ref \<rightharpoonup> verified_block) \<Rightarrow> dag_state \<Rightarrow> bool" where
  "dag_part cx D st \<longleftrightarrow> ds_inv cx st \<and> valid_dag (cx_committee cx) D \<and> own_unique cx D \<and>
     (\<forall>r b. ds_lookup st r = Some b \<longrightarrow> D r = Some b)"

lemma dag_partD:
  assumes "dag_part cx D st"
  shows "ds_inv cx st" "valid_dag (cx_committee cx) D" "own_unique cx D"
    "\<And>r b. ds_lookup st r = Some b \<Longrightarrow> D r = Some b" "\<And>r b. D r = Some b \<Longrightarrow> vb_reference b = r"
  using assms valid_dagD(1) unfolding dag_part_def by blast+

lemma own_slot_free:
  assumes part: "dag_part cx D st" and b: "D (vb_reference b) = Some b" "vb_author b = cx_own_index cx" "ds_lookup st (vb_reference b) = None"
  shows "get_uncommitted_blocks_at_slot st (vb_slot b) = []"
proof -
  have none: False if r: "(r, bi) \<in> set (sorted_list_of_fmap (ds_recent_blocks st))"
    "BlockRef (slot_round (vb_slot b)) (slot_authority (vb_slot b)) DIGEST_MIN \<le> r \<and> r \<le> BlockRef (slot_round (vb_slot b)) (slot_authority (vb_slot b)) DIGEST_MAX"
    for r bi
  proof -
    have "fmlookup (ds_cached st) r = Some (bi_block bi)" using r(1) by (simp add: ds_cached_lookup)
    moreover from this have "0 < br_round r" using cached_reference [OF ds_invD(4) [OF dag_partD(1) [OF part]]] by blast
    ultimately have "ds_lookup st r = Some (bi_block bi)" by (simp add: ds_lookup_cached GENESIS_ROUND_def)
    moreover have "slot_of_ref r = vb_slot b" using r(2) unfolding slot_range_iff by (cases "vb_slot b") (simp add: slot_of_ref_def)
    ultimately have "r = vb_reference b"
      using dag_partD(3) [OF part] b(1,2) dag_partD(4) [OF part] unfolding own_unique_def
      by (metis br_author_reference option.distinct(1) slot_of_reference)
    with \<open>ds_lookup st r = Some (bi_block bi)\<close> b(3) show ?thesis by simp
  qed
  show ?thesis
    unfolding get_uncommitted_blocks_at_slot_def map_is_Nil_conv filter_empty_conv using none by fast
qed

text \<open>Runs of \<open>accept_block\<close> on blocks of the DAG.\<close>

definition accepting :: "consensus_context \<Rightarrow> (block_ref \<rightharpoonup> verified_block) \<Rightarrow> dag_state \<Rightarrow> dag_state \<Rightarrow> bool" where
  "accepting cx D = (\<lambda>st st'. \<exists>now b. D (vb_reference b) = Some b \<and> accept_block cx now st b = Some st')\<^sup>*\<^sup>*"

lemma accepting_refl [simp]: "accepting cx D st st"
  by (simp add: accepting_def)

lemma accepting_trans: "accepting cx D st st1 \<Longrightarrow> accepting cx D st1 st' \<Longrightarrow> accepting cx D st st'"
  by (simp add: accepting_def)

lemma accept_blocks_spec:
  assumes "dag_part cx D st" and "\<forall>b \<in> set bs. D (vb_reference b) = Some b \<and> 0 < vb_round b"
  shows "\<exists>st'. accept_blocks cx st (map (Pair now) bs) = Some st' \<and> dag_part cx D st' \<and>
     dom (ds_lookup st') = dom (ds_lookup st) \<union> vb_reference ` set bs \<and> ds_last_commit st' = ds_last_commit st \<and>
     accepting cx D st st'"
  using assms
proof (induction bs arbitrary: st)
  case (Cons b bs)
  have b: "D (vb_reference b) = Some b" "0 < vb_round b" using Cons.prems(2) by simp_all
  have "vb_author b < committee_size (cx_committee cx)"
    using valid_dagD(3,4) [OF dag_partD(2) [OF Cons.prems(1)] b(1)] by simp
  from accept_block_spec [OF dag_partD(1) [OF Cons.prems(1)] this b(2) own_slot_free [OF Cons.prems(1) b(1)], of now]
  obtain st1 where st1: "accept_block cx now st b = Some st1" "ds_inv cx st1" "ds_lookup st1 = spec_accept (ds_lookup st) b"
    "ds_last_commit st1 = ds_last_commit st" by blast
  have "dag_part cx D st1"
    using Cons.prems(1) st1(2,3) b(1) by (auto simp: dag_part_def spec_accept_def split: if_splits)
  from Cons.IH [OF this] Cons.prems(2) obtain st' where "accept_blocks cx st1 (map (Pair now) bs) = Some st'" "dag_part cx D st'"
    "dom (ds_lookup st') = dom (ds_lookup st1) \<union> vb_reference ` set bs" "ds_last_commit st' = ds_last_commit st1" "accepting cx D st1 st'" by auto
  moreover have "accepting cx D st st1" unfolding accepting_def using b(1) st1(1) by blast
  moreover note accepting_trans
  moreover have "dom (ds_lookup st1) = insert (vb_reference b) (dom (ds_lookup st))" using st1(3) by (auto simp: spec_accept_def)
  ultimately show ?case using st1(1,4) by (auto simp: accept_blocks_def)
qed (simp add: accept_blocks_def)

section \<open>Suspending a block\<close>

definition with_child :: "block_ref \<Rightarrow> block_ref set \<Rightarrow> (block_ref, block_ref fset) fmap \<Rightarrow> block_ref \<Rightarrow> block_ref fset option" where
  "with_child r Y m y = (if y \<in> Y then Some (finsert r (case fmlookup m y of Some C \<Rightarrow> C | None \<Rightarrow> {||})) else fmlookup m y)"

lemma add_missing_known: "add_missing_ancestor cx r acc (True, y) = Some acc"
  by (simp add: add_missing_ancestor_def split: prod.splits)

lemma add_missing_ancestors:
  assumes "\<forall>y \<in> set ys. br_author y < committee_size (cx_committee cx)"
  shows "\<exists>M' B'. foldM (add_missing_ancestor cx r) (bm, missing, fetch) (zip (map known ys) ys) =
       Some (bm\<lparr>bm_missing_ancestors := M', bm_missing_blocks := B'\<rparr>, missing |\<union>| fset_of_list (filter (\<lambda>y. \<not> known y) ys),
         fetch |\<union>| fset_of_list (filter (\<lambda>y. \<not> known y \<and> y |\<notin>| fmdom (bm_suspended_blocks bm)) ys)) \<and>
     fmlookup M' = with_child r {y \<in> set ys. \<not> known y} (bm_missing_ancestors bm) \<and>
     fset B' = fset (bm_missing_blocks bm) \<union> {y \<in> set ys. \<not> known y \<and> y |\<notin>| fmdom (bm_suspended_blocks bm)}"
  using assms
proof (induction ys arbitrary: bm missing fetch)
  case Nil
  show ?case by (intro exI [of _ "bm_missing_ancestors bm"] exI [of _ "bm_missing_blocks bm"]) (auto simp: with_child_def)
next
  case (Cons y ys)
  show ?case
  proof (cases "known y")
    case True
    from Cons.IH [of bm missing fetch] Cons.prems obtain M' B' where
      "foldM (add_missing_ancestor cx r) (bm, missing, fetch) (zip (map known ys) ys) =
         Some (bm\<lparr>bm_missing_ancestors := M', bm_missing_blocks := B'\<rparr>, missing |\<union>| fset_of_list (filter (\<lambda>y. \<not> known y) ys),
           fetch |\<union>| fset_of_list (filter (\<lambda>y. \<not> known y \<and> y |\<notin>| fmdom (bm_suspended_blocks bm)) ys))"
      "fmlookup M' = with_child r {y \<in> set ys. \<not> known y} (bm_missing_ancestors bm)"
      "fset B' = fset (bm_missing_blocks bm) \<union> {y \<in> set ys. \<not> known y \<and> y |\<notin>| fmdom (bm_suspended_blocks bm)}" by auto
    then show ?thesis using True
      by (intro exI [of _ M'] exI [of _ B']) (auto simp: add_missing_known with_child_def fun_eq_iff)
  next
    case False
    define M1 where "M1 = fmupd y (finsert r (case fmlookup (bm_missing_ancestors bm) y of Some C \<Rightarrow> C | None \<Rightarrow> {||})) (bm_missing_ancestors bm)"
    define fr where "fr = (if y |\<in>| fmdom (bm_suspended_blocks bm) then {||} else {|y|})"
    let ?bm = "bm\<lparr>bm_missing_ancestors := M1, bm_missing_blocks := fr |\<union>| bm_missing_blocks bm\<rparr>"
    have step: "add_missing_ancestor cx r (bm, missing, fetch) (known y, y) = Some (?bm, finsert y missing, fr |\<union>| fetch)"
      using False Cons.prems by (auto simp: add_missing_ancestor_def M1_def fr_def Let_def committee_authority_def committee_size_def)
    from Cons.IH [of ?bm "finsert y missing" "fr |\<union>| fetch"] Cons.prems obtain M' B' where
      fold: "foldM (add_missing_ancestor cx r) (?bm, finsert y missing, fr |\<union>| fetch) (zip (map known ys) ys) =
         Some (?bm\<lparr>bm_missing_ancestors := M', bm_missing_blocks := B'\<rparr>, finsert y missing |\<union>| fset_of_list (filter (\<lambda>y. \<not> known y) ys),
           (fr |\<union>| fetch) |\<union>| fset_of_list (filter (\<lambda>y. \<not> known y \<and> y |\<notin>| fmdom (bm_suspended_blocks bm)) ys))"
      and M': "fmlookup M' = with_child r {y \<in> set ys. \<not> known y} M1"
      and B': "fset B' = fset (fr |\<union>| bm_missing_blocks bm) \<union> {y \<in> set ys. \<not> known y \<and> y |\<notin>| fmdom (bm_suspended_blocks bm)}" by auto
    have "with_child r {y \<in> set ys. \<not> known y} M1 = with_child r {z \<in> set (y # ys). \<not> known z} (bm_missing_ancestors bm)"
      using False by (auto simp: with_child_def M1_def fun_eq_iff)
    moreover have "finsert y missing |\<union>| fset_of_list (filter (\<lambda>y. \<not> known y) ys) = missing |\<union>| fset_of_list (filter (\<lambda>y. \<not> known y) (y # ys))"
      "(fr |\<union>| fetch) |\<union>| fset_of_list (filter (\<lambda>y. \<not> known y \<and> y |\<notin>| fmdom (bm_suspended_blocks bm)) ys) =
        fetch |\<union>| fset_of_list (filter (\<lambda>y. \<not> known y \<and> y |\<notin>| fmdom (bm_suspended_blocks bm)) (y # ys))"
      using False by (auto simp: fr_def)
    ultimately show ?thesis using step fold M' B' False by (intro exI [of _ M'] exI [of _ B']) (auto simp: fr_def)
  qed
qed

lemma bm_inv_suspend:
  assumes inv: "bm_inv D E gc K {} bm" and b: "D r = Some b" "r \<notin> K" "r |\<notin>| fmdom (bm_suspended_blocks bm)"
    and lower: "\<forall>y \<in> set (vb_ancestors b). br_round y < br_round r"
    and Y: "Y \<noteq> {}" "Y \<subseteq> set (vb_ancestors b) - K" "\<forall>y \<in> set (vb_ancestors b). gc < br_round y \<longrightarrow> y \<in> K \<or> y \<in> Y"
    and missing: "fset missing = Y" and M': "fmlookup M' = with_child r Y (bm_missing_ancestors bm)"
    and B': "fset B' = fset (bm_missing_blocks bm) \<union> {y \<in> Y. y |\<notin>| fmdom (bm_suspended_blocks bm)}"
  shows "bm_inv D E gc K {} (bm\<lparr>bm_missing_ancestors := M', bm_missing_blocks := B' |-| {|r|},
     bm_suspended_blocks := fmupd r \<lparr>sb_block = b, sb_missing_ancestors = missing\<rparr> (bm_suspended_blocks bm)\<rparr>)"
proof -
  note sus = bm_inv_suspended [OF inv] and mis = bm_inv_missing [OF inv]
  have rY: "r \<notin> Y" using lower Y(2) by auto
  have inY: "y |\<in>| missing \<longleftrightarrow> y \<in> Y" for y using missing by auto
  have inB: "y |\<in>| B' \<longleftrightarrow> y |\<in>| bm_missing_blocks bm \<or> (y \<in> Y \<and> y |\<notin>| fmdom (bm_suspended_blocks bm))" for y using B' by auto
  have dom: "y |\<in>| fmdom M' \<longleftrightarrow> y |\<in>| fmdom (bm_missing_ancestors bm) \<or> y \<in> Y" for y
    by (auto simp: fmlookup_dom_iff M' with_child_def split: option.splits)
  have kept: "\<exists>C'. fmlookup M' y = Some C' \<and> x |\<in>| C'" if "fmlookup (bm_missing_ancestors bm) y = Some C" "x |\<in>| C" for x y C
    using that by (auto simp: M' with_child_def)
  have fresh: "\<exists>C'. fmlookup M' y = Some C' \<and> r |\<in>| C'" if "y \<in> Y" for y using that by (auto simp: M' with_child_def)
  have children: "x = r \<and> y \<in> Y \<or> (\<exists>C. fmlookup (bm_missing_ancestors bm) y = Some C \<and> x |\<in>| C)"
    if "fmlookup M' y = Some C'" "x |\<in>| C'" for x y C'
    using that by (auto simp: M' with_child_def split: if_splits option.splits)
  let ?bm = "bm\<lparr>bm_missing_ancestors := M', bm_missing_blocks := B' |-| {|r|},
     bm_suspended_blocks := fmupd r \<lparr>sb_block = b, sb_missing_ancestors = missing\<rparr> (bm_suspended_blocks bm)\<rparr>"
  have wait: "waiting D gc K {} M' x s" if "fmlookup (bm_suspended_blocks ?bm) x = Some s" for x s
  proof (cases "x = r")
    case True
    have "missing \<noteq> {||}" using Y(1) inY by auto
    then show ?thesis using that True b(1,2) Y(2,3) fresh by (auto simp: waiting_def inY)
  next
    case False
    then have s: "fmlookup (bm_suspended_blocks bm) x = Some s" using that by simp
    show ?thesis unfolding waiting_def using sus [OF s] kept by blast
  qed
  have linked: "\<exists>s. fmlookup (bm_suspended_blocks ?bm) x = Some s \<and> y |\<in>| sb_missing_ancestors s"
    if "fmlookup M' y = Some C'" "x |\<in>| C'" for y C' x
    using children [OF that] mis(1) [of y _ x] b(3) inY by (auto simp: fmlookup_dom_iff)
  have "y |\<in>| bm_missing_blocks ?bm \<longleftrightarrow> y |\<in>| fmdom M' \<and> y |\<notin>| fmdom (bm_suspended_blocks ?bm)" for y
    using mis(4) [of y] dom [of y] inB [of y] rY by auto
  moreover have "y |\<in>| fmdom M' \<Longrightarrow> y \<notin> K" for y using mis(2) Y(2) dom by auto
  ultimately show ?thesis
    unfolding bm_inv_def using wait linked mis(5) by auto
qed

lemma bm_inv_accept:
  assumes inv: "bm_inv D E gc K {} bm" and b: "D r = Some b" "r |\<notin>| fmdom (bm_suspended_blocks bm)"
    and closed: "r \<notin> E \<Longrightarrow> \<forall>y \<in> set (vb_ancestors b). gc < br_round y \<longrightarrow> y \<in> K"
  shows "bm_inv D E gc (insert r K) {r} (bm\<lparr>bm_missing_blocks := bm_missing_blocks bm |-| {|r|}\<rparr>)"
  using inv b closed unfolding bm_inv_def waiting_def by (auto simp: fmlookup_dom_iff)

lemma bm_inv_give_up:
  assumes inv: "bm_inv D E gc K {} bm" and "br_round r \<le> gc" "r |\<notin>| fmdom (bm_suspended_blocks bm)"
  shows "bm_inv D E gc K {r} (bm\<lparr>bm_missing_blocks := bm_missing_blocks bm |-| {|r|}\<rparr>)"
  using assms unfolding bm_inv_def waiting_def by (auto simp: fmlookup_dom_iff)

lemma bm_inv_mono:
  assumes "bm_inv D E gc K {} bm" and "gc \<le> gc'"
  shows "bm_inv D E gc' K {} bm"
  using assms unfolding bm_inv_def waiting_def by (auto dest: order_le_less_trans)

lemma drop_children:
  "fmlookup (foldl (drop_child r) m ys) y = (if y \<in> set ys then map_option (\<lambda>C. C |-| {|r|}) (fmlookup m y) else fmlookup m y)"
proof (induction ys arbitrary: m)
  case (Cons z ys)
  have "fmlookup (drop_child r m z) y = (if y = z then map_option (\<lambda>C. C |-| {|r|}) (fmlookup m y) else fmlookup m y)"
    by (auto simp: drop_child_def split: option.splits)
  then show ?case using Cons.IH [of "drop_child r m z"] by (auto simp: option.map_comp comp_def)
qed simp

lemma bm_inv_unsuspend_committed:
  assumes inv: "bm_inv D E gc K {} bm" and s: "fmlookup (bm_suspended_blocks bm) r = Some s"
    and closed: "r \<notin> E \<Longrightarrow> \<forall>y \<in> set (vb_ancestors (sb_block s)). gc < br_round y \<longrightarrow> y \<in> K"
  shows "bm_inv D E gc (insert r K) {r} (bm\<lparr>bm_missing_blocks := bm_missing_blocks bm |-| {|r|},
     bm_suspended_blocks := fmdrop r (bm_suspended_blocks bm),
     bm_missing_ancestors := foldl (drop_child r) (bm_missing_ancestors bm) (sorted_list_of_fset (sb_missing_ancestors s))\<rparr>)"
    (is "bm_inv _ _ _ _ _ ?bm")
proof -
  note sus = bm_inv_suspended [OF inv] and mis = bm_inv_missing [OF inv]
  let ?M' = "foldl (drop_child r) (bm_missing_ancestors bm) (sorted_list_of_fset (sb_missing_ancestors s))"
  have M': "fmlookup ?M' y = map_option (\<lambda>C. C |-| {|r|}) (fmlookup (bm_missing_ancestors bm) y)" for y
  proof (cases "y |\<in>| sb_missing_ancestors s")
    case False
    then have "r |\<notin>| C" if "fmlookup (bm_missing_ancestors bm) y = Some C" for C using mis(1) [OF that] s by fastforce
    then show ?thesis using False by (cases "fmlookup (bm_missing_ancestors bm) y") (auto simp: drop_children)
  qed (simp add: drop_children)
  have dom: "y |\<in>| fmdom ?M' \<longleftrightarrow> y |\<in>| fmdom (bm_missing_ancestors bm)" for y by (auto simp: fmlookup_dom_iff M')
  have wait: "waiting D gc (insert r K) {r} ?M' x s'" if "fmlookup (bm_suspended_blocks ?bm) x = Some s'" for x s'
  proof -
    have x: "fmlookup (bm_suspended_blocks bm) x = Some s'" "x \<noteq> r" using that by (auto split: if_splits)
    have "\<exists>C. fmlookup ?M' y = Some C \<and> x |\<in>| C" if "y |\<in>| sb_missing_ancestors s'" for y
      using sus(6) [OF x(1) that] x(2) by (auto simp: M')
    then show ?thesis using sus(1,3,4,5,7) [OF x(1)] x(2) by (auto simp: waiting_def)
  qed
  show ?thesis
  proof (rule bm_invI)
    show "waiting D gc (insert r K) {r} (bm_missing_ancestors ?bm) x s'" if "fmlookup (bm_suspended_blocks ?bm) x = Some s'" for x s'
      using wait [OF that] by simp
    show "\<exists>s'. fmlookup (bm_suspended_blocks ?bm) x = Some s' \<and> y |\<in>| sb_missing_ancestors s'"
      if "fmlookup (bm_missing_ancestors ?bm) y = Some C'" "x |\<in>| C'" for y C' x
      using that mis(1) [of y _ x] by (auto simp: M')
    show "y |\<in>| bm_missing_blocks ?bm \<longleftrightarrow> y |\<in>| fmdom (bm_missing_ancestors ?bm) \<and> y |\<notin>| fmdom (bm_suspended_blocks ?bm) \<and> y \<notin> {r}" for y
      using mis(4) [of y] dom [of y] by auto
    show "y |\<in>| fmdom (bm_missing_ancestors ?bm) \<Longrightarrow> y \<in> insert r K \<Longrightarrow> y \<in> {r}" for y using mis(2) dom by auto
    show "y \<in> insert r K" if "x \<in> insert r K" "x \<notin> E" "D x = Some b" "y \<in> set (vb_ancestors b)" "gc < br_round y" for x b y
      using that mis(5) [of x b y] closed sus(3) [OF s] by (cases "x = r") auto
  qed simp
qed

section \<open>A block and its children\<close>

lemma suspended_round:
  assumes "valid_dag c D" and "bm_inv D E gc K P bm" and "x |\<in>| fmdom (bm_suspended_blocks bm)" and "D x = Some b"
  shows "0 < vb_round b"
proof -
  obtain s where s: "fmlookup (bm_suspended_blocks bm) x = Some s" using assms(3) by (auto simp: fmlookup_dom_iff)
  obtain y where "y \<in> set (vb_ancestors b)" using bm_inv_suspended(3-5) [OF assms(2) s] assms(4) by auto
  then show ?thesis using valid_dagD(2,5) [OF assms(1,4)] by fastforce
qed

lemma children_spec:
  assumes valid: "valid_dag (cx_committee cx) D" and inv: "bm_inv D E gc K {r} bm"
  obtains bm' out where "try_unsuspend_children_blocks cx bm r = Some (bm', out)" "bm_inv D E gc (K \<union> vb_reference ` set out) {} bm'"
    "distinct (map vb_reference out)" "\<forall>b \<in> set out. D (vb_reference b) = Some b \<and> 0 < vb_round b \<and> vb_reference b \<notin> K"
    "fmdom (bm_missing_ancestors bm') |\<subseteq>| fmdom (bm_missing_ancestors bm)" "r |\<notin>| fmdom (bm_missing_ancestors bm')"
    "fset (fmdom (bm_suspended_blocks bm')) = fset (fmdom (bm_suspended_blocks bm)) - vb_reference ` set out"
    "bm_received_block_rounds bm' = bm_received_block_rounds bm"
proof -
  from unsuspend_loop_spec [of D E gc K "[r]" bm "[]"] valid_dagD(1) [OF valid] inv
  obtain bm' out where run: "unsuspend_loop bm [r] [] = Some (bm', out)" and facts: "bm_inv D E gc (K \<union> vb_reference ` set out) {} bm'"
    "distinct (map vb_reference out)" "\<forall>b \<in> set out. D (vb_reference b) = Some b \<and> vb_reference b |\<in>| fmdom (bm_suspended_blocks bm)"
    "fmdom (bm_missing_ancestors bm') |\<subseteq>| fmdom (bm_missing_ancestors bm)" "r |\<notin>| fmdom (bm_missing_ancestors bm')"
    "fset (fmdom (bm_suspended_blocks bm')) = fset (fmdom (bm_suspended_blocks bm)) - vb_reference ` set out"
    "bm_received_block_rounds bm' = bm_received_block_rounds bm" by auto
  have "\<forall>b \<in> set out. vb_author b < committee_size (cx_committee cx)" using facts(3) valid_dagD(4) [OF valid] by (metis br_author_reference)
  then have "\<exists>ys. mapM (\<lambda>b. committee_authority (cx_committee cx) (vb_author b)) out = Some ys"
    unfolding mapM_total [symmetric] by (auto simp: committee_authority_def committee_size_def)
  then have "try_unsuspend_children_blocks cx bm r = Some (bm', out)" using run by (auto simp: try_unsuspend_children_blocks_def)
  moreover have "\<forall>b \<in> set out. D (vb_reference b) = Some b \<and> 0 < vb_round b \<and> vb_reference b \<notin> K"
    using facts(3) suspended_round [OF valid inv] bm_inv_suspended(1) [OF inv] by (meson fmlookup_dom_iff)
  ultimately show ?thesis using that facts by blast
qed

end
