(* ===== verification/Linearizer.thy ===== *)
theory Linearizer
  imports Dag_Machine Dag_Agreement Stake_Scan
begin

text \<open>
  The linearizer of \<open>consensus/core/src/linearizer.rs\<close>: from a committed leader to the sub-dag of its
  uncommitted history, the timestamp of the commit and the chain of commits. The trait
  \<open>BlockStoreAPI\<close> is the record \<open>block_store_api\<close> of its four methods; the locale \<open>commit_marks\<close>
  holds what the linearizer relies on, and is interpreted on the methods of \<open>DagState\<close>.

  The serialisation of a commit and its hash are the two parameters of the record \<open>commit_codec\<close>.
  The clock reading \<open>add_commit\<close> stores is an argument; the counters of pruned blocks are left out,
  but for the index operations on the way to them, which can panic.
\<close>

section \<open>The store interface\<close>

record 's block_store_api =
  ba_get_blocks :: "'s \<Rightarrow> block_ref list \<Rightarrow> verified_block option list"
  ba_gc_round :: "'s \<Rightarrow> round"
  ba_set_committed :: "'s \<Rightarrow> block_ref \<Rightarrow> ('s \<times> bool) option"
  ba_is_committed :: "'s \<Rightarrow> block_ref \<Rightarrow> bool option"

definition dag_state_api :: "consensus_context \<Rightarrow> dag_state block_store_api" where
  "dag_state_api cx = \<lparr>ba_get_blocks = get_blocks, ba_gc_round = gc_round cx,
     ba_set_committed = set_committed, ba_is_committed = is_committed\<rparr>"

section \<open>Linearizing a sub-dag\<close>

text \<open>The ancestors of a block that the filter of the loop keeps.\<close>

fun uncommitted_ancestors ::
  "'s block_store_api \<Rightarrow> 's \<Rightarrow> round \<Rightarrow> block_ref list \<Rightarrow> block_ref list option" where
  "uncommitted_ancestors api st gc [] = Some []"
| "uncommitted_ancestors api st gc (a # as) = do {
     keep \<leftarrow> (if gc < br_round a then map_option Not (ba_is_committed api st a) else Some False);
     rest \<leftarrow> uncommitted_ancestors api st gc as;
     Some (if keep then a # rest else rest)
   }"

fun push_ancestors ::
  "'s block_store_api \<Rightarrow> 's \<Rightarrow> verified_block list \<Rightarrow> verified_block list \<Rightarrow> ('s \<times> verified_block list) option" where
  "push_ancestors api st buffer [] = Some (st, buffer)"
| "push_ancestors api st buffer (a # as) = do {
     (st', first) \<leftarrow> ba_set_committed api st (vb_reference a);
     assert_that first;
     push_ancestors api st' (buffer @ [a]) as
   }"

text \<open>The \<open>while\<close> loop, with the buffer as the stack it is: pushed and popped at its end.\<close>

partial_function (option) linearize_loop ::
  "'s block_store_api \<Rightarrow> round \<Rightarrow> 's \<Rightarrow> verified_block list \<Rightarrow> verified_block list \<Rightarrow>
     ('s \<times> verified_block list) option" where
  "linearize_loop api gc st buffer to_commit =
     (if buffer = [] then Some (st, to_commit)
      else Option.bind (uncommitted_ancestors api st gc (vb_ancestors (last buffer))) (\<lambda>refs.
        Option.bind (mapM (\<lambda>b. b) (ba_get_blocks api st refs)) (\<lambda>ancestors.
          Option.bind (push_ancestors api st (butlast buffer) ancestors) (\<lambda>(st', buffer').
            linearize_loop api gc st' buffer' (to_commit @ [last buffer])))))"

definition linearize_sub_dag ::
  "'s block_store_api \<Rightarrow> verified_block \<Rightarrow> 's \<Rightarrow> ('s \<times> verified_block list) option" where
  "linearize_sub_dag api leader_block st = do {
     let gc = ba_gc_round api st;
     (st1, first) \<leftarrow> ba_set_committed api st (vb_reference leader_block);
     assert_that first;
     (st2, to_commit) \<leftarrow> linearize_loop api gc st1 [leader_block] [];
     assert_that (list_all (\<lambda>b. gc < vb_round b) to_commit);
     Some (st2, sort_sub_dag_blocks to_commit)
   }"

section \<open>The timestamp of a commit\<close>

datatype median_error = NoBlocksProvided | TotalStakeTooLow stake stake

text \<open>The loop stops once the cumulative stake exceeds half of the total.\<close>

definition median_timestamps_by_stake_inner :: "(timestamp_ms \<times> stake) list \<Rightarrow> stake \<Rightarrow> timestamp_ms option" where
  "median_timestamps_by_stake_inner timestamps total_stake =
     (let sorted = sort_key fst timestamps in
      case stake_scan (total_stake div 2 + 1) 0 sorted of
        Some ts \<Rightarrow> Some ts
      | None \<Rightarrow> if sorted = [] then None else Some (fst (last sorted)))"

definition median_timestamp_by_stake ::
  "consensus_context \<Rightarrow> verified_block list \<Rightarrow> (median_error + timestamp_ms) option" where
  "median_timestamp_by_stake cx blocks = do {
     timestamps \<leftarrow> mapM (\<lambda>b. do {
         a \<leftarrow> committee_authority (cx_committee cx) (vb_author b);
         Some (vb_timestamp_ms b, auth_stake a)
       }) blocks;
     let total_stake = foldl (\<lambda>s (_, x). wrap64 (s + x)) 0 timestamps;
     if timestamps = [] then Some (Inl NoBlocksProvided)
     else if total_stake < cm_quorum_threshold (cx_committee cx)
     then Some (Inl (TotalStakeTooLow total_stake (cm_quorum_threshold (cx_committee cx))))
     else do {
       ts \<leftarrow> median_timestamps_by_stake_inner timestamps total_stake;
       Some (Inr ts)
     }
   }"

text \<open>\<open>block_ref.round == leader_block.round() - 1\<close>; no reference matches for a leader of round zero.\<close>

definition calculate_commit_timestamp ::
  "'s block_store_api \<Rightarrow> consensus_context \<Rightarrow> 's \<Rightarrow> verified_block \<Rightarrow> timestamp_ms \<Rightarrow> timestamp_ms option" where
  "calculate_commit_timestamp api cx st leader_block last_timestamp = do {
     let refs = filter (\<lambda>r. br_round r + 1 = vb_round leader_block) (vb_ancestors leader_block);
     blocks \<leftarrow> mapM (\<lambda>b. b) (ba_get_blocks api st refs);
     median \<leftarrow> median_timestamp_by_stake cx blocks;
     ts \<leftarrow> expect_ok median;
     Some (max ts last_timestamp)
   }"

section \<open>Commits\<close>

record commit_codec =
  co_serialize :: "commit \<Rightarrow> string + bytes"
  co_hash :: "bytes \<Rightarrow> digest"

definition collect_sub_dag_and_commit ::
  "commit_codec \<Rightarrow> consensus_context \<Rightarrow> dag_state \<Rightarrow> verified_block \<Rightarrow>
     (dag_state \<times> committed_sub_dag \<times> trusted_commit) option" where
  "collect_sub_dag_and_commit K cx st leader_block = do {
     let last_index = last_commit_index st;
     let last_digest = last_commit_digest st;
     let last_timestamp = last_commit_timestamp_ms st;
     (st', to_commit) \<leftarrow> linearize_sub_dag (dag_state_api cx) leader_block st;
     ts \<leftarrow> calculate_commit_timestamp (dag_state_api cx) cx st' leader_block last_timestamp;
     let commit = commit_new (last_index + 1) last_digest ts (vb_reference leader_block) (map vb_reference to_commit);
     serialized \<leftarrow> expect_ok (co_serialize K commit);
     let trusted = new_trusted (co_hash K) commit serialized;
     Some (st', committed_sub_dag_new (vb_reference leader_block) to_commit ts (tc_reference trusted), trusted)
   }"

text \<open>The index operations of the pruned-blocks metric.\<close>

definition update_blocks_pruned_metric ::
  "consensus_context \<Rightarrow> dag_state \<Rightarrow> committed_sub_dag \<Rightarrow> unit option" where
  "update_blocks_pruned_metric cx st sub_dag = do {
     _ \<leftarrow> mapM (\<lambda>r. if br_round r \<le> gc_round cx st then do {
           last_round \<leftarrow> vec_get (ds_last_committed_rounds st) (br_author r);
           if last_round \<noteq> br_round r then map_option (\<lambda>_. ()) (committee_authority (cx_committee cx) (br_author r))
           else Some ()
         } else Some ())
       (concat (map vb_ancestors (sd_blocks sub_dag)));
     Some ()
   }"

definition handle_commit_step ::
  "commit_codec \<Rightarrow> consensus_context \<Rightarrow> timestamp_ms \<Rightarrow> dag_state \<times> committed_sub_dag list \<Rightarrow> verified_block \<Rightarrow>
     (dag_state \<times> committed_sub_dag list) option" where
  "handle_commit_step K cx now acc leader_block = do {
     (st', sub_dag, commit) \<leftarrow> collect_sub_dag_and_commit K cx (fst acc) leader_block;
     _ \<leftarrow> update_blocks_pruned_metric cx st' sub_dag;
     st'' \<leftarrow> add_commit cx now st' commit;
     Some (st'', snd acc @ [sub_dag])
   }"

definition handle_commit ::
  "commit_codec \<Rightarrow> consensus_context \<Rightarrow> timestamp_ms \<Rightarrow> dag_state \<Rightarrow> verified_block list \<Rightarrow>
     (dag_state \<times> committed_sub_dag list) option" where
  "handle_commit K cx now st committed_leaders = foldM (handle_commit_step K cx now) (st, []) committed_leaders"

section \<open>What the linearizer relies on\<close>

lemma card_Diff_Un:
  assumes "finite K" and "N \<subseteq> K" and "N \<inter> C = {}"
  shows "card (K - (C \<union> N)) + card N = card (K - C)"
proof -
  have "card ((K - (C \<union> N)) \<union> N) = card (K - (C \<union> N)) + card N"
    using assms finite_subset by (intro card_Un_disjoint) auto
  moreover have "(K - (C \<union> N)) \<union> N = K - C" using assms by auto
  ultimately show ?thesis by simp
qed

text \<open>
  A store of blocks with commit marks. Above the garbage collection round every known block can be
  asked for and given its mark; setting a mark changes nothing else and tells whether it is new.
\<close>

locale commit_marks =
  fixes api :: "'s block_store_api" and ok :: "'s \<Rightarrow> bool"
    and known :: "'s \<Rightarrow> block_ref \<rightharpoonup> verified_block" and committed :: "'s \<Rightarrow> block_ref set" and rest :: "'s \<Rightarrow> 'r"
  assumes get: "ok s \<Longrightarrow> ba_get_blocks api s refs = map (known s) refs"
    and is_mark: "ok s \<Longrightarrow> known s r \<noteq> None \<Longrightarrow> ba_gc_round api s < br_round r \<Longrightarrow>
      ba_is_committed api s r = Some (r \<in> committed s)"
    and set_mark: "ok s \<Longrightarrow> known s r \<noteq> None \<Longrightarrow> ba_gc_round api s < br_round r \<Longrightarrow>
      \<exists>s'. ba_set_committed api s r = Some (s', r \<notin> committed s) \<and> ok s' \<and> known s' = known s \<and>
        ba_gc_round api s' = ba_gc_round api s \<and> committed s' = insert r (committed s) \<and> rest s' = rest s"
    and finite_above: "ok s \<Longrightarrow> finite {r. known s r \<noteq> None \<and> ba_gc_round api s < br_round r}"
begin

lemma uncommitted_ancestors_eq:
  assumes "ok s" and "\<forall>a \<in> set as. ba_gc_round api s < br_round a \<longrightarrow> known s a \<noteq> None"
  shows "uncommitted_ancestors api s (ba_gc_round api s) as =
     Some (filter (\<lambda>a. ba_gc_round api s < br_round a \<and> a \<notin> committed s) as)"
  using assms(2) by (induction as) (auto simp: is_mark [OF assms(1)])

lemma push_ancestors_eq:
  assumes "ok s" and "\<forall>a \<in> set as. ba_gc_round api s < br_round (vb_reference a) \<and> known s (vb_reference a) \<noteq> None \<and>
       vb_reference a \<notin> committed s" and "distinct (map vb_reference as)"
  shows "\<exists>s'. push_ancestors api s buffer as = Some (s', buffer @ as) \<and> ok s' \<and> known s' = known s \<and>
     ba_gc_round api s' = ba_gc_round api s \<and> committed s' = committed s \<union> vb_reference ` set as \<and> rest s' = rest s"
  using assms
proof (induction as arbitrary: s buffer)
  case (Cons a as)
  obtain s1 where s1: "ba_set_committed api s (vb_reference a) = Some (s1, True)" "ok s1" "known s1 = known s"
    "ba_gc_round api s1 = ba_gc_round api s" "committed s1 = insert (vb_reference a) (committed s)" "rest s1 = rest s"
    using set_mark [OF Cons.prems(1), of "vb_reference a"] Cons.prems(2) by (auto simp del: br_round_reference)
  have "\<forall>b \<in> set as. ba_gc_round api s1 < br_round (vb_reference b) \<and> known s1 (vb_reference b) \<noteq> None \<and>
      vb_reference b \<notin> committed s1"
    unfolding s1(3-5) using Cons.prems(2,3) by (auto simp: image_iff dest: sym)
  from Cons.IH [OF s1(2) this, of "buffer @ [a]"] Cons.prems(3) s1 show ?case by auto
qed auto

text \<open>The state of the loop, for the marks \<open>H\<close> before it and the blocks \<open>m\<close> it walks.\<close>

definition walking :: "block_ref set \<Rightarrow> (block_ref \<rightharpoonup> verified_block) \<Rightarrow> round \<Rightarrow> block_ref set \<Rightarrow> 's \<Rightarrow>
    verified_block list \<Rightarrow> verified_block list \<Rightarrow> bool" where
  "walking H m gc T s buffer out \<longleftrightarrow> ok s \<and> known s = m \<and> ba_gc_round api s = gc \<and>
     committed s = H \<union> vb_reference ` set (out @ buffer) \<and> distinct (map vb_reference (out @ buffer)) \<and>
     (\<forall>b \<in> set (out @ buffer). m (vb_reference b) = Some b \<and> gc < br_round (vb_reference b) \<and>
        vb_reference b \<notin> H \<and> linked_to m gc T (vb_reference b)) \<and>
     (\<forall>b \<in> set out. \<forall>y \<in> set (vb_ancestors b). gc < br_round y \<longrightarrow> y \<in> committed s)"

lemma walking_step:
  assumes walk: "walking H m gc T s (buffer @ [x]) out" and complete: "complete_above m gc"
    and refs: "\<And>r b. m r = Some b \<Longrightarrow> vb_reference b = r \<and> distinct (vb_ancestors b)"
  obtains s' as where "uncommitted_ancestors api s gc (vb_ancestors x) = Some (map vb_reference as)"
    "mapM (\<lambda>b. b) (ba_get_blocks api s (map vb_reference as)) = Some as"
    "push_ancestors api s buffer as = Some (s', buffer @ as)" "walking H m gc T s' (buffer @ as) (out @ [x])"
    "rest s' = rest s" "as = map (\<lambda>r. the (m r)) (filter (\<lambda>a. gc < br_round a \<and> a \<notin> committed s) (vb_ancestors x))"
proof -
  let ?rs = "filter (\<lambda>a. gc < br_round a \<and> a \<notin> committed s) (vb_ancestors x)"
  have s: "ok s" "known s = m" "ba_gc_round api s = gc"
    and comm: "committed s = H \<union> vb_reference ` set (out @ buffer @ [x])"
    and dist: "distinct (map vb_reference (out @ buffer @ [x]))"
    and x: "m (vb_reference x) = Some x" "gc < br_round (vb_reference x)" "linked_to m gc T (vb_reference x)"
    using walk by (simp_all add: walking_def)
  have known: "\<exists>b. m y = Some b \<and> vb_reference b = y" if y: "y \<in> set (vb_ancestors x)" "gc < br_round y" for y
    using complete x(1) y refs unfolding complete_above_def by (metis not_Some_eq)
  let ?as = "map (\<lambda>r. the (m r)) ?rs"
  have ref: "r \<in> set ?rs \<Longrightarrow> m r = Some (the (m r)) \<and> vb_reference (the (m r)) = r" for r using known by fastforce
  have map_ref: "map vb_reference ?as = ?rs" unfolding map_map comp_def by (rule map_idI) (use ref in blast)
  have as: "vb_reference b \<in> set ?rs \<and> m (vb_reference b) = Some b" if "b \<in> set ?as" for b
  proof -
    from that obtain r where "r \<in> set ?rs" "b = the (m r)" unfolding set_map by blast
    with ref [of r] show ?thesis by simp
  qed
  have "uncommitted_ancestors api s gc (vb_ancestors x) = Some ?rs"
    using uncommitted_ancestors_eq [OF s(1), of "vb_ancestors x"] known s by auto
  then have step1: "uncommitted_ancestors api s gc (vb_ancestors x) = Some (map vb_reference ?as)" unfolding map_ref .
  have "mapM (\<lambda>b. b) (map m ?rs) = Some (map the (map m ?rs))" by (rule mapM_Some) (use ref in auto)
  then have step2: "mapM (\<lambda>b. b) (ba_get_blocks api s (map vb_reference ?as)) = Some ?as"
    unfolding map_ref get [OF s(1)] s(2) by (simp add: comp_def)
  have "\<forall>b \<in> set ?as. ba_gc_round api s < br_round (vb_reference b) \<and> known s (vb_reference b) \<noteq> None \<and> vb_reference b \<notin> committed s"
  proof
    fix b assume "b \<in> set ?as"
    from as [OF this] show "ba_gc_round api s < br_round (vb_reference b) \<and> known s (vb_reference b) \<noteq> None \<and> vb_reference b \<notin> committed s"
      unfolding s by (simp del: br_round_reference)
  qed
  moreover have dist': "distinct (map vb_reference ?as)" unfolding map_ref using refs [OF x(1)] by simp
  ultimately obtain s' where step3: "push_ancestors api s buffer ?as = Some (s', buffer @ ?as)"
    and s': "ok s'" "known s' = m" "ba_gc_round api s' = gc" "committed s' = committed s \<union> vb_reference ` set ?as" "rest s' = rest s"
    using push_ancestors_eq [OF s(1), of ?as buffer] s by auto
  have img: "vb_reference ` set ?as = set ?rs" using arg_cong [OF map_ref, of set] unfolding set_map .
  have "walking H m gc T s' (buffer @ ?as) (out @ [x])"
    unfolding walking_def
  proof (intro conjI ballI impI)
    show "committed s' = H \<union> vb_reference ` set ((out @ [x]) @ buffer @ ?as)" unfolding s'(4) comm by auto
    have "set (map vb_reference (out @ buffer @ [x])) \<inter> set ?rs = {}" using comm by auto
    with dist refs [OF x(1)] show "distinct (map vb_reference ((out @ [x]) @ buffer @ ?as))"
      unfolding map_append map_ref by auto
    fix b assume b: "b \<in> set ((out @ [x]) @ buffer @ ?as)"
    show "m (vb_reference b) = Some b" "gc < br_round (vb_reference b)" "vb_reference b \<notin> H" "linked_to m gc T (vb_reference b)"
      using b walk as [of b] x linked_step [OF x(3,2,1)] comm unfolding walking_def by auto
  next
    fix b y assume "b \<in> set (out @ [x])" "y \<in> set (vb_ancestors b)" "gc < br_round y"
    then show "y \<in> committed s'" using walk unfolding s'(4) img by (cases "b = x") (auto simp: walking_def)
  qed (use s' in simp_all)
  then show thesis using s'(5) refl by (rule that [OF step1 step2 step3])
qed

lemma walking_decreases:
  assumes "walking H m gc T s (buffer @ [x]) out" and "walking H m gc T s' (buffer @ as) (out @ [x])"
  shows "card ({r. m r \<noteq> None \<and> gc < br_round r} - committed s') + length (buffer @ as) <
     card ({r. m r \<noteq> None \<and> gc < br_round r} - committed s) + length (buffer @ [x])"
    and "committed s \<subseteq> committed s'"
proof -
  let ?K = "{r. m r \<noteq> None \<and> gc < br_round r}" and ?N = "vb_reference ` set as"
  have walk: "committed s = H \<union> vb_reference ` set (out @ buffer @ [x])"
    "committed s' = H \<union> vb_reference ` set ((out @ [x]) @ buffer @ as)"
    "distinct (map vb_reference ((out @ [x]) @ buffer @ as))" "ok s'" "known s' = m" "ba_gc_round api s' = gc"
    "\<forall>b \<in> set as. m (vb_reference b) = Some b \<and> gc < br_round (vb_reference b) \<and> vb_reference b \<notin> H"
    using assms unfolding walking_def by simp_all
  have "finite ?K" using finite_above [OF walk(4)] walk(5,6) by simp
  moreover have "?N \<subseteq> ?K" "?N \<inter> committed s = {}" using walk(1,3,7) by auto
  ultimately have "card (?K - (committed s \<union> ?N)) + card ?N = card (?K - committed s)" by (rule card_Diff_Un)
  moreover have un: "committed s \<union> ?N = committed s'" unfolding walk(1,2) by auto
  moreover have "card ?N = length as" using walk(3) distinct_card [of "map vb_reference as"] by simp
  ultimately show "card (?K - committed s') + length (buffer @ as) < card (?K - committed s) + length (buffer @ [x])" by simp
  show "committed s \<subseteq> committed s'" using un by auto
qed

lemma linearize_loop_walk:
  assumes complete: "complete_above m gc"
    and refs: "\<And>r b. m r = Some b \<Longrightarrow> vb_reference b = r \<and> distinct (vb_ancestors b)"
    and "walking H m gc T s buffer out"
  shows "\<exists>s' out'. linearize_loop api gc s buffer out = Some (s', out') \<and> walking H m gc T s' [] out' \<and>
     committed s \<subseteq> committed s' \<and> rest s' = rest s"
  using assms(3)
proof (induction "card ({r. m r \<noteq> None \<and> gc < br_round r} - committed s) + length buffer" arbitrary: s buffer out rule: less_induct)
  case less
  show ?case
  proof (cases buffer rule: rev_cases)
    case Nil
    then show ?thesis using less.prems by (subst linearize_loop.simps) simp
  next
    case (snoc buffer' x)
    obtain s' as where step: "uncommitted_ancestors api s gc (vb_ancestors x) = Some (map vb_reference as)"
      "mapM (\<lambda>b. b) (ba_get_blocks api s (map vb_reference as)) = Some as"
      "push_ancestors api s buffer' as = Some (s', buffer' @ as)" "walking H m gc T s' (buffer' @ as) (out @ [x])"
      "rest s' = rest s"
      by (rule walking_step [OF less.prems [unfolded snoc] complete refs])
    have run: "linearize_loop api gc s buffer out = linearize_loop api gc s' (buffer' @ as) (out @ [x])"
      by (subst linearize_loop.simps) (simp add: snoc step)
    from less.hyps [OF walking_decreases(1) [OF less.prems [unfolded snoc] step(4), folded snoc] step(4)]
    show ?thesis using walking_decreases(2) [OF less.prems [unfolded snoc] step(4)] unfolding run step(5) by blast
  qed
qed

text \<open>The committed blocks above the garbage collection round are closed under ancestors.\<close>

definition marks_closed :: "'s \<Rightarrow> bool" where
  "marks_closed s \<longleftrightarrow> (\<forall>r b y. r \<in> committed s \<longrightarrow> known s r = Some b \<longrightarrow> y \<in> set (vb_ancestors b) \<longrightarrow>
     ba_gc_round api s < br_round y \<longrightarrow> y \<in> committed s)"

lemma walking_done:
  assumes walk: "walking H m gc {l} s [] out" and l: "l \<in> vb_reference ` set out"
    and closed: "\<And>r b y. r \<in> H \<Longrightarrow> m r = Some b \<Longrightarrow> y \<in> set (vb_ancestors b) \<Longrightarrow> gc < br_round y \<Longrightarrow> y \<in> H"
  shows "vb_reference ` set out = {r. linked_to m gc {l} r \<and> gc < br_round r} - H" and "marks_closed s"
proof -
  have w: "committed s = H \<union> vb_reference ` set out" "known s = m" "ba_gc_round api s = gc"
    "\<forall>b \<in> set out. m (vb_reference b) = Some b \<and> gc < br_round (vb_reference b) \<and> vb_reference b \<notin> H \<and> linked_to m gc {l} (vb_reference b)"
    "\<forall>b \<in> set out. \<forall>y \<in> set (vb_ancestors b). gc < br_round y \<longrightarrow> y \<in> committed s"
    using walk unfolding walking_def append_Nil2 by blast+
  have step: "y \<in> committed s" if "r \<in> committed s" "m r = Some b" "y \<in> set (vb_ancestors b)" "gc < br_round y" for r b y
    using that closed w(1,4,5) by (metis (no_types, lifting) UnCI UnE imageE option.inject)
  then show "marks_closed s" unfolding marks_closed_def w(2,3) by blast
  have "r \<in> committed s" if "linked_to m gc {l} r" "gc < br_round r" for r
    using that
  proof (induction rule: linked_to.induct)
    case (linked_base r)
    then show ?case using l w(1) by auto
  next
    case (linked_step r b y)
    then show ?case using step by blast
  qed
  then show "vb_reference ` set out = {r. linked_to m gc {l} r \<and> gc < br_round r} - H" using w(1,4) by auto
qed

lemma linearize_sub_dag_spec:
  assumes ok: "ok s" and l: "known s (vb_reference l) = Some l" "ba_gc_round api s < br_round (vb_reference l)"
      "vb_reference l \<notin> committed s"
    and complete: "complete_above (known s) (ba_gc_round api s)"
    and refs: "\<And>r b. known s r = Some b \<Longrightarrow> vb_reference b = r \<and> distinct (vb_ancestors b)"
    and closed: "marks_closed s"
  obtains s' bs where "linearize_sub_dag api l s = Some (s', bs)" "ok s'" "known s' = known s"
    "ba_gc_round api s' = ba_gc_round api s" "committed s' = committed s \<union> vb_reference ` set bs" "marks_closed s'" "rest s' = rest s"
    "distinct (map vb_reference bs)" "sorted (map (\<lambda>b. (vb_round b, vb_author b)) bs)"
    "\<forall>b \<in> set bs. known s (vb_reference b) = Some b"
    "vb_reference ` set bs = {r. linked_to (known s) (ba_gc_round api s) {vb_reference l} r \<and> ba_gc_round api s < br_round r} - committed s"
proof -
  let ?m = "known s" and ?gc = "ba_gc_round api s" and ?H = "committed s"
  obtain s1 where s1: "ba_set_committed api s (vb_reference l) = Some (s1, True)" "ok s1" "known s1 = ?m"
    "ba_gc_round api s1 = ?gc" "committed s1 = insert (vb_reference l) ?H" "rest s1 = rest s"
    using set_mark [OF ok, of "vb_reference l"] l by auto
  have "walking ?H ?m ?gc {vb_reference l} s1 [l] []"
    using s1 l by (auto simp: walking_def intro: linked_base)
  from linearize_loop_walk [OF complete refs this] obtain s' out
    where run: "linearize_loop api ?gc s1 [l] [] = Some (s', out)" and walk: "walking ?H ?m ?gc {vb_reference l} s' [] out"
      and mono: "committed s1 \<subseteq> committed s'" "rest s' = rest s" unfolding s1(6) by blast
  note w = walk [unfolded walking_def]
  have "vb_reference l \<in> vb_reference ` set out" using mono s1(5) w l(3) by auto
  from walking_done [OF walk this] closed have exact: "vb_reference ` set out = {r. linked_to ?m ?gc {vb_reference l} r \<and> ?gc < br_round r} - ?H"
    and closed': "marks_closed s'" unfolding marks_closed_def by blast+
  have "linearize_sub_dag api l s = Some (s', sort_sub_dag_blocks out)"
    using s1(1) run w by (simp add: linearize_sub_dag_def list_all_iff)
  then show ?thesis using that [of s' "sort_sub_dag_blocks out"] w exact closed' mono(2)
    by (simp add: distinct_map_sort_sub_dag_blocks sorted_sort_sub_dag_blocks)
qed

text \<open>
  Two stores that hold parts of one DAG and agree on the marks above the garbage collection round
  are walked in the same order.
\<close>

lemma same_ancestors:
  assumes views: "view_of D gc m" "view_of D gc m'" and marks: "\<And>r. gc < br_round r \<Longrightarrow> r \<in> H \<longleftrightarrow> r \<in> H'"
    and walk: "walking H m gc T s (buffer @ [x]) out" "walking H' m' gc T t (buffer @ [x]) out"
  shows "map (\<lambda>r. the (m' r)) (filter (\<lambda>a. gc < br_round a \<and> a \<notin> committed t) (vb_ancestors x)) =
     map (\<lambda>r. the (m r)) (filter (\<lambda>a. gc < br_round a \<and> a \<notin> committed s) (vb_ancestors x))"
proof (rule map_cong)
  have comm: "committed s = H \<union> vb_reference ` set (out @ buffer @ [x])"
    "committed t = H' \<union> vb_reference ` set (out @ buffer @ [x])"
    and x: "m (vb_reference x) = Some x" "m' (vb_reference x) = Some x"
    using walk by (simp_all add: walking_def)
  show "filter (\<lambda>a. gc < br_round a \<and> a \<notin> committed t) (vb_ancestors x) =
      filter (\<lambda>a. gc < br_round a \<and> a \<notin> committed s) (vb_ancestors x)"
    unfolding comm using marks by (intro filter_cong) auto
  fix y assume "y \<in> set (filter (\<lambda>a. gc < br_round a \<and> a \<notin> committed s) (vb_ancestors x))"
  then obtain b b' where "m y = Some b" "m' y = Some b'"
    using views x unfolding view_of_def complete_above_def by fastforce
  moreover from this have "D y = Some b" "D y = Some b'" using views unfolding view_of_def by blast+
  ultimately show "the (m' y) = the (m y)" by simp
qed

lemma linearize_loop_same:
  assumes views: "view_of D gc m" "view_of D gc m'" and D: "\<And>r b. D r = Some b \<Longrightarrow> vb_reference b = r \<and> distinct (vb_ancestors b)"
    and marks: "\<And>r. gc < br_round r \<Longrightarrow> r \<in> H \<longleftrightarrow> r \<in> H'"
    and "walking H m gc T s buffer out" and "walking H' m' gc T t buffer out"
  shows "\<exists>s' t' out'. linearize_loop api gc s buffer out = Some (s', out') \<and> linearize_loop api gc t buffer out = Some (t', out')"
  using assms(5,6)
proof (induction "card ({r. m r \<noteq> None \<and> gc < br_round r} - committed s) + length buffer" arbitrary: s t buffer out rule: less_induct)
  case less
  show ?case
  proof (cases buffer rule: rev_cases)
    case Nil
    then show ?thesis by (subst (1 2) linearize_loop.simps) simp
  next
    case (snoc buffer' x)
    note s0 = less.prems(1) [unfolded snoc] and t0 = less.prems(2) [unfolded snoc]
    have complete: "complete_above m gc" "complete_above m' gc"
      and refs: "m r = Some b \<Longrightarrow> vb_reference b = r \<and> distinct (vb_ancestors b)"
        "m' r = Some b \<Longrightarrow> vb_reference b = r \<and> distinct (vb_ancestors b)" for r b
      using views D unfolding view_of_def by blast+
    obtain s' as where s: "uncommitted_ancestors api s gc (vb_ancestors x) = Some (map vb_reference as)"
      "mapM (\<lambda>b. b) (ba_get_blocks api s (map vb_reference as)) = Some as"
      "push_ancestors api s buffer' as = Some (s', buffer' @ as)" "walking H m gc T s' (buffer' @ as) (out @ [x])"
      "rest s' = rest s" "as = map (\<lambda>r. the (m r)) (filter (\<lambda>a. gc < br_round a \<and> a \<notin> committed s) (vb_ancestors x))"
      by (rule walking_step [OF s0 complete(1) refs(1)])
    obtain t' as' where t: "uncommitted_ancestors api t gc (vb_ancestors x) = Some (map vb_reference as')"
      "mapM (\<lambda>b. b) (ba_get_blocks api t (map vb_reference as')) = Some as'"
      "push_ancestors api t buffer' as' = Some (t', buffer' @ as')" "walking H' m' gc T t' (buffer' @ as') (out @ [x])"
      "rest t' = rest t" "as' = map (\<lambda>r. the (m' r)) (filter (\<lambda>a. gc < br_round a \<and> a \<notin> committed t) (vb_ancestors x))"
      by (rule walking_step [OF t0 complete(2) refs(2)])
    have same: "as' = as" unfolding s(6) t(6) by (rule same_ancestors [OF views marks s0 t0])
    have run: "linearize_loop api gc s buffer out = linearize_loop api gc s' (buffer' @ as) (out @ [x])"
      by (subst linearize_loop.simps) (simp add: snoc s(1-3))
    have run': "linearize_loop api gc t buffer out = linearize_loop api gc t' (buffer' @ as) (out @ [x])"
      by (subst linearize_loop.simps) (simp add: snoc t(1-3) [unfolded same])
    from less.hyps [OF walking_decreases(1) [OF s0 s(4), folded snoc] s(4) t(4) [unfolded same]]
    show ?thesis unfolding run run' .
  qed
qed

lemma linearize_sub_dag_same:
  assumes oks: "ok s" "ok t" and gc: "ba_gc_round api t = ba_gc_round api s" "ba_gc_round api s < br_round (vb_reference l)"
    and l: "known s (vb_reference l) = Some l" "known t (vb_reference l) = Some l" "vb_reference l \<notin> committed s"
    and views: "view_of D (ba_gc_round api s) (known s)" "view_of D (ba_gc_round api s) (known t)"
    and D: "\<And>r b. D r = Some b \<Longrightarrow> vb_reference b = r \<and> distinct (vb_ancestors b)"
    and marks: "\<And>r. ba_gc_round api s < br_round r \<Longrightarrow> r \<in> committed s \<longleftrightarrow> r \<in> committed t"
  shows "\<exists>s' t' bs. linearize_sub_dag api l s = Some (s', bs) \<and> linearize_sub_dag api l t = Some (t', bs)"
proof -
  let ?gc = "ba_gc_round api s"
  have l': "vb_reference l \<notin> committed t" using l(3) marks gc(2) by blast
  obtain s1 where s1: "ba_set_committed api s (vb_reference l) = Some (s1, True)" "ok s1" "known s1 = known s"
    "ba_gc_round api s1 = ?gc" "committed s1 = insert (vb_reference l) (committed s)"
    using set_mark [OF oks(1), of "vb_reference l"] l gc by (auto simp del: br_round_reference)
  obtain t1 where t1: "ba_set_committed api t (vb_reference l) = Some (t1, True)" "ok t1" "known t1 = known t"
    "ba_gc_round api t1 = ?gc" "committed t1 = insert (vb_reference l) (committed t)"
    using set_mark [OF oks(2), of "vb_reference l"] l l' gc by (auto simp del: br_round_reference)
  have w: "walking (committed s) (known s) ?gc {vb_reference l} s1 [l] []"
      "walking (committed t) (known t) ?gc {vb_reference l} t1 [l] []"
    using s1 t1 l l' gc by (auto simp: walking_def intro: linked_base simp del: br_round_reference)
  obtain s' t' out where run: "linearize_loop api ?gc s1 [l] [] = Some (s', out)" "linearize_loop api ?gc t1 [l] [] = Some (t', out)"
    using linearize_loop_same [OF views D marks w] by blast
  have "complete_above (known s) ?gc" "\<And>r b. known s r = Some b \<Longrightarrow> vb_reference b = r \<and> distinct (vb_ancestors b)"
    using views(1) D unfolding view_of_def by blast+
  from linearize_loop_walk [OF this w(1)] run(1) have "\<forall>b \<in> set out. ?gc < vb_round b" by (auto simp: walking_def)
  then show ?thesis using s1(1) t1(1) run gc(1) by (simp add: linearize_sub_dag_def list_all_iff)
qed

end

section \<open>The DAG state keeps commit marks\<close>

definition committed_refs :: "dag_state \<Rightarrow> block_ref set" where
  "committed_refs st = {r. is_committed st r = Some True}"

lemma lookup_cached:
  assumes "ds_inv cx st" and "ds_lookup st r \<noteq> None" and "gc_round cx st < br_round r"
  shows "r |\<in>| fmdom (ds_recent_blocks st)"
  using lookup_above_gc [OF assms(1,3)] assms(2) by (auto simp: ds_cached_lookup intro: fmdomI)

interpretation dm: commit_marks "dag_state_api cx" "ds_inv cx" ds_lookup committed_refs
  "\<lambda>st. (ds_last_commit st, ds_last_committed_rounds st, ds_commits_to_write st)" for cx
proof
  fix st refs assume "ds_inv cx st"
  show "ba_get_blocks (dag_state_api cx) st refs = map (ds_lookup st) refs"
    by (simp add: dag_state_api_def get_blocks_lookup)
next
  fix st r assume "ds_inv cx st" "ds_lookup st r \<noteq> None" "ba_gc_round (dag_state_api cx) st < br_round r"
  then have "r |\<in>| fmdom (ds_recent_blocks st)" by (intro lookup_cached) (simp_all add: dag_state_api_def)
  then show "ba_is_committed (dag_state_api cx) st r = Some (r \<in> committed_refs st)"
    by (auto simp: dag_state_api_def committed_refs_def is_committed_def)
next
  fix st r assume inv: "ds_inv cx st" and "ds_lookup st r \<noteq> None" "ba_gc_round (dag_state_api cx) st < br_round r"
  then have "r |\<in>| fmdom (ds_recent_blocks st)" by (intro lookup_cached) (simp_all add: dag_state_api_def)
  then obtain recent first where set: "set_committed st r = Some (st\<lparr>ds_recent_blocks := recent\<rparr>, first)"
    and same: "fmmap bi_block recent = fmmap bi_block (ds_recent_blocks st)"
    and mark: "\<forall>x. is_committed (st\<lparr>ds_recent_blocks := recent\<rparr>) x = (if x = r then Some True else is_committed st x)"
    and first: "first \<longleftrightarrow> is_committed st r = Some False" "is_committed st r \<noteq> None"
    using set_committed_spec [of r st] by (auto simp: is_committed_def)
  let ?st' = "st\<lparr>ds_recent_blocks := recent\<rparr>"
  have cached: "ds_cached ?st' = ds_cached st" using same by (simp add: ds_cached_def)
  have gc: "gc_round cx ?st' = gc_round cx st" by (rule gc_round_cong) simp
  have "ds_inv cx ?st'" by (rule ds_inv_cong [OF inv cached]) (simp_all add: gc)
  moreover have "ds_lookup ?st' = ds_lookup st" by (rule ext) (simp add: ds_lookup_cached cached cong: option.case_cong)
  moreover have "first \<longleftrightarrow> r \<notin> committed_refs st" using first by (auto simp: committed_refs_def)
  moreover have "committed_refs ?st' = insert r (committed_refs st)" using mark by (auto simp: committed_refs_def)
  ultimately show "\<exists>s'. ba_set_committed (dag_state_api cx) st r = Some (s', r \<notin> committed_refs st) \<and> ds_inv cx s' \<and>
      ds_lookup s' = ds_lookup st \<and> ba_gc_round (dag_state_api cx) s' = ba_gc_round (dag_state_api cx) st \<and>
      committed_refs s' = insert r (committed_refs st) \<and>
      (ds_last_commit s', ds_last_committed_rounds s', ds_commits_to_write s') =
        (ds_last_commit st, ds_last_committed_rounds st, ds_commits_to_write st)"
    using set gc by (intro exI [of _ ?st']) (simp add: dag_state_api_def)
next
  fix st assume inv: "ds_inv cx st"
  have "{r. ds_lookup st r \<noteq> None \<and> ba_gc_round (dag_state_api cx) st < br_round r} \<subseteq> fset (fmdom (ds_recent_blocks st))"
    using lookup_cached [OF inv] by (auto simp: dag_state_api_def)
  then show "finite {r. ds_lookup st r \<noteq> None \<and> ba_gc_round (dag_state_api cx) st < br_round r}"
    by (rule finite_subset) simp
qed

section \<open>The median timestamp\<close>

lemma stake_where_blocks:
  assumes "distinct (map vb_author bs)" and "\<forall>b \<in> set bs. vb_author b < committee_size c"
  shows "stake_where P (map (\<lambda>b. (vb_timestamp_ms b, authority_weight c (vb_author b))) bs) =
     weight c {vb_author b |b. b \<in> set bs \<and> P (vb_timestamp_ms b)}"
proof -
  let ?bs = "filter (\<lambda>b. P (vb_timestamp_ms b)) bs"
  have "stake_where P (map (\<lambda>b. (vb_timestamp_ms b, authority_weight c (vb_author b))) bs) =
      sum_list (map (authority_weight c) (map vb_author ?bs))"
    by (simp add: stake_where_def filter_map comp_def)
  also have "\<dots> = (\<Sum>i \<in> set (map vb_author ?bs). authority_weight c i)"
    using assms(1) by (intro sum_list_distinct_conv_sum_set distinct_map_filter)
  also have "\<dots> = weight c (set (map vb_author ?bs))" unfolding weight_def using assms(2) by (intro sum.cong) auto
  also have "set (map vb_author ?bs) = {vb_author b |b. b \<in> set bs \<and> P (vb_timestamp_ms b)}" by auto
  finally show ?thesis .
qed

lemma wrapping_stake_sum:
  "a + stake_where (\<lambda>_. True) xs < 2 ^ 64 \<Longrightarrow> foldl (\<lambda>s (_, x). wrap64 (s + x)) a xs = a + stake_where (\<lambda>_. True) xs"
  by (induction xs arbitrary: a) (auto simp: add.assoc)

lemma inner_median:
  assumes total: "stake_where (\<lambda>_. True) xs = T" and "T < 2 ^ 64" and "0 < T"
  obtains ts where "median_timestamps_by_stake_inner xs T = Some ts" "ts \<in> fst ` set xs"
    "T div 2 < stake_where (\<lambda>t. t \<le> ts) xs" "stake_where (\<lambda>t. t < ts) xs \<le> T div 2"
proof -
  let ?s = "sort_key fst xs"
  have same: "stake_where P ?s = stake_where P xs" for P by (rule stake_where_mset_cong) simp
  have order: "sorted_wrt (\<lambda>p q. fst p \<le> fst q) ?s" using sorted_sort_key [of fst xs] by (simp add: sorted_map)
  have half: "T div 2 < T" using assms(3) by simp
  have "stake_scan (T div 2 + 1) 0 ?s \<noteq> None"
    using asc.scan_None [of "T div 2 + 1" 0 ?s] assms(2) half by (auto simp: same total)
  then obtain ts where ts: "stake_scan (T div 2 + 1) 0 ?s = Some ts" by blast
  then have "median_timestamps_by_stake_inner xs T = Some ts" by (simp add: median_timestamps_by_stake_inner_def)
  with asc.scan_Some [OF ts order] assms(2) show ?thesis by (intro that [of ts]) (auto simp: same total not_le)
qed

lemma median_timestamp_spec:
  fixes cx :: consensus_context
  defines "c \<equiv> cx_committee cx"
  assumes ok: "committee_ok c" and bs: "distinct (map vb_author bs)" "\<forall>b \<in> set bs. vb_author b < committee_size c"
    and quorum: "reached_quorum c (weight c (vb_author ` set bs))"
  obtains ts where "median_timestamp_by_stake cx bs = Some (Inr ts)" "ts \<in> vb_timestamp_ms ` set bs"
    "weight c (vb_author ` set bs) div 2 < weight c {vb_author b |b. b \<in> set bs \<and> vb_timestamp_ms b \<le> ts}"
    "weight c {vb_author b |b. b \<in> set bs \<and> vb_timestamp_ms b < ts} \<le> weight c (vb_author ` set bs) div 2"
proof -
  let ?xs = "map (\<lambda>b. (vb_timestamp_ms b, authority_weight c (vb_author b))) bs" and ?T = "weight c (vb_author ` set bs)"
  note stakes = stake_where_blocks [OF bs]
  have total: "stake_where (\<lambda>_. True) ?xs = ?T" unfolding stakes by (rule arg_cong [of _ _ "weight c"]) auto
  have bound: "?T < 2 ^ 64" using weight_le_total [OF ok] committee_total_bound [OF ok] by (rule le_less_trans)
  have pos: "0 < ?T" using quorum quorum_threshold_pos [OF ok] by (simp add: reached_quorum_def)
  obtain ts where ts: "median_timestamps_by_stake_inner ?xs ?T = Some ts" "ts \<in> fst ` set ?xs"
    "?T div 2 < stake_where (\<lambda>t. t \<le> ts) ?xs" "stake_where (\<lambda>t. t < ts) ?xs \<le> ?T div 2"
    by (rule inner_median [OF total bound pos])
  have "mapM (\<lambda>b. Option.bind (committee_authority c (vb_author b)) (\<lambda>a. Some (vb_timestamp_ms b, auth_stake a))) bs = Some ?xs"
    by (rule mapM_Some) (use bs(2) in \<open>simp add: committee_authority_def authority_weight_def committee_size_def\<close>)
  moreover have "foldl (\<lambda>s (_, x). wrap64 (s + x)) 0 ?xs = ?T" using wrapping_stake_sum [of 0 ?xs] bound by (simp add: total)
  moreover have "?xs \<noteq> []" using pos by auto
  ultimately have "median_timestamp_by_stake cx bs = Some (Inr ts)"
    using ts(1) quorum by (simp add: median_timestamp_by_stake_def reached_quorum_def flip: c_def)
  then show ?thesis using ts(2-4) unfolding stakes by (intro that) auto
qed

text \<open>At most one in three of the stake is not enough to move the median past every other timestamp.\<close>

lemma median_between:
  assumes ok: "committee_ok c" and few: "\<not> reached_validity c (weight c Byz)"
    and quorum: "reached_quorum c (weight c (vb_author ` set bs))"
    and low: "weight c (vb_author ` set bs) div 2 < weight c {vb_author b |b. b \<in> set bs \<and> vb_timestamp_ms b \<le> ts}"
    and high: "weight c {vb_author b |b. b \<in> set bs \<and> vb_timestamp_ms b < ts} \<le> weight c (vb_author ` set bs) div 2"
  shows "(\<exists>b \<in> set bs. vb_author b \<notin> Byz \<and> vb_timestamp_ms b \<le> ts) \<and> (\<exists>b \<in> set bs. vb_author b \<notin> Byz \<and> ts \<le> vb_timestamp_ms b)"
proof -
  let ?A = "\<lambda>P. {vb_author b |b. b \<in> set bs \<and> P (vb_timestamp_ms b)}" and ?T = "weight c (vb_author ` set bs)"
  have honest: "\<exists>b \<in> set bs. vb_author b \<notin> Byz \<and> P (vb_timestamp_ms b)" if "weight c Byz < weight c (?A P)" for P
  proof (rule ccontr)
    assume "\<not> (\<exists>b \<in> set bs. vb_author b \<notin> Byz \<and> P (vb_timestamp_ms b))"
    then have "weight c (?A P) \<le> weight c Byz" by (intro weight_mono) auto
    with that show False by simp
  qed
  have T: "2 * weight c Byz + 1 \<le> ?T"
    using few quorum committee_thresholds [OF ok] by (simp add: reached_validity_def reached_quorum_def)
  have "vb_author ` set bs = ?A (\<lambda>t. t < ts) \<union> ?A (\<lambda>t. ts \<le> t)" by force
  then have "?T \<le> weight c (?A (\<lambda>t. t < ts)) + weight c (?A (\<lambda>t. ts \<le> t))"
    using weight_union_inter [of c "?A (\<lambda>t. t < ts)" "?A (\<lambda>t. ts \<le> t)"] by simp
  then have "weight c Byz < weight c (?A (\<lambda>t. ts \<le> t))" using high T by linarith
  moreover have "weight c Byz < weight c (?A (\<lambda>t. t \<le> ts))" using low T by linarith
  ultimately show ?thesis using honest [of "\<lambda>t. t \<le> ts"] honest [of "\<lambda>t. ts \<le> t"] by blast
qed

text \<open>The same laws for the state of any validator with the same garbage collection depth.\<close>

interpretation dms: commit_marks "dag_state_api cx" "\<lambda>st. \<exists>cx'. dag_state_api cx' = dag_state_api cx \<and> ds_inv cx' st"
  ds_lookup committed_refs "\<lambda>st. (ds_last_commit st, ds_last_committed_rounds st, ds_commits_to_write st)" for cx
proof
  fix st r assume "\<exists>cx'. dag_state_api cx' = dag_state_api cx \<and> ds_inv cx' st" and r: "ds_lookup st r \<noteq> None"
    "ba_gc_round (dag_state_api cx) st < br_round r"
  then obtain cx' where cx': "dag_state_api cx' = dag_state_api cx" "ds_inv cx' st" by blast
  from dm.set_mark [OF cx'(2) r [folded cx'(1)]] cx'(1)
  show "\<exists>s'. ba_set_committed (dag_state_api cx) st r = Some (s', r \<notin> committed_refs st) \<and>
      (\<exists>cx'. dag_state_api cx' = dag_state_api cx \<and> ds_inv cx' s') \<and> ds_lookup s' = ds_lookup st \<and>
      ba_gc_round (dag_state_api cx) s' = ba_gc_round (dag_state_api cx) st \<and> committed_refs s' = insert r (committed_refs st) \<and>
      (ds_last_commit s', ds_last_committed_rounds s', ds_commits_to_write s') =
        (ds_last_commit st, ds_last_committed_rounds st, ds_commits_to_write st)"
    by metis
qed (use dm.get dm.is_mark dm.finite_above in metis)+

end
