(* ===== verification/Leader_Schedule.thy ===== *)
theory Leader_Schedule
  imports Dag_Machine
begin

text \<open>
  The leader schedule of \<open>consensus/core/src/leader_schedule.rs\<close>: the stake-based election, the swap
  table built from the reputation scores, and the schedule update that closes a scoring period.

  The random choices (\<open>rand::rngs::StdRng\<close> seeded with 32 bytes, and the three methods of
  \<open>SliceRandom\<close> the code calls with it) are not code of the repository. They are the fields of the
  record \<open>rng_ops\<close>, deterministic functions of the seed; \<open>rng_ok\<close> states what their documentation
  promises. The locks around the swap table and the metrics are left out.
\<close>

section \<open>Seeded random choices\<close>

type_synonym seed = "nat list"

text \<open>\<open>rg_weighted\<close> is \<open>choose_multiple_weighted\<close> on items with their stakes, \<open>None\<close> its error.\<close>

record rng_ops =
  rg_weighted :: "seed \<Rightarrow> (authority_index \<times> stake) list \<Rightarrow> nat \<Rightarrow> (authority_index \<times> stake) list option"
  rg_shuffle :: "seed \<Rightarrow> (authority_index \<times> nat) list \<Rightarrow> (authority_index \<times> nat) list"
  rg_choose :: "seed \<Rightarrow> (authority_index \<times> string \<times> stake) list \<Rightarrow> (authority_index \<times> string \<times> stake) option"

text \<open>\<open>u32::to_le_bytes\<close>.\<close>

definition le_bytes32 :: "nat \<Rightarrow> nat list" where
  "le_bytes32 n = map (\<lambda>i. n div 256 ^ i mod 256) [0..<4]"

section \<open>The swap table\<close>

record leader_swap_table =
  st_good_nodes :: "(authority_index \<times> string \<times> stake) list"
  st_bad_nodes :: "(authority_index, string \<times> stake) fmap"
  st_reputation_scores_desc :: "(authority_index \<times> nat) list"
  st_reputation_scores :: reputation_scores

definition swap_table_default :: leader_swap_table where
  "swap_table_default = \<lparr>st_good_nodes = [], st_bad_nodes = fmempty, st_reputation_scores_desc = [],
     st_reputation_scores = \<lparr>rs_scores_per_authority = [], rs_commit_range = commit_range_default\<rparr>\<rparr>"

text \<open>The loop of \<open>retrieve_first_nodes\<close>, with the stake accumulated so far.\<close>

fun retrieve_loop ::
  "committee \<Rightarrow> nat \<Rightarrow> stake \<Rightarrow> (authority_index \<times> nat) list \<Rightarrow> (authority_index \<times> string \<times> stake) list option" where
  "retrieve_loop c threshold stake [] = Some []"
| "retrieve_loop c threshold stake ((idx, score) # authorities) = do {
     s \<leftarrow> committee_stake c idx;
     let stake' = wrap64 (stake + s);
     if wrap64 (threshold * cm_total_stake c) div 100 < stake' then Some []
     else do {
       a \<leftarrow> committee_authority c idx;
       rest \<leftarrow> retrieve_loop c threshold stake' authorities;
       Some ((idx, auth_hostname a, auth_stake a) # rest)
     }
   }"

definition retrieve_first_nodes ::
  "consensus_context \<Rightarrow> (authority_index \<times> nat) list \<Rightarrow> nat \<Rightarrow> (authority_index \<times> string \<times> stake) list option" where
  "retrieve_first_nodes cx authorities stake_threshold =
     retrieve_loop (cx_committee cx) stake_threshold 0 authorities"

text \<open>The stable sort by descending score.\<close>

definition sort_by_score_desc :: "(authority_index \<times> nat) list \<Rightarrow> (authority_index \<times> nat) list" where
  "sort_by_score_desc = sort_key (\<lambda>(_, score). - int score)"

definition swap_table_new_inner ::
  "rng_ops \<Rightarrow> consensus_context \<Rightarrow> nat \<Rightarrow> commit_index \<Rightarrow> reputation_scores \<Rightarrow> leader_swap_table option" where
  "swap_table_new_inner R cx swap_stake_threshold ci scores = do {
     assert_that (swap_stake_threshold \<le> 33);
     if rs_scores_per_authority scores = [] then Some swap_table_default
     else do {
       let seed = replicate 28 0 @ le_bytes32 ci;
       by_score \<leftarrow> authorities_by_score cx scores;
       assert_that (length by_score = committee_size (cx_committee cx));
       let sorted = sort_by_score_desc (rg_shuffle R seed by_score);
       good \<leftarrow> retrieve_first_nodes cx sorted swap_stake_threshold;
       bad \<leftarrow> retrieve_first_nodes cx (rev sorted) swap_stake_threshold;
       Some \<lparr>st_good_nodes = good, st_bad_nodes = fmap_of_list (rev bad),
         st_reputation_scores_desc = sorted, st_reputation_scores = scores\<rparr>
     }
   }"

definition swap_table_new ::
  "rng_ops \<Rightarrow> consensus_context \<Rightarrow> commit_index \<Rightarrow> reputation_scores \<Rightarrow> leader_swap_table option" where
  "swap_table_new R cx ci scores =
     swap_table_new_inner R cx (pc_bad_nodes_stake_threshold (cx_protocol_config cx)) ci scores"

text \<open>The outer option is the panic, the inner one the \<open>Option\<close> the code returns.\<close>

definition swap_leader ::
  "rng_ops \<Rightarrow> leader_swap_table \<Rightarrow> authority_index \<Rightarrow> round \<Rightarrow> nat \<Rightarrow> authority_index option option" where
  "swap_leader R table leader leader_round leader_offset =
     (if leader |\<in>| fmdom (st_bad_nodes table) then do {
        assert_that (leader_offset = 0);
        let seed = replicate 24 0 @ le_bytes32 leader_round @ le_bytes32 leader_offset;
        (idx, hostname, stake) \<leftarrow> rg_choose R seed (st_good_nodes table);
        Some (Some idx)
      } else Some None)"

section \<open>The schedule\<close>

record leader_schedule =
  lc_leader_swap_table :: leader_swap_table
  lc_num_commits_per_schedule :: nat

definition CONSENSUS_COMMITS_PER_SCHEDULE :: nat where
  "CONSENSUS_COMMITS_PER_SCHEDULE = 300"

definition leader_schedule_new :: "leader_swap_table \<Rightarrow> leader_schedule" where
  "leader_schedule_new table =
     \<lparr>lc_leader_swap_table = table, lc_num_commits_per_schedule = CONSENSUS_COMMITS_PER_SCHEDULE\<rparr>"

definition leader_schedule_from_store ::
  "rng_ops \<Rightarrow> consensus_context \<Rightarrow> dag_state \<Rightarrow> leader_schedule option" where
  "leader_schedule_from_store R cx st = do {
     table \<leftarrow> (case recover_last_commit_info st of
         None \<Rightarrow> Some swap_table_default
       | Some (last_commit_ref, last_commit_info) \<Rightarrow>
           swap_table_new R cx (cr_index last_commit_ref) (ci_reputation_scores last_commit_info));
     _ \<leftarrow> scoring_subdags_count st;
     Some (leader_schedule_new table)
   }"

definition commits_until_leader_schedule_update :: "leader_schedule \<Rightarrow> dag_state \<Rightarrow> nat option" where
  "commits_until_leader_schedule_update ls st = do {
     count \<leftarrow> scoring_subdags_count st;
     assert_that (count \<le> lc_num_commits_per_schedule ls);
     Some (lc_num_commits_per_schedule ls - count)
   }"

definition leader_schedule_updated :: "dag_state \<Rightarrow> bool" where
  "leader_schedule_updated st = is_scoring_subdag_empty st"

definition update_leader_swap_table ::
  "leader_schedule \<Rightarrow> leader_swap_table \<Rightarrow> leader_schedule option" where
  "update_leader_swap_table ls table = do {
     let old_range = rs_commit_range (st_reputation_scores (lc_leader_swap_table ls));
     let new_range = rs_commit_range (st_reputation_scores table);
     (if old_range \<noteq> commit_range_default then do {
       assert_that (is_next_range old_range new_range);
       equal \<leftarrow> is_equal_size old_range new_range;
       assert_that equal
     } else Some ());
     Some (ls\<lparr>lc_leader_swap_table := table\<rparr>)
   }"

definition update_leader_schedule_v2 ::
  "rng_ops \<Rightarrow> consensus_context \<Rightarrow> leader_schedule \<Rightarrow> dag_state \<Rightarrow> (leader_schedule \<times> dag_state) option" where
  "update_leader_schedule_v2 R cx ls st = do {
     scores \<leftarrow> calculate_scoring_subdag_scores cx st;
     last_index \<leftarrow> scoring_subdag_commit_range st;
     st' \<leftarrow> add_commit_info (clear_scoring_subdag st) scores;
     table \<leftarrow> swap_table_new R cx last_index scores;
     ls' \<leftarrow> update_leader_swap_table ls table;
     Some (ls', st')
   }"

section \<open>Electing leaders\<close>

definition elect_leader_stake_based ::
  "rng_ops \<Rightarrow> consensus_context \<Rightarrow> round \<Rightarrow> nat \<Rightarrow> authority_index option" where
  "elect_leader_stake_based R cx r offset = do {
     assert_that (offset < committee_size (cx_committee cx));
     let seed = replicate 28 0 @ le_bytes32 r;
     let choices = map (\<lambda>(i, a). (i, auth_stake a)) (committee_authorities (cx_committee cx));
     chosen \<leftarrow> rg_weighted R seed choices (committee_size (cx_committee cx));
     (leader, _) \<leftarrow> vec_get chosen offset;
     Some leader
   }"

definition elect_leader ::
  "rng_ops \<Rightarrow> consensus_context \<Rightarrow> leader_schedule \<Rightarrow> round \<Rightarrow> nat \<Rightarrow> authority_index option" where
  "elect_leader R cx ls r leader_offset = do {
     leader \<leftarrow> elect_leader_stake_based R cx r leader_offset;
     swapped \<leftarrow> swap_leader R (lc_leader_swap_table ls) leader r leader_offset;
     Some (case swapped of Some idx \<Rightarrow> idx | None \<Rightarrow> leader)
   }"

section \<open>Lemmas\<close>

lemma le_bytes32_code [code]:
  "le_bytes32 n = map (\<lambda>i. nat (int n div 256 ^ i mod 256)) [0..<4]"
proof -
  have "n div 256 ^ i mod 256 = nat (int n div 256 ^ i mod 256)" for i
    by (metis nat_int of_nat_div of_nat_mod of_nat_numeral of_nat_power)
  then show ?thesis unfolding le_bytes32_def by simp
qed

text \<open>What the documentation of \<open>SliceRandom\<close> promises of the three methods.\<close>

definition rng_ok :: "rng_ops \<Rightarrow> bool" where
  "rng_ok R \<longleftrightarrow>
     (\<forall>seed xs. mset (rg_shuffle R seed xs) = mset xs) \<and>
     (\<forall>seed xs. xs \<noteq> [] \<longrightarrow> (\<exists>x \<in> set xs. rg_choose R seed xs = Some x)) \<and>
     (\<forall>seed xs. (\<forall>(i, w) \<in> set xs. 0 < w) \<longrightarrow>
        (\<exists>ys. rg_weighted R seed xs (length xs) = Some ys \<and> mset ys = mset xs))"

text \<open>The share of the stake that may be swapped out, in stake units.\<close>

definition swap_limit :: "consensus_context \<Rightarrow> stake" where
  "swap_limit cx =
     pc_bad_nodes_stake_threshold (cx_protocol_config cx) * cm_total_stake (cx_committee cx) div 100"

definition stakes :: "committee \<Rightarrow> (authority_index \<times> 'a) list \<Rightarrow> stake" where
  "stakes c xs = sum_list (map (\<lambda>(i, _). authority_weight c i) xs)"

lemma stakes_simps [simp]:
  "stakes c [] = 0" "stakes c ((i, v) # xs) = authority_weight c i + stakes c xs"
  "stakes c (xs @ ys) = stakes c xs + stakes c ys" "stakes c (rev xs) = stakes c xs"
  by (simp_all add: stakes_def rev_map [symmetric])

lemma stakes_weight:
  assumes "distinct (map fst xs)" and "\<forall>i \<in> set (map fst xs). i < committee_size c"
  shows "stakes c xs = weight c (set (map fst xs))"
proof -
  have "stakes c xs = sum_list (map (authority_weight c) (map fst xs))"
    by (simp add: stakes_def comp_def case_prod_beta')
  also have "\<dots> = (\<Sum>i \<in> set (map fst xs). authority_weight c i)"
    by (rule sum_list_distinct_conv_sum_set [OF assms(1)])
  also have "set (map fst xs) = set (map fst xs) \<inter> {..<committee_size c}"
    using assms(2) by auto
  finally show ?thesis by (simp add: weight_def)
qed

lemma retrieve_loop_spec:
  assumes "\<forall>(i, _) \<in> set xs. i < committee_size c" and "s + stakes c xs < 2 ^ 64"
    and "threshold * cm_total_stake c < 2 ^ 64"
  shows "\<exists>ys k. retrieve_loop c threshold s xs = Some ys \<and> k \<le> length xs \<and>
     ys = map (\<lambda>(i, _). (i, auth_hostname (cm_authorities c ! i), auth_stake (cm_authorities c ! i))) (take k xs) \<and>
     (0 < k \<longrightarrow> s + stakes c (take k xs) \<le> threshold * cm_total_stake c div 100) \<and>
     (k < length xs \<longrightarrow> threshold * cm_total_stake c div 100 < s + stakes c (take (Suc k) xs))"
  using assms
proof (induction xs arbitrary: s)
  case Nil
  then show ?case by simp
next
  case (Cons x xs)
  obtain i v where x: "x = (i, v)" by force
  let ?s = "s + authority_weight c i" and ?T = "threshold * cm_total_stake c div 100"
  have i: "i < committee_size c" and s: "?s < 2 ^ 64" and rest: "?s + stakes c xs < 2 ^ 64"
    using Cons.prems by (auto simp: x)
  have step: "retrieve_loop c threshold s (x # xs) = (if ?T < ?s then Some []
       else map_option ((#) (i, auth_hostname (cm_authorities c ! i), auth_stake (cm_authorities c ! i)))
         (retrieve_loop c threshold ?s xs))"
    using i s Cons.prems(3)
    by (simp add: x committee_stake_eq committee_authority_def vec_get_def committee_size_def
        map_option_case split: option.splits)
  show ?case
  proof (cases "?T < ?s")
    case True
    then show ?thesis using step by (intro exI [of _ "[]"] exI [of _ 0]) (simp add: x)
  next
    case False
    obtain ys k where IH: "retrieve_loop c threshold ?s xs = Some ys" "k \<le> length xs"
      "ys = map (\<lambda>(i, _). (i, auth_hostname (cm_authorities c ! i), auth_stake (cm_authorities c ! i))) (take k xs)"
      "0 < k \<longrightarrow> ?s + stakes c (take k xs) \<le> ?T" "k < length xs \<longrightarrow> ?T < ?s + stakes c (take (Suc k) xs)"
      using Cons.IH [of ?s] rest Cons.prems(1,3) by (auto simp: x)
    show ?thesis using step False IH
      by (intro exI [of _ "(i, auth_hostname (cm_authorities c ! i), auth_stake (cm_authorities c ! i)) # ys"]
          exI [of _ "Suc k"]) (cases k; simp add: x add.assoc)
  qed
qed

definition node_of :: "committee \<Rightarrow> authority_index \<times> nat \<Rightarrow> authority_index \<times> string \<times> stake" where
  "node_of c x = (fst x, auth_hostname (cm_authorities c ! fst x), auth_stake (cm_authorities c ! fst x))"

lemma retrieve_first_nodes_spec:
  assumes "\<forall>(i, _) \<in> set xs. i < committee_size (cx_committee cx)" and "stakes (cx_committee cx) xs < 2 ^ 64"
    and "threshold * cm_total_stake (cx_committee cx) < 2 ^ 64"
  obtains k where "retrieve_first_nodes cx xs threshold = Some (map (node_of (cx_committee cx)) (take k xs))"
    "k \<le> length xs"
    "stakes (cx_committee cx) (take k xs) \<le> threshold * cm_total_stake (cx_committee cx) div 100"
    "k < length xs \<Longrightarrow>
       threshold * cm_total_stake (cx_committee cx) div 100 < stakes (cx_committee cx) (take (Suc k) xs)"
proof -
  have node: "node_of c = (\<lambda>(i, _). (i, auth_hostname (cm_authorities c ! i), auth_stake (cm_authorities c ! i)))"
    for c by (auto simp: node_of_def)
  obtain k where "k \<le> length xs"
    "retrieve_first_nodes cx xs threshold = Some (map (node_of (cx_committee cx)) (take k xs))"
    "0 < k \<longrightarrow> stakes (cx_committee cx) (take k xs) \<le> threshold * cm_total_stake (cx_committee cx) div 100"
    "k < length xs \<longrightarrow>
       threshold * cm_total_stake (cx_committee cx) div 100 < stakes (cx_committee cx) (take (Suc k) xs)"
    using retrieve_loop_spec [of xs "cx_committee cx" 0 threshold] assms
    unfolding node retrieve_first_nodes_def by auto
  moreover from this have "stakes (cx_committee cx) (take k xs) \<le> threshold * cm_total_stake (cx_committee cx) div 100"
    by (cases k) auto
  ultimately show ?thesis using that by blast
qed

lemma sort_by_score_desc_props [simp]:
  "mset (sort_by_score_desc xs) = mset xs"
  "sorted_wrt (\<lambda>x y. snd y \<le> snd x) (sort_by_score_desc xs)"
proof -
  show "mset (sort_by_score_desc xs) = mset xs" by (simp add: sort_by_score_desc_def)
  have "sorted (map (\<lambda>(_, score). - int score) (sort_by_score_desc xs))"
    by (simp add: sort_by_score_desc_def)
  then show "sorted_wrt (\<lambda>x y. snd y \<le> snd x) (sort_by_score_desc xs)"
    by (simp add: sorted_wrt_map case_prod_beta')
qed

lemma sorted_disjoint:
  assumes "distinct (map fst xs)" and "k + j \<le> length xs"
  shows "set (map fst (take k xs)) \<inter> set (map fst (take j (rev xs))) = {}"
proof -
  have "set (take j (rev xs)) = set (drop (length xs - j) xs)" by (simp add: take_rev)
  moreover have "set (map fst (take k xs)) \<inter> set (map fst (drop (length xs - j) xs)) = {}"
    using set_take_disj_set_drop_if_distinct [OF assms(1), of k "length xs - j"] assms(2)
    by (simp add: take_map drop_map)
  ultimately show ?thesis by (metis set_map)
qed

lemma stakes_overlap:
  assumes "length xs < k + j" and "k \<le> length xs" and "j \<le> length xs"
  shows "stakes c xs \<le> stakes c (take k xs) + stakes c (take j (rev xs))"
proof -
  let ?m = "length xs - j"
  have j: "stakes c (take j (rev xs)) = stakes c (drop ?m xs)" by (simp add: take_rev)
  have "take k xs = take ?m xs @ take (k - ?m) (drop ?m xs)"
    using assms by (metis add_diff_inverse_nat add_le_imp_le_diff le_simps(1) linorder_not_less take_add less_diff_conv2)
  then have "stakes c (take ?m xs) \<le> stakes c (take k xs)" by simp
  moreover have "stakes c xs = stakes c (take ?m xs) + stakes c (drop ?m xs)"
    by (metis append_take_drop_id stakes_simps(3))
  ultimately show ?thesis using j by simp
qed

text \<open>The conditions of the epoch under which tables are built.\<close>

definition schedule_context :: "consensus_context \<Rightarrow> bool" where
  "schedule_context cx \<longleftrightarrow> committee_ok (cx_committee cx) \<and>
     pc_bad_nodes_stake_threshold (cx_protocol_config cx) \<le> 33 \<and>
     pc_bad_nodes_stake_threshold (cx_protocol_config cx) * cm_total_stake (cx_committee cx) < 2 ^ 64"

lemma swap_limit_half: "schedule_context cx \<Longrightarrow> 2 * swap_limit cx < cm_total_stake (cx_committee cx)"
proof -
  assume cx: "schedule_context cx"
  have "pc_bad_nodes_stake_threshold (cx_protocol_config cx) * cm_total_stake (cx_committee cx)
      \<le> 33 * cm_total_stake (cx_committee cx)"
    using cx by (simp add: schedule_context_def)
  moreover have "0 < cm_total_stake (cx_committee cx)"
    using cx by (simp add: schedule_context_def committee_ok_def)
  ultimately show ?thesis unfolding swap_limit_def by linarith
qed

lemma swap_table_new_spec:
  assumes R: "rng_ok R" and cx: "schedule_context cx" and ne: "rs_scores_per_authority scores \<noteq> []"
    and len: "length (rs_scores_per_authority scores) = committee_size (cx_committee cx)"
  obtains xs k j where
    "swap_table_new R cx ci scores = Some \<lparr>st_good_nodes = map (node_of (cx_committee cx)) (take k xs),
       st_bad_nodes = fmap_of_list (rev (map (node_of (cx_committee cx)) (take j (rev xs)))),
       st_reputation_scores_desc = xs, st_reputation_scores = scores\<rparr>"
    "mset xs = mset (zip [0..<committee_size (cx_committee cx)] (rs_scores_per_authority scores))"
    "sorted_wrt (\<lambda>x y. snd y \<le> snd x) xs" "k \<le> length xs" "j \<le> length xs"
    "stakes (cx_committee cx) (take k xs) \<le> swap_limit cx"
    "stakes (cx_committee cx) (take j (rev xs)) \<le> swap_limit cx"
    "k < length xs \<Longrightarrow> swap_limit cx < stakes (cx_committee cx) (take (Suc k) xs)"
proof -
  let ?c = "cx_committee cx" and ?zs = "zip [0..<committee_size (cx_committee cx)] (rs_scores_per_authority scores)"
  let ?thr = "pc_bad_nodes_stake_threshold (cx_protocol_config cx)"
  define xs where "xs = sort_by_score_desc (rg_shuffle R (replicate 28 0 @ le_bytes32 ci) ?zs)"
  have m: "mset xs = mset ?zs" using R by (simp add: xs_def rng_ok_def)
  then have s: "set xs = set ?zs" by (metis set_mset_mset)
  then have valid: "\<forall>(i, _) \<in> set xs. i < committee_size ?c" by (auto dest: set_zip_leftD)
  have "mset (map fst xs) = mset (map fst ?zs)" using m by (metis mset_map)
  also have "map fst ?zs = [0..<committee_size ?c]" using len by simp
  finally have f: "mset (map fst xs) = mset [0..<committee_size ?c]" .
  then have "distinct (map fst xs)" by (metis distinct_upt mset_eq_imp_distinct_iff)
  then have "stakes ?c xs = weight ?c (set (map fst xs))"
    by (rule stakes_weight) (use valid in auto)
  also have "\<dots> \<le> cm_total_stake ?c" using cx by (auto simp: schedule_context_def intro: weight_le_total)
  finally have "stakes ?c xs < 2 ^ 64" using cx by (auto simp: schedule_context_def committee_ok_def)
  moreover have "?thr * cm_total_stake ?c < 2 ^ 64" using cx by (simp add: schedule_context_def)
  ultimately obtain k j where
    k: "retrieve_first_nodes cx xs ?thr = Some (map (node_of ?c) (take k xs))" "k \<le> length xs"
      "stakes ?c (take k xs) \<le> ?thr * cm_total_stake ?c div 100"
      "k < length xs \<Longrightarrow> ?thr * cm_total_stake ?c div 100 < stakes ?c (take (Suc k) xs)"
    and j: "retrieve_first_nodes cx (rev xs) ?thr = Some (map (node_of ?c) (take j (rev xs)))"
      "j \<le> length xs" "stakes ?c (take j (rev xs)) \<le> ?thr * cm_total_stake ?c div 100"
    using retrieve_first_nodes_spec [of xs cx ?thr] retrieve_first_nodes_spec [of "rev xs" cx ?thr] valid
    by (metis length_rev set_rev stakes_simps(4))
  have "swap_table_new R cx ci scores = Some \<lparr>st_good_nodes = map (node_of ?c) (take k xs),
       st_bad_nodes = fmap_of_list (rev (map (node_of ?c) (take j (rev xs)))),
       st_reputation_scores_desc = xs, st_reputation_scores = scores\<rparr>"
    using cx ne len k(1) j(1)
    by (simp add: swap_table_new_def swap_table_new_inner_def schedule_context_def authorities_by_score_eq
        xs_def Let_def)
  then show ?thesis using that m k j by (auto simp: swap_limit_def xs_def)
qed

lemma swap_table_new_cases:
  assumes "swap_table_new R cx ci scores = Some table" and "rs_scores_per_authority scores \<noteq> []"
  shows "length (rs_scores_per_authority scores) = committee_size (cx_committee cx)"
  using assms
  by (auto simp: swap_table_new_def swap_table_new_inner_def authorities_by_score_def Let_def
      dest!: mapM_length elim!: bind_SomeE split: if_splits)

definition good_indices :: "leader_swap_table \<Rightarrow> authority_index set" where
  "good_indices table = fst ` set (st_good_nodes table)"

definition bad_indices :: "leader_swap_table \<Rightarrow> authority_index set" where
  "bad_indices table = fset (fmdom (st_bad_nodes table))"

lemma swap_table_default_indices [simp]:
  "good_indices swap_table_default = {}" "bad_indices swap_table_default = {}"
  by (simp_all add: good_indices_def bad_indices_def swap_table_default_def)

lemma fst_node_of [simp]: "fst (node_of c x) = fst x"
  by (simp add: node_of_def)

lemma set_map_fst_node_of [simp]: "fst ` node_of c ` A = fst ` A"
  by (simp add: image_image)

lemma table_indices:
  assumes "table = \<lparr>st_good_nodes = map (node_of c) gs, st_bad_nodes = fmap_of_list (rev (map (node_of c) bs)),
     st_reputation_scores_desc = xs, st_reputation_scores = scores\<rparr>"
  shows "good_indices table = set (map fst gs)" and "bad_indices table = set (map fst bs)"
  using assms by (simp_all add: good_indices_def bad_indices_def fset_of_list.rep_eq)

text \<open>The entries of the sorted list are the committee, each with its score.\<close>

lemma scored_list:
  assumes "mset xs = mset (zip [0..<n] scores)" and "length scores = n"
  shows "distinct (map fst xs)" and "set (map fst xs) = {..<n}" and "length xs = n"
    and "x \<in> set xs \<Longrightarrow> snd x = scores ! fst x"
proof -
  have "mset (map fst xs) = mset [0..<n]" using assms by (metis length_upt map_fst_zip minus_nat.diff_0 mset_map)
  then show "distinct (map fst xs)" "set (map fst xs) = {..<n}" "length xs = n"
    by (metis distinct_upt mset_eq_imp_distinct_iff, metis atLeast_upt mset_eq_setD,
        metis length_map length_upt minus_nat.diff_0 size_mset)
  assume "x \<in> set xs"
  then have "x \<in> set (zip [0..<n] scores)" using assms(1) by (metis set_mset_mset)
  then show "snd x = scores ! fst x" using assms(2) by (auto simp: set_zip)
qed

lemma prefix_beats_suffix:
  assumes "sorted_wrt (\<lambda>x y. snd y \<le> snd x) xs" and "k + j \<le> length xs"
    and "g \<in> set (take k xs)" and "b \<in> set (take j (rev xs))"
  shows "snd b \<le> snd g"
proof -
  let ?m = "length xs - j"
  have "b \<in> set (drop ?m xs)" using assms(4) by (simp add: take_rev)
  moreover have "g \<in> set (take ?m xs)"
  proof -
    have "k \<le> ?m" using assms(2) by linarith
    then show ?thesis using assms(3) set_take_subset_set_take [of k ?m xs] by blast
  qed
  moreover have "sorted_wrt (\<lambda>x y. snd y \<le> snd x) (take ?m xs @ drop ?m xs)" using assms(1) by simp
  ultimately show ?thesis unfolding sorted_wrt_append by blast
qed

text \<open>The scored list a table was built from, and the lengths of its good prefix and bad suffix.\<close>

definition table_shape ::
  "consensus_context \<Rightarrow> nat list \<Rightarrow> leader_swap_table \<Rightarrow> (authority_index \<times> nat) list \<Rightarrow> nat \<Rightarrow> nat \<Rightarrow> bool" where
  "table_shape cx scores table xs k j \<longleftrightarrow>
     good_indices table = set (map fst (take k xs)) \<and> bad_indices table = set (map fst (take j (rev xs))) \<and>
     distinct (map fst xs) \<and> set (map fst xs) = {..<committee_size (cx_committee cx)} \<and>
     (\<forall>x \<in> set xs. snd x = scores ! fst x) \<and> sorted_wrt (\<lambda>x y. snd y \<le> snd x) xs \<and> k + j \<le> length xs \<and>
     stakes (cx_committee cx) (take k xs) \<le> swap_limit cx \<and>
     stakes (cx_committee cx) (take j (rev xs)) \<le> swap_limit cx \<and>
     (k < length xs \<longrightarrow> swap_limit cx < stakes (cx_committee cx) (take (Suc k) xs))"

lemma swap_table_shape:
  assumes "rng_ok R" and "schedule_context cx" and "swap_table_new R cx ci scores = Some table"
    and ne: "rs_scores_per_authority scores \<noteq> []"
  obtains xs k j where "table_shape cx (rs_scores_per_authority scores) table xs k j"
proof -
  let ?c = "cx_committee cx"
  note len = swap_table_new_cases [OF assms(3) ne]
  obtain xs k j where t: "Some table = Some \<lparr>st_good_nodes = map (node_of ?c) (take k xs),
       st_bad_nodes = fmap_of_list (rev (map (node_of ?c) (take j (rev xs)))),
       st_reputation_scores_desc = xs, st_reputation_scores = scores\<rparr>"
    and m: "mset xs = mset (zip [0..<committee_size ?c] (rs_scores_per_authority scores))"
    and sorted: "sorted_wrt (\<lambda>x y. snd y \<le> snd x) xs" and kj: "k \<le> length xs" "j \<le> length xs"
    and g: "stakes ?c (take k xs) \<le> swap_limit cx" and b: "stakes ?c (take j (rev xs)) \<le> swap_limit cx"
    and max: "k < length xs \<Longrightarrow> swap_limit cx < stakes ?c (take (Suc k) xs)"
    by (rule swap_table_new_spec [OF assms(1,2) ne len, of ci]) (use assms(3) in auto)
  note xs = scored_list [OF m len]
  have "stakes ?c xs = weight ?c {..<committee_size ?c}"
    using stakes_weight [OF xs(1), of ?c] unfolding xs(2) by simp
  also have "\<dots> = cm_total_stake ?c" using assms(2) by (simp add: schedule_context_def committee_ok_def weight_all)
  finally have all: "stakes ?c xs = cm_total_stake ?c" .
  have "k + j \<le> length xs"
  proof (rule ccontr)
    assume "\<not> k + j \<le> length xs"
    then have "stakes ?c xs \<le> stakes ?c (take k xs) + stakes ?c (take j (rev xs))"
      by (intro stakes_overlap kj) simp
    then show False using all g b swap_limit_half [OF assms(2)] by linarith
  qed
  moreover have "good_indices table = set (map fst (take k xs))"
    "bad_indices table = set (map fst (take j (rev xs)))"
    by (rule table_indices [OF iffD1 [OF option.inject t]])+
  ultimately have "table_shape cx (rs_scores_per_authority scores) table xs k j"
    unfolding table_shape_def using xs sorted g b max by blast
  then show ?thesis by (rule that)
qed

lemma elect_leader_stake_based_member:
  assumes "rng_ok R" and "committee_size (cx_committee cx) > offset"
    and pos: "\<forall>i < committee_size (cx_committee cx). 0 < authority_weight (cx_committee cx) i"
  obtains l where "elect_leader_stake_based R cx r offset = Some l" "l < committee_size (cx_committee cx)"
proof -
  let ?c = "cx_committee cx" and ?seed = "replicate 28 0 @ le_bytes32 r"
  let ?xs = "map (\<lambda>(i, a). (i, auth_stake a)) (committee_authorities ?c)"
  have "\<forall>(i, w) \<in> set ?xs. 0 < w"
    using pos by (auto simp: committee_authorities_def set_zip authority_weight_def committee_size_def)
  moreover have len: "length ?xs = committee_size ?c" by (simp add: committee_authorities_def committee_size_def)
  ultimately obtain ys where ys: "rg_weighted R ?seed ?xs (committee_size ?c) = Some ys" "mset ys = mset ?xs"
    using assms(1) unfolding rng_ok_def by metis
  from ys(2) have "length ys = committee_size ?c" and s: "set ys = set ?xs"
    using len by (metis mset_eq_length, metis mset_eq_setD)
  then have o: "offset < length ys" using assms(2) by simp
  then have "ys ! offset \<in> set ?xs" using s nth_mem by blast
  then have "fst (ys ! offset) < committee_size ?c"
    by (auto simp: committee_authorities_def committee_size_def set_zip)
  moreover have "elect_leader_stake_based R cx r offset = Some (fst (ys ! offset))"
    using ys(1) o assms(2) by (simp add: elect_leader_stake_based_def vec_get_def case_prod_beta')
  ultimately show ?thesis using that by blast
qed

text \<open>A table whose good group is not empty replaces a bad leader by a good one.\<close>

lemma swap_leader_spec:
  assumes "rng_ok R" and "leader \<in> bad_indices table \<longrightarrow> good_indices table \<noteq> {}"
  shows "\<exists>s. swap_leader R table leader r 0 = Some s \<and>
     (if leader \<in> bad_indices table then \<exists>l \<in> good_indices table. s = Some l else s = None)"
proof (cases "leader \<in> bad_indices table")
  case True
  then have "st_good_nodes table \<noteq> []" using assms(2) by (auto simp: good_indices_def)
  then obtain x where "x \<in> set (st_good_nodes table)"
    "rg_choose R (replicate 24 0 @ le_bytes32 r @ le_bytes32 0) (st_good_nodes table) = Some x"
    using assms(1) unfolding rng_ok_def by blast
  moreover obtain i h w where "x = (i, h, w)" by (cases x)
  ultimately show ?thesis using True
    by (intro exI [of _ "Some i"]) (auto simp: swap_leader_def bad_indices_def good_indices_def image_iff intro!: bexI [of _ x])
next
  case False
  then show ?thesis by (simp add: swap_leader_def bad_indices_def)
qed

text \<open>The good group is empty only if the best authority alone exceeds the limit.\<close>

lemma good_nodes_exist:
  assumes "rng_ok R" and "schedule_context cx" and "swap_table_new R cx ci scores = Some table"
    and small: "\<forall>i < committee_size (cx_committee cx). authority_weight (cx_committee cx) i \<le> swap_limit cx"
    and bad: "bad_indices table \<noteq> {}"
  shows "good_indices table \<noteq> {}"
proof (cases "rs_scores_per_authority scores = []")
  case True
  then have "table = swap_table_default" using assms(3)
    by (auto simp: swap_table_new_def swap_table_new_inner_def split: if_splits)
  then show ?thesis using bad by simp
next
  case False
  obtain xs k j where "table_shape cx (rs_scores_per_authority scores) table xs k j"
    by (rule swap_table_shape [OF assms(1-3) False])
  then have ind: "good_indices table = set (map fst (take k xs))"
      "bad_indices table = set (map fst (take j (rev xs)))"
    and set: "set (map fst xs) = {..<committee_size (cx_committee cx)}"
    and max: "k < length xs \<Longrightarrow> swap_limit cx < stakes (cx_committee cx) (take (Suc k) xs)"
    by (simp_all only: table_shape_def)
  from bad ind(2) obtain x xs' where xs: "xs = x # xs'" by (cases xs) auto
  have "fst x < committee_size (cx_committee cx)" using set xs by force
  then have "stakes (cx_committee cx) (take (Suc 0) xs) \<le> swap_limit cx"
    using small by (cases x) (simp add: xs)
  then have "k \<noteq> 0" using max xs by (metis leD length_greater_0_conv list.distinct(1))
  then show ?thesis by (cases k) (simp_all add: ind xs)
qed

lemma swap_table_disjoint:
  assumes "rng_ok R" and "schedule_context cx" and "swap_table_new R cx ci scores = Some table"
  shows "good_indices table \<inter> bad_indices table = {}"
    and "good_indices table \<subseteq> {..<committee_size (cx_committee cx)}"
proof -
  have "good_indices table \<inter> bad_indices table = {} \<and> good_indices table \<subseteq> {..<committee_size (cx_committee cx)}"
  proof (cases "rs_scores_per_authority scores = []")
    case True
    then have "table = swap_table_default" using assms(3)
      by (auto simp: swap_table_new_def swap_table_new_inner_def split: if_splits)
    then show ?thesis by simp
  next
    case False
    obtain xs k j where "table_shape cx (rs_scores_per_authority scores) table xs k j"
      by (rule swap_table_shape [OF assms False])
    then have "good_indices table = set (map fst (take k xs))"
      "bad_indices table = set (map fst (take j (rev xs)))" "distinct (map fst xs)"
      "set (map fst xs) = {..<committee_size (cx_committee cx)}" "k + j \<le> length xs"
      by (simp_all only: table_shape_def)
    then show ?thesis using sorted_disjoint [of xs k j] by (auto dest!: in_set_takeD)
  qed
  then show "good_indices table \<inter> bad_indices table = {}"
    and "good_indices table \<subseteq> {..<committee_size (cx_committee cx)}" by blast+
qed

lemma scores_total:
  assumes "sg_inv cx sg" and "sg_commit_range sg = Some r"
  obtains rs where "calculate_distributed_vote_scores cx sg = Some rs" "rs_commit_range rs = r"
    "length (rs_scores_per_authority rs) = committee_size (cx_committee cx)"
proof -
  obtain scores where "distributed_votes_scores cx sg = Some scores" "length scores = committee_size (cx_committee cx)"
    using score_loop [of "sorted_list_of_fmap (sg_votes sg)" "replicate (committee_size (cx_committee cx)) 0"]
      assms(1) by (fastforce simp: distributed_votes_scores_def sg_inv_def)
  then show ?thesis using that [of "reputation_scores_new r scores"] assms(2)
    by (simp add: calculate_distributed_vote_scores_def reputation_scores_new_def)
qed

text \<open>The condition of the assertion in \<open>update_leader_swap_table\<close>.\<close>

definition range_follows :: "commit_range \<Rightarrow> commit_range \<Rightarrow> bool" where
  "range_follows old r \<longleftrightarrow> old = commit_range_default \<or>
     (range_start old \<le> range_end old \<and> range_end old = range_start r \<and> range_start r \<le> range_end r \<and>
      range_end old - range_start old = range_end r - range_start r)"

lemma update_leader_swap_table_iff:
  "update_leader_swap_table ls table =
     (if range_follows (rs_commit_range (st_reputation_scores (lc_leader_swap_table ls)))
           (rs_commit_range (st_reputation_scores table))
      then Some (ls\<lparr>lc_leader_swap_table := table\<rparr>) else None)"
  by (auto simp: update_leader_swap_table_def range_follows_def is_next_range_def is_equal_size_def
      commit_range_size_def Let_def)

section \<open>Properties\<close>

text \<open>
  C37: A swap table built by \<open>LeaderSwapTable::new\<close> keeps its good and its bad nodes apart: no
  authority is both, each group holds at most the configured percentage of the stake, and no bad node
  has a better score than a good one.
\<close>

theorem swap_table_separates:
  assumes "rng_ok R" and "schedule_context cx" and "swap_table_new R cx ci scores = Some table"
  shows "good_indices table \<inter> bad_indices table = {} \<and>
     weight (cx_committee cx) (good_indices table) \<le> swap_limit cx \<and>
     weight (cx_committee cx) (bad_indices table) \<le> swap_limit cx \<and>
     (\<forall>g \<in> good_indices table. \<forall>b \<in> bad_indices table.
        rs_scores_per_authority scores ! b \<le> rs_scores_per_authority scores ! g)"
proof (cases "rs_scores_per_authority scores = []")
  case True
  then have "table = swap_table_default" using assms(3)
    by (auto simp: swap_table_new_def swap_table_new_inner_def split: if_splits)
  then show ?thesis by simp
next
  case False
  let ?c = "cx_committee cx"
  obtain xs k j where "table_shape cx (rs_scores_per_authority scores) table xs k j"
    by (rule swap_table_shape [OF assms False])
  then have ind: "good_indices table = set (map fst (take k xs))"
      "bad_indices table = set (map fst (take j (rev xs)))"
    and xs: "distinct (map fst xs)" "set (map fst xs) = {..<committee_size ?c}"
      "\<And>x. x \<in> set xs \<Longrightarrow> snd x = rs_scores_per_authority scores ! fst x"
    and sorted: "sorted_wrt (\<lambda>x y. snd y \<le> snd x) xs" and sep: "k + j \<le> length xs"
    and g: "stakes ?c (take k xs) \<le> swap_limit cx" and b: "stakes ?c (take j (rev xs)) \<le> swap_limit cx"
    unfolding table_shape_def by blast+
  have sub: "set (take k xs) \<subseteq> set xs" "set (take j (rev xs)) \<subseteq> set xs"
    by (auto dest: in_set_takeD)
  have "stakes ?c (take k xs) = weight ?c (good_indices table)"
    unfolding ind by (rule stakes_weight) (use xs(1,2) in \<open>auto simp: take_map [symmetric] dest!: in_set_takeD\<close>)
  moreover have "stakes ?c (take j (rev xs)) = weight ?c (bad_indices table)"
    unfolding ind by (rule stakes_weight)
      (use xs(1,2) in \<open>auto simp: take_map [symmetric] rev_map [symmetric] dest!: in_set_takeD\<close>)
  moreover have "rs_scores_per_authority scores ! fst y \<le> rs_scores_per_authority scores ! fst x"
    if "x \<in> set (take k xs)" "y \<in> set (take j (rev xs))" for x y
    using prefix_beats_suffix [OF sorted sep that] xs(3) that sub by (metis subsetD)
  ultimately show ?thesis using swap_table_disjoint(1) [OF assms] g b by (auto simp: ind)
qed

definition example_rng :: rng_ops where
  "example_rng = \<lparr>rg_weighted = (\<lambda>seed xs n. Some xs), rg_shuffle = (\<lambda>seed xs. xs),
     rg_choose = (\<lambda>seed xs. case xs of [] \<Rightarrow> None | x # _ \<Rightarrow> Some x)\<rparr>"

lemma example_rng_ok: "rng_ok example_rng"
  by (auto simp: rng_ok_def example_rng_def split: list.splits)

lemma example_schedule_context: "schedule_context example_context"
  unfolding schedule_context_def example_context_def example_config_def
  using committee_ok_example by (simp add: example_committee_def)

definition example_scores :: reputation_scores where
  "example_scores = \<lparr>rs_scores_per_authority = [5, 9, 1, 7], rs_commit_range = CommitRange 1 301\<rparr>"

definition example_table :: leader_swap_table where
  "example_table = \<lparr>st_good_nodes = [node_of example_committee (1, 9)],
     st_bad_nodes = fmap_of_list [node_of example_committee (2, 1)],
     st_reputation_scores_desc = [(1, 9), (3, 7), (0, 5), (2, 1)], st_reputation_scores = example_scores\<rparr>"

lemma example_table_new: "swap_table_new example_rng example_context 300 example_scores = Some example_table"
  by code_simp

theorem swap_table_separates_witness:
  "good_indices example_table \<inter> bad_indices example_table = {} \<and>
   weight example_committee (bad_indices example_table) \<le> swap_limit example_context"
  using swap_table_separates [OF example_rng_ok example_schedule_context example_table_new] by simp

text \<open>
  C38: With the table \<open>LeaderSwapTable::new\<close> built and no authority holding more than the
  swappable share of the stake, \<open>elect_leader\<close> at offset zero never panics, and the leader it
  returns is a member of the committee and not one of the bad nodes. (Without the bound on single
  stakes the good group can be empty, and \<open>swap\<close> panics on a bad leader.)
\<close>

theorem elect_leader_never_bad:
  assumes "rng_ok R" and "schedule_context cx"
    and "swap_table_new R cx ci scores = Some (lc_leader_swap_table ls)"
    and "\<forall>i < committee_size (cx_committee cx). 0 < authority_weight (cx_committee cx) i \<and>
       authority_weight (cx_committee cx) i \<le> swap_limit cx"
  shows "\<exists>l. elect_leader R cx ls r 0 = Some l \<and> l < committee_size (cx_committee cx) \<and>
     l \<notin> bad_indices (lc_leader_swap_table ls)"
proof -
  let ?t = "lc_leader_swap_table ls" and ?n = "committee_size (cx_committee cx)"
  have "0 < ?n" using assms(2) by (auto simp: schedule_context_def committee_ok_def committee_size_def)
  then obtain l where l: "elect_leader_stake_based R cx r 0 = Some l" "l < ?n"
    using elect_leader_stake_based_member [OF assms(1)] assms(4) by metis
  have "l \<in> bad_indices ?t \<longrightarrow> good_indices ?t \<noteq> {}"
    using good_nodes_exist [OF assms(1-3)] assms(4) by blast
  then obtain s where s: "swap_leader R ?t l r 0 = Some s"
    "if l \<in> bad_indices ?t then \<exists>l' \<in> good_indices ?t. s = Some l' else s = None"
    using swap_leader_spec [OF assms(1)] by blast
  then show ?thesis using l swap_table_disjoint [OF assms(1-3)]
    by (auto simp: elect_leader_def split: if_splits)
qed

theorem elect_leader_never_bad_witness:
  "elect_leader example_rng example_context (leader_schedule_new example_table) 2 0 \<noteq> None \<and>
   bad_indices example_table \<noteq> {}"
proof -
  have "swap_table_new example_rng example_context 300 example_scores =
     Some (lc_leader_swap_table (leader_schedule_new example_table))"
    by (simp add: leader_schedule_new_def example_table_new)
  moreover have "\<forall>i < committee_size (cx_committee example_context).
     0 < authority_weight (cx_committee example_context) i \<and>
     authority_weight (cx_committee example_context) i \<le> swap_limit example_context"
    by code_simp
  ultimately show ?thesis
    using elect_leader_never_bad [OF example_rng_ok example_schedule_context, of 300 example_scores
        "leader_schedule_new example_table" 2]
    by (auto simp: bad_indices_def example_table_def node_of_def)
qed

text \<open>
  C39: Once a period of commits has been scored, \<open>update_leader_schedule_v2\<close> succeeds exactly if
  the scored range is the successor, of equal size, of the range of the table in use (or that table
  is the initial one). It then buffers the scores for persisting, leaves the scoring sub-dag
  empty, so that the full number of commits lies ahead of the next update, and installs a table made
  from the scores of that range.
\<close>

theorem schedule_update:
  assumes "rng_ok R" and "schedule_context cx" and "sg_inv cx (ds_scoring_subdag st)"
    and "sg_commit_range (ds_scoring_subdag st) = Some r" and "ds_last_commit st = Some lc"
  shows "if range_follows (rs_commit_range (st_reputation_scores (lc_leader_swap_table ls))) r
     then \<exists>ls' st' scores. update_leader_schedule_v2 R cx ls st = Some (ls', st') \<and>
       calculate_scoring_subdag_scores cx st = Some scores \<and> rs_commit_range scores = r \<and>
       swap_table_new R cx (commit_range_end r) scores = Some (lc_leader_swap_table ls') \<and>
       st_reputation_scores (lc_leader_swap_table ls') = scores \<and>
       ds_commit_info_to_write st' = ds_commit_info_to_write st @
         [(tc_reference lc, \<lparr>ci_committed_rounds = ds_last_committed_rounds st, ci_reputation_scores = scores\<rparr>)] \<and>
       leader_schedule_updated st' \<and>
       commits_until_leader_schedule_update ls' st' = Some (lc_num_commits_per_schedule ls)
     else update_leader_schedule_v2 R cx ls st = None"
proof -
  obtain rs where rs: "calculate_distributed_vote_scores cx (ds_scoring_subdag st) = Some rs"
    "rs_commit_range rs = r" and len: "length (rs_scores_per_authority rs) = committee_size (cx_committee cx)"
    by (rule scores_total [OF assms(3,4)])
  have ne: "rs_scores_per_authority rs \<noteq> []"
    using assms(2) len by (auto simp: schedule_context_def committee_ok_def committee_size_def)
  obtain table where t: "swap_table_new R cx (commit_range_end r) rs = Some table"
    "st_reputation_scores table = rs"
    by (rule swap_table_new_spec [OF assms(1,2) ne len, of "commit_range_end r"]) simp
  show ?thesis
    using assms(4,5) rs t
    by (simp add: update_leader_schedule_v2_def calculate_scoring_subdag_scores_def
        scoring_subdag_commit_range_def clear_scoring_subdag_def add_commit_info_def
        update_leader_swap_table_iff leader_schedule_updated_def is_scoring_subdag_empty_def
        commits_until_leader_schedule_update_def scoring_subdags_count_def scored_subdags_count_def
        sg_clear_def sg_is_empty_def)
qed

definition example_scored_state :: dag_state where
  "example_scored_state = (unloaded_state example_context 0 mem_store_new [] [2, 2, 2, 2] example_votes)
     \<lparr>ds_last_commit := Some (new_trusted (\<lambda>_. 7) (commit_new 2 6 20 (BlockRef 2 0 0) []) [])\<rparr>"

theorem schedule_update_witness:
  "\<exists>ls' st'. update_leader_schedule_v2 example_rng example_context (leader_schedule_new swap_table_default)
       example_scored_state = Some (ls', st') \<and>
     commits_until_leader_schedule_update ls' st' = Some 300"
proof -
  have "sg_inv example_context (ds_scoring_subdag example_scored_state)"
    "sg_commit_range (ds_scoring_subdag example_scored_state) = Some (CommitRange 1 3)"
    using sg_inv_example by (simp_all add: example_scored_state_def unloaded_state_def Let_def example_votes_def)
  moreover have "ds_last_commit example_scored_state =
      Some (new_trusted (\<lambda>_. 7) (commit_new 2 6 20 (BlockRef 2 0 0) []) [])"
    by (simp add: example_scored_state_def)
  moreover have "range_follows (rs_commit_range (st_reputation_scores
      (lc_leader_swap_table (leader_schedule_new swap_table_default)))) (CommitRange 1 3)"
    by (simp add: range_follows_def leader_schedule_new_def swap_table_default_def)
  ultimately show ?thesis
    using schedule_update [OF example_rng_ok example_schedule_context, of example_scored_state "CommitRange 1 3"
        _ "leader_schedule_new swap_table_default"]
    by (auto simp: leader_schedule_new_def CONSENSUS_COMMITS_PER_SCHEDULE_def)
qed

end
