(* ===== verification/Base_Committer.thy ===== *)
theory Base_Committer
  imports Leader_Schedule
begin

text \<open>
  The decision rules of \<open>consensus/core/src/base_committer.rs\<close>: electing the leader of a wave, direct
  decision by blames or certificates, indirect decision from an anchor. The committer reads the DAG
  state and the leader schedule, which are arguments here; its own data are the three options.

  The map \<open>all_votes\<close>, a cache of answers about one leader, is threaded through the certificate checks
  as the code does. \<open>find_supported_block\<close> recurses through the ancestors; the model is a partial
  function whose \<open>None\<close> covers the panic on a missing block. Log lines and the \<open>Display\<close> of a committer are left out.
\<close>

section \<open>Options and waves\<close>

record base_committer =
  bo_wave_length :: round
  bo_leader_offset :: nat
  bo_round_offset :: round

definition base_committer_default :: base_committer where
  "base_committer_default = \<lparr>bo_wave_length = DEFAULT_WAVE_LENGTH, bo_leader_offset = 0, bo_round_offset = 0\<rparr>"

definition leader_round :: "base_committer \<Rightarrow> wave_number \<Rightarrow> round" where
  "leader_round bc wave = wave * bo_wave_length bc + bo_round_offset bc"

definition decision_round :: "base_committer \<Rightarrow> wave_number \<Rightarrow> round" where
  "decision_round bc wave = wave * bo_wave_length bc + bo_wave_length bc - 1 + bo_round_offset bc"

definition wave_number :: "base_committer \<Rightarrow> round \<Rightarrow> wave_number" where
  "wave_number bc r = (r - bo_round_offset bc) div bo_wave_length bc"

definition bc_elect_leader ::
  "rng_ops \<Rightarrow> consensus_context \<Rightarrow> leader_schedule \<Rightarrow> base_committer \<Rightarrow> round \<Rightarrow> slot option option" where
  "bc_elect_leader R cx ls bc r = (let wave = wave_number bc r in
     if leader_round bc wave \<noteq> r then Some None
     else do {
       leader \<leftarrow> elect_leader R cx ls r (bo_leader_offset bc);
       Some (Some (Slot r leader))
     })"

section \<open>Votes and certificates\<close>

text \<open>The loop of \<open>find_supported_block\<close> over the ancestors of a block.\<close>

partial_function (option) find_in_ancestors ::
  "(block_ref \<Rightarrow> verified_block option) \<Rightarrow> slot \<Rightarrow> block_ref list \<Rightarrow> block_ref option option" where
  "find_in_ancestors get leader_slot ancestors =
     (case ancestors of
        [] \<Rightarrow> Some None
      | a # rest \<Rightarrow>
          if slot_of_ref a = leader_slot then Some (Some a)
          else if br_round a \<le> slot_round leader_slot then find_in_ancestors get leader_slot rest
          else Option.bind (get a) (\<lambda>b.
            Option.bind (if vb_round b < slot_round leader_slot then Some None
                else find_in_ancestors get leader_slot (vb_ancestors b)) (\<lambda>support.
              case support of
                Some s \<Rightarrow> Some (Some s)
              | None \<Rightarrow> find_in_ancestors get leader_slot rest)))"

definition find_supported_block :: "dag_state \<Rightarrow> slot \<Rightarrow> verified_block \<Rightarrow> block_ref option option" where
  "find_supported_block st leader_slot from =
     (if vb_round from < slot_round leader_slot then Some None
      else find_in_ancestors (get_block st) leader_slot (vb_ancestors from))"

definition is_vote :: "dag_state \<Rightarrow> verified_block \<Rightarrow> verified_block \<Rightarrow> bool option" where
  "is_vote st potential_vote leader_block = do {
     support \<leftarrow> find_supported_block st (slot_of_ref (vb_reference leader_block)) potential_vote;
     Some (support = Some (vb_reference leader_block))
   }"

type_synonym vote_cache = "(block_ref, bool) fmap"

definition check_vote ::
  "consensus_context \<Rightarrow> dag_state \<Rightarrow> verified_block \<Rightarrow> vote_cache \<Rightarrow> block_ref \<Rightarrow> (bool \<times> vote_cache) option" where
  "check_vote cx st leader_block all_votes reference =
     (case fmlookup all_votes reference of
        Some v \<Rightarrow> Some (v, all_votes)
      | None \<Rightarrow> do {
          v \<leftarrow> (case get_block st reference of
              Some potential_vote \<Rightarrow> is_vote st potential_vote leader_block
            | None \<Rightarrow> do {
                assert_that (br_round reference \<le> gc_round cx st);
                Some False
              });
          Some (v, fmupd reference v all_votes)
        })"

fun certificate_loop ::
  "consensus_context \<Rightarrow> dag_state \<Rightarrow> verified_block \<Rightarrow> stake_aggregator \<Rightarrow> vote_cache \<Rightarrow> block_ref list \<Rightarrow>
     (bool \<times> vote_cache) option" where
  "certificate_loop cx st leader_block agg all_votes [] = Some (False, all_votes)"
| "certificate_loop cx st leader_block agg all_votes (reference # refs) = do {
     (v, all_votes') \<leftarrow> check_vote cx st leader_block all_votes reference;
     if v then do {
       (agg', reached) \<leftarrow> sa_add QuorumThreshold (cx_committee cx) agg (br_author reference);
       if reached then Some (True, all_votes')
       else certificate_loop cx st leader_block agg' all_votes' refs
     } else certificate_loop cx st leader_block agg all_votes' refs
   }"

definition is_certificate ::
  "consensus_context \<Rightarrow> dag_state \<Rightarrow> verified_block \<Rightarrow> verified_block \<Rightarrow> vote_cache \<Rightarrow> (bool \<times> vote_cache) option" where
  "is_certificate cx st potential_certificate leader_block all_votes =
     certificate_loop cx st leader_block sa_new all_votes (vb_ancestors potential_certificate)"

section \<open>Direct decision\<close>

fun blame_loop ::
  "consensus_context \<Rightarrow> authority_index \<Rightarrow> stake_aggregator \<Rightarrow> verified_block list \<Rightarrow> bool option" where
  "blame_loop cx leader agg [] = Some False"
| "blame_loop cx leader agg (b # bs) =
     (if list_all (\<lambda>a. br_author a \<noteq> leader) (vb_ancestors b) then do {
        (agg', reached) \<leftarrow> sa_add QuorumThreshold (cx_committee cx) agg (br_author (vb_reference b));
        if reached then Some True else blame_loop cx leader agg' bs
      } else blame_loop cx leader agg bs)"

definition enough_leader_blame ::
  "consensus_context \<Rightarrow> dag_state \<Rightarrow> round \<Rightarrow> authority_index \<Rightarrow> bool option" where
  "enough_leader_blame cx st voting_round leader = do {
     voting_blocks \<leftarrow> get_uncommitted_blocks_at_round st voting_round;
     blame_loop cx leader sa_new voting_blocks
   }"

fun support_loop ::
  "consensus_context \<Rightarrow> dag_state \<Rightarrow> verified_block \<Rightarrow> stake_aggregator \<Rightarrow> vote_cache \<Rightarrow> verified_block list \<Rightarrow> bool option" where
  "support_loop cx st leader_block agg all_votes [] = Some False"
| "support_loop cx st leader_block agg all_votes (b # bs) = do {
     (certified, all_votes') \<leftarrow> is_certificate cx st b leader_block all_votes;
     if certified then do {
       (agg', reached) \<leftarrow> sa_add QuorumThreshold (cx_committee cx) agg (br_author (vb_reference b));
       if reached then Some True else support_loop cx st leader_block agg' all_votes' bs
     } else support_loop cx st leader_block agg all_votes' bs
   }"

text \<open>The quick rejection sums the stake of every block of the round, equivocations included.\<close>

definition enough_leader_support ::
  "consensus_context \<Rightarrow> dag_state \<Rightarrow> round \<Rightarrow> verified_block \<Rightarrow> bool option" where
  "enough_leader_support cx st decision_rnd leader_block = do {
     decision_blocks \<leftarrow> get_uncommitted_blocks_at_round st decision_rnd;
     stakes \<leftarrow> mapM (\<lambda>b. committee_stake (cx_committee cx) (vb_author b)) decision_blocks;
     let total_stake = foldl (\<lambda>s x. wrap64 (s + x)) 0 stakes;
     if \<not> reached_quorum (cx_committee cx) total_stake then Some False
     else support_loop cx st leader_block sa_new fmempty decision_blocks
   }"

text \<open>An iterator \<open>filter\<close> whose closure can panic.\<close>

fun filterM :: "('a \<Rightarrow> bool option) \<Rightarrow> 'a list \<Rightarrow> 'a list option" where
  "filterM p [] = Some []"
| "filterM p (x # xs) = do {
     b \<leftarrow> p x;
     ys \<leftarrow> filterM p xs;
     Some (if b then x # ys else ys)
   }"

definition try_direct_decide ::
  "consensus_context \<Rightarrow> base_committer \<Rightarrow> dag_state \<Rightarrow> slot \<Rightarrow> leader_status option" where
  "try_direct_decide cx bc st leader = do {
     blamed \<leftarrow> enough_leader_blame cx st (slot_round leader + 1) (slot_authority leader);
     if blamed then Some (LSkip leader)
     else do {
       let decision_rnd = decision_round bc (wave_number bc (slot_round leader));
       supported \<leftarrow> filterM (enough_leader_support cx st decision_rnd) (get_uncommitted_blocks_at_slot st leader);
       assert_that (length supported \<le> 1);
       Some (case supported of [] \<Rightarrow> LUndecided leader | _ \<Rightarrow> LCommit (last supported))
     }
   }"

section \<open>Indirect decision\<close>

fun any_certificate ::
  "consensus_context \<Rightarrow> dag_state \<Rightarrow> verified_block \<Rightarrow> vote_cache \<Rightarrow> verified_block list \<Rightarrow> bool option" where
  "any_certificate cx st leader_block all_votes [] = Some False"
| "any_certificate cx st leader_block all_votes (b # bs) = do {
     (certified, all_votes') \<leftarrow> is_certificate cx st b leader_block all_votes;
     if certified then Some True else any_certificate cx st leader_block all_votes' bs
   }"

definition decide_leader_from_anchor ::
  "consensus_context \<Rightarrow> base_committer \<Rightarrow> dag_state \<Rightarrow> verified_block \<Rightarrow> slot \<Rightarrow> leader_status option" where
  "decide_leader_from_anchor cx bc st anchor leader_slot = do {
     let leader_blocks = get_uncommitted_blocks_at_slot st leader_slot;
     let decision_rnd = decision_round bc (wave_number bc (slot_round leader_slot));
     potential_certificates \<leftarrow> ancestors_at_round st anchor decision_rnd;
     certified \<leftarrow> filterM (\<lambda>l. any_certificate cx st l fmempty potential_certificates) leader_blocks;
     assert_that (length certified \<le> 1);
     Some (case certified of [] \<Rightarrow> LSkip leader_slot | _ \<Rightarrow> LCommit (last certified))
   }"

text \<open>The loop over the statuses of the later leaders, in ascending round order.\<close>

fun anchor_loop ::
  "consensus_context \<Rightarrow> base_committer \<Rightarrow> dag_state \<Rightarrow> slot \<Rightarrow> leader_status list \<Rightarrow> leader_status option" where
  "anchor_loop cx bc st leader_slot [] = Some (LUndecided leader_slot)"
| "anchor_loop cx bc st leader_slot (LCommit anchor # ls) = decide_leader_from_anchor cx bc st anchor leader_slot"
| "anchor_loop cx bc st leader_slot (LSkip s # ls) = anchor_loop cx bc st leader_slot ls"
| "anchor_loop cx bc st leader_slot (LUndecided s # ls) = Some (LUndecided leader_slot)"

definition try_indirect_decide ::
  "consensus_context \<Rightarrow> base_committer \<Rightarrow> dag_state \<Rightarrow> slot \<Rightarrow> leader_status list \<Rightarrow> leader_status option" where
  "try_indirect_decide cx bc st leader_slot leaders =
     anchor_loop cx bc st leader_slot
       (filter (\<lambda>x. slot_round leader_slot + bo_wave_length bc \<le> ls_round x) leaders)"

end
