(* ===== verification/Universal_Committer.thy ===== *)
theory Universal_Committer
  imports Base_Committer
begin

text \<open>
  The sequence of decisions of \<open>consensus/core/src/universal_committer.rs\<close>: \<open>try_decide\<close> runs the
  committers over the rounds from the highest down to the last decided one and returns the longest
  prefix of decided leaders; the builder makes one committer per pipeline stage and leader offset.
  The metrics are left out, but for the lookup of the leader's host name, which can panic.
\<close>

type_synonym universal_committer = "base_committer list"

definition round_leader ::
  "consensus_context \<Rightarrow> base_committer \<Rightarrow> dag_state \<Rightarrow> slot \<Rightarrow> leader_status list \<Rightarrow> (leader_status \<times> decision) option" where
  "round_leader cx bc st slot leaders = do {
     status \<leftarrow> try_direct_decide cx bc st slot;
     if is_decided status then Some (status, Direct)
     else do {
       status' \<leftarrow> try_indirect_decide cx bc st slot leaders;
       Some (status', Indirect)
     }
   }"

text \<open>The inner loop, over the committers from the last; the flag is \<open>break 'outer\<close>.\<close>

fun committer_loop ::
  "rng_ops \<Rightarrow> consensus_context \<Rightarrow> leader_schedule \<Rightarrow> dag_state \<Rightarrow> slot \<Rightarrow> round \<Rightarrow> base_committer list \<Rightarrow>
     (leader_status \<times> decision) list \<Rightarrow> ((leader_status \<times> decision) list \<times> bool) option" where
  "committer_loop R cx ls st last_decided r [] leaders = Some (leaders, False)"
| "committer_loop R cx ls st last_decided r (bc # bcs) leaders = do {
     elected \<leftarrow> bc_elect_leader R cx ls bc r;
     case elected of
       None \<Rightarrow> committer_loop R cx ls st last_decided r bcs leaders
     | Some slot \<Rightarrow>
         if slot = last_decided then Some (leaders, True)
         else do {
           decided \<leftarrow> round_leader cx bc st slot (map fst leaders);
           committer_loop R cx ls st last_decided r bcs (decided # leaders)
         }
   }"

fun round_loop ::
  "rng_ops \<Rightarrow> consensus_context \<Rightarrow> leader_schedule \<Rightarrow> dag_state \<Rightarrow> universal_committer \<Rightarrow> slot \<Rightarrow> round list \<Rightarrow>
     (leader_status \<times> decision) list \<Rightarrow> (leader_status \<times> decision) list option" where
  "round_loop R cx ls st committers last_decided [] leaders = Some leaders"
| "round_loop R cx ls st committers last_decided (r # rs) leaders = do {
     (leaders', stop) \<leftarrow> committer_loop R cx ls st last_decided r (rev committers) leaders;
     if stop then Some leaders' else round_loop R cx ls st committers last_decided rs leaders'
   }"

fun decided_prefix ::
  "committee \<Rightarrow> (leader_status \<times> decision) list \<Rightarrow> decided_leader list option" where
  "decided_prefix c [] = Some []"
| "decided_prefix c ((leader, decision) # leaders) =
     (if ls_round leader = GENESIS_ROUND then decided_prefix c leaders
      else case into_decided_leader leader (decision = Direct) of
          None \<Rightarrow> Some []
        | Some decided \<Rightarrow> do {
            _ \<leftarrow> committee_authority c (slot_authority (dl_slot decided));
            rest \<leftarrow> decided_prefix c leaders;
            Some (decided # rest)
          })"

definition first_round :: "consensus_context \<Rightarrow> slot \<Rightarrow> round" where
  "first_round cx last_decided =
     (case pc_mysticeti_num_leaders_per_round (cx_protocol_config cx) of
        Some n \<Rightarrow> if n = 1 then slot_round last_decided + 1 else slot_round last_decided
      | None \<Rightarrow> slot_round last_decided)"

definition try_decide ::
  "rng_ops \<Rightarrow> consensus_context \<Rightarrow> leader_schedule \<Rightarrow> dag_state \<Rightarrow> universal_committer \<Rightarrow> slot \<Rightarrow> decided_leader list option" where
  "try_decide R cx ls st committers last_decided = do {
     let rounds = rev [first_round cx last_decided ..< highest_accepted_round st - 2 + 1];
     leaders \<leftarrow> round_loop R cx ls st committers last_decided rounds [];
     decided_prefix (cx_committee cx) leaders
   }"

definition get_leaders ::
  "rng_ops \<Rightarrow> consensus_context \<Rightarrow> leader_schedule \<Rightarrow> universal_committer \<Rightarrow> round \<Rightarrow> authority_index list option" where
  "get_leaders R cx ls committers r = do {
     slots \<leftarrow> mapM (\<lambda>bc. bc_elect_leader R cx ls bc r) committers;
     Some (map slot_authority (concat (map (\<lambda>s. case s of None \<Rightarrow> [] | Some x \<Rightarrow> [x]) slots)))
   }"

section \<open>The builder\<close>

record universal_committer_builder =
  ub_wave_length :: round
  ub_number_of_leaders :: nat
  ub_pipeline :: bool

definition builder_new :: universal_committer_builder where
  "builder_new = \<lparr>ub_wave_length = DEFAULT_WAVE_LENGTH, ub_number_of_leaders = 1, ub_pipeline = False\<rparr>"

definition with_number_of_leaders :: "universal_committer_builder \<Rightarrow> nat \<Rightarrow> universal_committer_builder" where
  "with_number_of_leaders ub n = ub\<lparr>ub_number_of_leaders := n\<rparr>"

definition with_pipeline :: "universal_committer_builder \<Rightarrow> bool \<Rightarrow> universal_committer_builder" where
  "with_pipeline ub p = ub\<lparr>ub_pipeline := p\<rparr>"

definition committer_build :: "universal_committer_builder \<Rightarrow> universal_committer" where
  "committer_build ub = (let stages = (if ub_pipeline ub then ub_wave_length ub else 1) in
     concat (map (\<lambda>round_offset. map (\<lambda>leader_offset.
         \<lparr>bo_wave_length = ub_wave_length ub, bo_leader_offset = leader_offset, bo_round_offset = round_offset\<rparr>)
       [0..<ub_number_of_leaders ub]) [0..<stages]))"

text \<open>The committer \<open>Core::new\<close> builds: pipelined, with the configured number of leaders.\<close>

definition core_committer :: "consensus_context \<Rightarrow> universal_committer" where
  "core_committer cx = committer_build (with_pipeline (with_number_of_leaders builder_new
     (case pc_mysticeti_num_leaders_per_round (cx_protocol_config cx) of Some n \<Rightarrow> n | None \<Rightarrow> 1)) True)"

end
