(* ===== verification/Committer_View.thy ===== *)
theory Committer_View
  imports Universal_Committer Dag_Agreement
begin

text \<open>
  The committers of the code against the argument on DAGs: on the view of a validator every check of
  \<open>BaseCommitter\<close> returns, without a panic, the answer \<open>Dag_Agreement\<close> speaks about, the vote cache
  and the quick rejection by stake do not change it, and the statuses \<open>try_decide\<close> collects are
  justified. Two validators therefore never decide differently.
\<close>

section \<open>The view of a validator\<close>

text \<open>
  The bound on the cached blocks keeps the 64-bit sum of stakes in \<open>enough_leader_support\<close>, which
  counts equivocating blocks once each, from wrapping around.
\<close>

definition committer_view :: "consensus_context \<Rightarrow> (block_ref \<rightharpoonup> verified_block) \<Rightarrow> dag_state \<Rightarrow> bool" where
  "committer_view cx D st \<longleftrightarrow> ds_inv cx st \<and> view_of D (gc_round cx st) (ds_lookup st) \<and>
     fcard (fmdom (ds_recent_blocks st)) * cm_total_stake (cx_committee cx) < 2 ^ 64"

lemma gc_round_le: "gc_round cx st \<le> last_commit_round st"
  by (simp add: gc_round_def calculate_gc_round_def)

lemma view_known:
  "committer_view cx D st \<Longrightarrow> ds_lookup st r = Some b \<Longrightarrow> D r = Some b"
  by (simp add: committer_view_def view_of_def)

lemma view_complete:
  "committer_view cx D st \<Longrightarrow> ds_lookup st r = Some b \<Longrightarrow> y \<in> set (vb_ancestors b) \<Longrightarrow> gc_round cx st < br_round y \<Longrightarrow>
     \<exists>v. ds_lookup st y = Some v"
  by (auto simp: committer_view_def view_of_def complete_above_def)

lemma map_sorted_fmap_filter:
  "set (map (\<lambda>(_, bi). bi_block bi) (filter (\<lambda>(r, _). P r) (sorted_list_of_fmap m))) =
     {b. \<exists>r bi. P r \<and> fmlookup m r = Some bi \<and> b = bi_block bi}"
  by force

lemma blocks_at_round:
  assumes "ds_inv cx st" and "last_commit_round st < d"
  obtains bs where "get_uncommitted_blocks_at_round st d = Some bs"
    "set bs = {b. ds_lookup st (vb_reference b) = Some b \<and> vb_round b = d}"
    "length bs \<le> fcard (fmdom (ds_recent_blocks st))"
proof -
  let ?bs = "map (\<lambda>(_, bi). bi_block bi)
     (filter (\<lambda>(r, _). BlockRef d 0 DIGEST_MIN \<le> r \<and> r < BlockRef (d + 1) 0 DIGEST_MIN) (sorted_list_of_fmap (ds_recent_blocks st)))"
  have gc: "gc_round cx st < d" using assms(2) gc_round_le [of cx st] by simp
  have look: "ds_lookup st r = map_option bi_block (fmlookup (ds_recent_blocks st) r)" if "br_round r = d" for r
    using lookup_above_gc [OF assms(1), of r] gc that by (simp add: ds_cached_lookup)
  have ref: "vb_reference (bi_block bi) = r" if "fmlookup (ds_recent_blocks st) r = Some bi" for r bi
    using cached_reference [OF ds_invD(4) [OF assms(1)], of r "bi_block bi"] that by (simp add: ds_cached_lookup)
  have "set ?bs = {b. \<exists>r bi. br_round r = d \<and> fmlookup (ds_recent_blocks st) r = Some bi \<and> b = bi_block bi}"
    unfolding map_sorted_fmap_filter round_range_iff ..
  also have "\<dots> = {b. ds_lookup st (vb_reference b) = Some b \<and> vb_round b = d}"
  proof (intro Collect_cong iffI; elim exE conjE)
    fix b r bi assume "br_round r = d" "fmlookup (ds_recent_blocks st) r = Some bi" "b = bi_block bi"
    then show "ds_lookup st (vb_reference b) = Some b \<and> vb_round b = d"
      using look [of r] ref [of r bi] br_round_reference [of b] by simp
  next
    fix b assume b: "ds_lookup st (vb_reference b) = Some b" "vb_round b = d"
    then have "map_option bi_block (fmlookup (ds_recent_blocks st) (vb_reference b)) = Some b"
      using look [of "vb_reference b"] by simp
    then show "\<exists>r bi. br_round r = d \<and> fmlookup (ds_recent_blocks st) r = Some bi \<and> b = bi_block bi"
      using b(2) by (intro exI [of _ "vb_reference b"]) auto
  qed
  finally have "set ?bs = {b. ds_lookup st (vb_reference b) = Some b \<and> vb_round b = d}" .
  moreover have "get_uncommitted_blocks_at_round st d = Some ?bs"
    using assms(2) by (simp add: get_uncommitted_blocks_at_round_def)
  moreover have "length ?bs \<le> fcard (fmdom (ds_recent_blocks st))"
    by (simp add: sorted_list_of_fmap_def fcard.rep_eq sorted_list_of_fset_def le_trans [OF length_filter_le])
  ultimately show ?thesis using that by blast
qed

lemma blocks_at_slot:
  assumes "ds_inv cx st" and "gc_round cx st < slot_round s"
  shows "set (get_uncommitted_blocks_at_slot st s) =
      {b. ds_lookup st (vb_reference b) = Some b \<and> slot_of_ref (vb_reference b) = s}"
    and "distinct (map vb_reference (get_uncommitted_blocks_at_slot st s))"
proof -
  have look: "ds_lookup st r = map_option bi_block (fmlookup (ds_recent_blocks st) r)" if "slot_of_ref r = s" for r
    using lookup_above_gc [OF assms(1), of r] assms(2) that by (auto simp: ds_cached_lookup slot_of_ref_def)
  have ref: "vb_reference (bi_block bi) = r" if "fmlookup (ds_recent_blocks st) r = Some bi" for r bi
    using cached_reference [OF ds_invD(4) [OF assms(1)], of r "bi_block bi"] that by (simp add: ds_cached_lookup)
  have iff: "br_round r = slot_round s \<and> br_author r = slot_authority s \<longleftrightarrow> slot_of_ref r = s" for r
    by (cases s) (auto simp: slot_of_ref_def)
  have "set (get_uncommitted_blocks_at_slot st s) =
      {b. \<exists>r bi. slot_of_ref r = s \<and> fmlookup (ds_recent_blocks st) r = Some bi \<and> b = bi_block bi}"
    unfolding get_uncommitted_blocks_at_slot_def map_sorted_fmap_filter slot_range_iff iff ..
  also have "\<dots> = {b. ds_lookup st (vb_reference b) = Some b \<and> slot_of_ref (vb_reference b) = s}"
  proof (intro Collect_cong iffI; elim exE conjE)
    fix b r bi assume "slot_of_ref r = s" "fmlookup (ds_recent_blocks st) r = Some bi" "b = bi_block bi"
    then show "ds_lookup st (vb_reference b) = Some b \<and> slot_of_ref (vb_reference b) = s"
      using look [of r] ref [of r bi] by (simp del: slot_of_reference)
  next
    fix b assume b: "ds_lookup st (vb_reference b) = Some b" "slot_of_ref (vb_reference b) = s"
    then have "map_option bi_block (fmlookup (ds_recent_blocks st) (vb_reference b)) = Some b"
      using look [of "vb_reference b"] by (simp del: slot_of_reference)
    then show "\<exists>r bi. slot_of_ref r = s \<and> fmlookup (ds_recent_blocks st) r = Some bi \<and> b = bi_block bi"
      using b(2) by (intro exI [of _ "vb_reference b"]) (auto simp del: slot_of_reference)
  qed
  finally show "set (get_uncommitted_blocks_at_slot st s) = \<dots>" .
  let ?xs = "filter (\<lambda>(r, _). BlockRef (slot_round s) (slot_authority s) DIGEST_MIN \<le> r \<and>
     r \<le> BlockRef (slot_round s) (slot_authority s) DIGEST_MAX) (sorted_list_of_fmap (ds_recent_blocks st))"
  have "map vb_reference (get_uncommitted_blocks_at_slot st s) = map fst ?xs"
    unfolding get_uncommitted_blocks_at_slot_def map_map comp_def by (rule map_cong) (auto dest: ref)
  moreover have "distinct (map fst ?xs)" by (simp add: distinct_map_filter)
  ultimately show "distinct (map vb_reference (get_uncommitted_blocks_at_slot st s))" by simp
qed

section \<open>Votes and certificates\<close>

lemma find_in_ancestors_low:
  "\<forall>a \<in> set as. br_round a \<le> slot_round s \<Longrightarrow> find_in_ancestors get s as = Some (find (\<lambda>a. slot_of_ref a = s) as)"
  by (induction as) (subst find_in_ancestors.simps; simp)+

lemma is_vote_iff:
  assumes valid: "valid_dag c D" and v: "D r = Some v" and low: "br_round r \<le> br_round (vb_reference lb) + 1"
  shows "is_vote st v lb = Some (vb_reference lb \<in> set (vb_ancestors v))"
proof -
  let ?l = "vb_reference lb" and ?s = "slot_of_ref (vb_reference lb)"
  note a = valid_dagD(2,5) [OF valid v]
  have low': "\<forall>a \<in> set (vb_ancestors v). br_round a \<le> slot_round ?s"
    using a(2) low by (fastforce simp del: slot_of_reference)
  show ?thesis
  proof (cases "vb_round v < br_round ?l")
    case True
    then have "?l \<notin> set (vb_ancestors v)" using a by fastforce
    with True show ?thesis by (simp add: is_vote_def find_supported_block_def del: slot_of_reference)
  next
    case False
    have "find (\<lambda>a. slot_of_ref a = ?s) (vb_ancestors v) = Some ?l \<longleftrightarrow> ?l \<in> set (vb_ancestors v)"
    proof
      assume in_anc: "?l \<in> set (vb_ancestors v)"
      then obtain x where x: "find (\<lambda>a. slot_of_ref a = ?s) (vb_ancestors v) = Some x"
        by (cases "find (\<lambda>a. slot_of_ref a = ?s) (vb_ancestors v)") (auto simp: find_None_iff simp del: slot_of_reference)
      then have "x \<in> set (vb_ancestors v)" "slot_of_ref x = ?s" using find_SomeD [OF x] by auto
      then have "x = ?l" using one_ancestor [OF valid v _ in_anc] by (simp add: slot_of_ref_def)
      with x show "find (\<lambda>a. slot_of_ref a = ?s) (vb_ancestors v) = Some ?l" by simp
    qed (auto dest: find_SomeD)
    then show ?thesis
      using False find_in_ancestors_low [OF low', of "get_block st"]
      by (simp add: is_vote_def find_supported_block_def del: slot_of_reference)
  qed
qed

text \<open>What the cache \<open>all_votes\<close> of a leader may hold.\<close>

definition votes_leader :: "dag_state \<Rightarrow> block_ref \<Rightarrow> block_ref \<Rightarrow> bool" where
  "votes_leader st l r = (case ds_lookup st r of Some v \<Rightarrow> l \<in> set (vb_ancestors v) | None \<Rightarrow> False)"

definition cache_sound :: "dag_state \<Rightarrow> block_ref \<Rightarrow> vote_cache \<Rightarrow> bool" where
  "cache_sound st l all_votes \<longleftrightarrow> (\<forall>r v. fmlookup all_votes r = Some v \<longrightarrow> v = votes_leader st l r)"

lemma cache_sound_empty [simp]: "cache_sound st l fmempty"
  by (simp add: cache_sound_def)

lemma check_vote_spec:
  assumes view: "committer_view cx D st" and valid: "valid_dag c D" and "cache_sound st (vb_reference lb) av"
    and "br_round r \<le> br_round (vb_reference lb) + 1" and "ds_lookup st r = None \<Longrightarrow> br_round r \<le> gc_round cx st"
  shows "\<exists>av'. check_vote cx st lb av r = Some (votes_leader st (vb_reference lb) r, av') \<and>
     cache_sound st (vb_reference lb) av'"
proof (cases "fmlookup av r")
  case (Some v)
  then show ?thesis using assms(3) by (auto simp: check_vote_def cache_sound_def)
next
  case None
  have "(case get_block st r of Some v \<Rightarrow> is_vote st v lb
      | None \<Rightarrow> Option.bind (assert_that (br_round r \<le> gc_round cx st)) (\<lambda>_. Some False)) =
     Some (votes_leader st (vb_reference lb) r)"
    using is_vote_iff [OF valid view_known [OF view] assms(4)] assms(5)
    by (cases "ds_lookup st r") (auto simp: get_block_lookup votes_leader_def)
  then show ?thesis using None assms(3)
    by (intro exI [of _ "fmupd r (votes_leader st (vb_reference lb) r) av"])
      (simp add: check_vote_def cache_sound_def)
qed

lemma certificate_loop_spec:
  assumes "committer_view cx D st" and "valid_dag c D" and "cache_sound st (vb_reference lb) av"
    and "\<forall>r \<in> set refs. br_round r \<le> br_round (vb_reference lb) + 1 \<and>
       (ds_lookup st r = None \<longrightarrow> br_round r \<le> gc_round cx st)"
    and "vote_loop QuorumThreshold (cx_committee cx) agg
       (map br_author (filter (votes_leader st (vb_reference lb)) refs)) = Some res"
  shows "\<exists>av'. certificate_loop cx st lb agg av refs = Some (res, av') \<and> cache_sound st (vb_reference lb) av'"
  using assms(3-5)
proof (induction refs arbitrary: agg av)
  case (Cons r refs)
  obtain av1 where check: "check_vote cx st lb av r = Some (votes_leader st (vb_reference lb) r, av1)"
    and sound: "cache_sound st (vb_reference lb) av1"
    using check_vote_spec [OF assms(1,2) Cons.prems(1), of r] Cons.prems(2) by auto
  show ?case
  proof (cases "votes_leader st (vb_reference lb) r")
    case True
    then obtain agg' reached where add: "sa_add QuorumThreshold (cx_committee cx) agg (br_author r) = Some (agg', reached)"
      using Cons.prems(3) by (auto elim: bind_SomeE)
    show ?thesis using True check add sound Cons.prems(2,3) Cons.IH [OF sound, of agg']
      by (cases reached) auto
  next
    case False
    then show ?thesis using check sound Cons.prems(2,3) Cons.IH [OF sound, of agg] by simp
  qed
qed simp

lemma is_certificate_spec:
  assumes view: "committer_view cx D st" and valid: "valid_dag (cx_committee cx) D"
    and b: "ds_lookup st (vb_reference b) = Some b" "vb_round b = br_round (vb_reference lb) + 2"
    and gc: "gc_round cx st \<le> br_round (vb_reference lb)" and sound: "cache_sound st (vb_reference lb) av"
  shows "\<exists>av'. is_certificate cx st b lb av = Some (certifies (cx_committee cx) D b (vb_reference lb), av') \<and>
     cache_sound st (vb_reference lb) av'"
proof -
  let ?l = "vb_reference lb" and ?c = "cx_committee cx"
  note D = view_known [OF view b(1)]
  have ok: "committee_ok ?c" using view by (auto simp: committer_view_def dest: ds_invD)
  have known: "ds_lookup st y \<noteq> None" if "y \<in> set (vb_ancestors b)" "gc_round cx st < br_round y" for y
    using view_complete [OF view b(1) that] by auto
  have refs: "\<forall>r \<in> set (vb_ancestors b). br_round r \<le> br_round ?l + 1 \<and> (ds_lookup st r = None \<longrightarrow> br_round r \<le> gc_round cx st)"
    using valid_dagD(5) [OF valid D] b(2) known by (fastforce simp: not_less)
  have "votes_leader st ?l y \<longleftrightarrow> (\<exists>v. D y = Some v \<and> ?l \<in> set (vb_ancestors v))" if "y \<in> set (vb_ancestors b)" for y
  proof
    assume "\<exists>v. D y = Some v \<and> ?l \<in> set (vb_ancestors v)"
    then obtain v where v: "D y = Some v" "?l \<in> set (vb_ancestors v)" by blast
    then have "gc_round cx st < br_round y" using valid_dagD(5) [OF valid v(1)] gc by fastforce
    then show "votes_leader st ?l y" using known [OF that] v view_known [OF view] by (fastforce simp: votes_leader_def)
  qed (auto simp: votes_leader_def dest: view_known [OF view] split: option.splits)
  then have "set (map br_author (filter (votes_leader st ?l) (vb_ancestors b))) = voters D ?l b"
    by (auto simp: voters_def)
  moreover have "\<forall>v \<in> set (map br_author (filter (votes_leader st ?l) (vb_ancestors b))). v < committee_size ?c"
    using valid_dagD(5) [OF valid D] by auto
  ultimately have "vote_loop QuorumThreshold ?c sa_new (map br_author (filter (votes_leader st ?l) (vb_ancestors b))) =
      Some (certifies ?c D b ?l)"
    using vote_loop_new [OF ok] b(2) by (simp add: certifies_def)
  then show ?thesis unfolding is_certificate_def by (rule certificate_loop_spec [OF view valid sound refs])
qed

section \<open>The direct rule\<close>

lemma authors_of_blocks:
  assumes "\<And>r b. m r = Some b \<Longrightarrow> vb_reference b = r"
  shows "vb_author ` {b. m (vb_reference b) = Some b \<and> P b} = {br_author r |r. \<exists>b. m r = Some b \<and> P b}"
proof (intro set_eqI iffI)
  fix i assume "i \<in> {br_author r |r. \<exists>b. m r = Some b \<and> P b}"
  then obtain r b where "i = br_author r" "m r = Some b" "P b" by blast
  with assms [of r b] show "i \<in> vb_author ` {b. m (vb_reference b) = Some b \<and> P b}"
    by (intro image_eqI [of _ _ b]) auto
next
  fix i assume "i \<in> vb_author ` {b. m (vb_reference b) = Some b \<and> P b}"
  then obtain b where "i = br_author (vb_reference b)" "m (vb_reference b) = Some b" "P b" by auto
  then show "i \<in> {br_author r |r. \<exists>b. m r = Some b \<and> P b}" by blast
qed

lemma blame_loop_eq:
  "blame_loop cx leader agg bs = vote_loop QuorumThreshold (cx_committee cx) agg
     (map vb_author (filter (\<lambda>b. \<forall>a \<in> set (vb_ancestors b). br_author a \<noteq> leader) bs))"
  by (induction bs arbitrary: agg) (auto simp: list_all_iff intro!: Option.bind_cong)

lemma view_author:
  assumes "committer_view cx D st" and "valid_dag (cx_committee cx) D" and "ds_lookup st (vb_reference b) = Some b"
  shows "vb_author b < committee_size (cx_committee cx)"
  using valid_dagD(4) [OF assms(2) view_known [OF assms(1,3)]] by simp

lemma enough_leader_blame_spec:
  assumes view: "committer_view cx D st" and valid: "valid_dag (cx_committee cx) D"
    and "last_commit_round st < slot_round s + 1"
  shows "enough_leader_blame cx st (slot_round s + 1) (slot_authority s) =
     Some (blamed (cx_committee cx) (ds_lookup st) s)"
proof -
  let ?c = "cx_committee cx" and ?p = "\<lambda>b. \<forall>a \<in> set (vb_ancestors b). br_author a \<noteq> slot_authority s"
  have inv: "ds_inv cx st" using view by (simp add: committer_view_def)
  obtain bs where bs: "get_uncommitted_blocks_at_round st (slot_round s + 1) = Some bs"
    "set bs = {b. ds_lookup st (vb_reference b) = Some b \<and> vb_round b = slot_round s + 1}"
    by (rule blocks_at_round [OF inv assms(3)])
  have ref: "vb_reference b = r" if "ds_lookup st r = Some b" for r b
    using valid_dagD(1) [OF valid view_known [OF view that]] .
  have "set (map vb_author (filter ?p bs)) =
      {br_author r |r. br_round r = slot_round s + 1 \<and> (\<exists>b. ds_lookup st r = Some b \<and> ?p b)}"
  proof -
    have "set (map vb_author (filter ?p bs)) =
        vb_author ` {b. ds_lookup st (vb_reference b) = Some b \<and> vb_round b = slot_round s + 1 \<and> ?p b}"
      unfolding set_map set_filter bs(2) by (rule arg_cong [of _ _ "image vb_author"]) auto
    also have "\<dots> = {br_author r |r. \<exists>b. ds_lookup st r = Some b \<and> vb_round b = slot_round s + 1 \<and> ?p b}"
      by (rule authors_of_blocks [OF ref])
    finally have *: "set (map vb_author (filter ?p bs)) =
        {br_author r |r. \<exists>b. ds_lookup st r = Some b \<and> vb_round b = slot_round s + 1 \<and> ?p b}" .
    have "(\<exists>b. ds_lookup st r = Some b \<and> vb_round b = slot_round s + 1 \<and> ?p b) \<longleftrightarrow>
        br_round r = slot_round s + 1 \<and> (\<exists>b. ds_lookup st r = Some b \<and> ?p b)" for r
      using valid_dagD(2) [OF valid view_known [OF view]] by (cases "ds_lookup st r") auto
    then show ?thesis unfolding * by (simp only:)
  qed
  moreover have "\<forall>v \<in> set (map vb_author (filter ?p bs)). v < committee_size ?c"
    using view_author [OF view valid] bs(2) by auto
  ultimately show ?thesis
    unfolding enough_leader_blame_def bs(1) blame_loop_eq blamed_def
    using vote_loop_new [OF ds_invD(1) [OF inv], of _ QuorumThreshold] by simp
qed

lemma support_loop_spec:
  assumes "committer_view cx D st" and "valid_dag (cx_committee cx) D"
    and "gc_round cx st \<le> br_round (vb_reference lb)" and "cache_sound st (vb_reference lb) av"
    and "\<forall>b \<in> set bs. ds_lookup st (vb_reference b) = Some b \<and> vb_round b = br_round (vb_reference lb) + 2"
    and "vote_loop QuorumThreshold (cx_committee cx) agg
       (map vb_author (filter (\<lambda>b. certifies (cx_committee cx) D b (vb_reference lb)) bs)) = Some res"
  shows "support_loop cx st lb agg av bs = Some res"
  using assms(4-6)
proof (induction bs arbitrary: agg av)
  case (Cons b bs)
  obtain av1 where cert: "is_certificate cx st b lb av = Some (certifies (cx_committee cx) D b (vb_reference lb), av1)"
    and sound: "cache_sound st (vb_reference lb) av1"
    using is_certificate_spec [OF assms(1,2) _ _ assms(3) Cons.prems(1), of b] Cons.prems(2) by auto
  show ?case
  proof (cases "certifies (cx_committee cx) D b (vb_reference lb)")
    case True
    then obtain agg' reached where add: "sa_add QuorumThreshold (cx_committee cx) agg (vb_author b) = Some (agg', reached)"
      using Cons.prems(3) by (auto elim: bind_SomeE)
    show ?thesis using True cert add Cons.prems(2,3) Cons.IH [OF sound, of agg'] by (cases reached) auto
  next
    case False
    then show ?thesis using cert Cons.prems(2,3) Cons.IH [OF sound, of agg] by simp
  qed
qed simp

lemma weight_le_sum_list:
  "\<forall>i \<in> set as. i < committee_size c \<Longrightarrow> weight c (set as) \<le> sum_list (map (authority_weight c) as)"
proof (induction as)
  case (Cons a as)
  then show ?case using weight_insert [of a "set as" c] by (cases "a \<in> set as") (auto simp: insert_absorb)
qed simp

lemma authority_weight_le: "committee_ok c \<Longrightarrow> i < committee_size c \<Longrightarrow> authority_weight c i \<le> cm_total_stake c"
  using weight_le_total [of c "{i}"] by (simp add: weight_def)

text \<open>The wrapping sum over at most as many blocks as the bound allows is the sum.\<close>

lemma stake_sum_no_wrap:
  assumes "committee_ok c" and "\<forall>b \<in> set bs. vb_author b < committee_size c" and "length bs * cm_total_stake c < 2 ^ 64"
  obtains ss where "mapM (\<lambda>b. committee_stake c (vb_author b)) bs = Some ss"
    "foldl (\<lambda>s x. wrap64 (s + x)) 0 ss = sum_list (map (authority_weight c) (map vb_author bs))"
proof -
  let ?ss = "map (\<lambda>b. authority_weight c (vb_author b)) bs"
  have "sum_list ?ss \<le> length bs * cm_total_stake c"
    using assms(2) authority_weight_le [OF assms(1)] by (induction bs) (auto intro: add_mono)
  then have "foldl (\<lambda>s x. wrap64 (s + x)) 0 ?ss = sum_list ?ss"
  proof -
    have "foldl (\<lambda>s x. wrap64 (s + x)) a xs = a + sum_list xs" if "a + sum_list xs < 2 ^ 64" for a xs
      using that by (induction xs arbitrary: a) (auto simp: add.assoc)
    then show ?thesis using \<open>sum_list ?ss \<le> _\<close> assms(3) by simp
  qed
  then show ?thesis using that [of ?ss] mapM_Some [of bs "\<lambda>b. committee_stake c (vb_author b)" "\<lambda>b. authority_weight c (vb_author b)"] assms(2)
    by (simp add: committee_stake_eq comp_def)
qed

lemma enough_leader_support_spec:
  assumes view: "committer_view cx D st" and valid: "valid_dag (cx_committee cx) D"
    and low: "last_commit_round st < br_round (vb_reference lb) + 2" "gc_round cx st \<le> br_round (vb_reference lb)"
  shows "enough_leader_support cx st (br_round (vb_reference lb) + 2) lb =
     Some (supported (cx_committee cx) D (ds_lookup st) (vb_reference lb))"
proof -
  let ?c = "cx_committee cx" and ?l = "vb_reference lb"
  let ?p = "\<lambda>b. certifies ?c D b ?l" and ?d = "br_round ?l + 2"
  have inv: "ds_inv cx st" and bound: "fcard (fmdom (ds_recent_blocks st)) * cm_total_stake ?c < 2 ^ 64"
    using view by (simp_all add: committer_view_def)
  note ok = ds_invD(1) [OF inv]
  obtain bs where bs: "get_uncommitted_blocks_at_round st ?d = Some bs"
    "set bs = {b. ds_lookup st (vb_reference b) = Some b \<and> vb_round b = ?d}"
    "length bs \<le> fcard (fmdom (ds_recent_blocks st))"
    by (rule blocks_at_round [OF inv low(1)])
  have authors: "\<forall>b \<in> set bs. vb_author b < committee_size ?c" using view_author [OF view valid] bs(2) by auto
  have "set (map vb_author (filter ?p bs)) = vb_author ` {b. ds_lookup st (vb_reference b) = Some b \<and> ?p b}"
    unfolding set_map set_filter bs(2) by (rule arg_cong [of _ _ "image vb_author"]) (auto simp: certifies_def)
  also have "\<dots> = {br_author r |r. \<exists>b. ds_lookup st r = Some b \<and> ?p b}"
    by (rule authors_of_blocks) (rule valid_dagD(1) [OF valid view_known [OF view]])
  finally have certs: "set (map vb_author (filter ?p bs)) = {br_author r |r. \<exists>b. ds_lookup st r = Some b \<and> ?p b}" .
  obtain ss where ss: "mapM (\<lambda>b. committee_stake ?c (vb_author b)) bs = Some ss"
    "foldl (\<lambda>s x. wrap64 (s + x)) 0 ss = sum_list (map (authority_weight ?c) (map vb_author bs))"
    using stake_sum_no_wrap [OF ok authors] mult_le_mono1 [OF bs(3), of "cm_total_stake ?c"] bound by (metis le_less_trans)
  have "weight ?c (set (map vb_author (filter ?p bs))) \<le> weight ?c (set (map vb_author bs))" by (rule weight_mono) auto
  also have "\<dots> \<le> sum_list (map (authority_weight ?c) (map vb_author bs))"
    by (rule weight_le_sum_list) (use authors in auto)
  finally have quick: "supported ?c D (ds_lookup st) ?l \<Longrightarrow> reached_quorum ?c (foldl (\<lambda>s x. wrap64 (s + x)) 0 ss)"
    unfolding supported_def certs [symmetric] ss(2) by (rule reached_quorum_mono [rotated])
  have "vote_loop QuorumThreshold ?c sa_new (map vb_author (filter ?p bs)) = Some (supported ?c D (ds_lookup st) ?l)"
    unfolding supported_def certs [symmetric] using vote_loop_new [OF ok, of _ QuorumThreshold] authors by simp
  then have "support_loop cx st lb sa_new fmempty bs = Some (supported ?c D (ds_lookup st) ?l)"
    by (rule support_loop_spec [OF view valid low(2) cache_sound_empty, rotated]) (simp add: bs(2))
  then show ?thesis using bs(1) ss(1) quick by (auto simp: enough_leader_support_def)
qed

lemma filterM_Some: "(\<And>x. x \<in> set xs \<Longrightarrow> p x = Some (q x)) \<Longrightarrow> filterM p xs = Some (filter q xs)"
  by (induction xs) auto

text \<open>Among blocks with distinct references at most one is picked by a test that only one can pass.\<close>

lemma filter_at_most_one:
  assumes "distinct (map vb_reference xs)" and "\<And>x y. x \<in> set xs \<Longrightarrow> y \<in> set xs \<Longrightarrow> q x \<Longrightarrow> q y \<Longrightarrow> vb_reference x = vb_reference y"
  obtains "filter q xs = []" "\<forall>x \<in> set xs. \<not> q x" | x where "filter q xs = [x]" "x \<in> set xs" "q x"
proof -
  have d: "distinct (map vb_reference (filter q xs))" using assms(1) by (rule distinct_map_filter)
  consider "filter q xs = []" | x where "filter q xs = [x]" | x y zs where "filter q xs = x # y # zs"
    by (metis neq_Nil_conv)
  then show ?thesis
  proof cases
    case (3 x y zs)
    then have "x \<in> set (filter q xs)" "y \<in> set (filter q xs)" by simp_all
    then have "vb_reference x = vb_reference y" using assms(2) by auto
    then show ?thesis using d 3 by simp
  next
    case (2 x)
    then have "x \<in> set (filter q xs)" by simp
    then have "x \<in> set xs" "q x" by simp_all
    then show ?thesis by (rule that(2) [OF 2])
  next
    case 1
    then show ?thesis using that(1) by (simp add: filter_empty_conv)
  qed
qed

text \<open>The direct rule: skipped if blamed, committed if supported, undecided otherwise.\<close>

lemma try_direct_decide_spec:
  assumes ok: "dag_ok (cx_committee cx) Byz D" and view: "committer_view cx D st"
    and low: "last_commit_round st < slot_round s" and d: "decision_round bc (wave_number bc (slot_round s)) = slot_round s + 2"
  obtains "try_direct_decide cx bc st s = Some (LSkip s)" "blamed (cx_committee cx) (ds_lookup st) s"
  | b where "try_direct_decide cx bc st s = Some (LCommit b)" "ds_lookup st (vb_reference b) = Some b"
      "slot_of_ref (vb_reference b) = s" "supported (cx_committee cx) D (ds_lookup st) (vb_reference b)"
      "\<not> blamed (cx_committee cx) (ds_lookup st) s"
  | "try_direct_decide cx bc st s = Some (LUndecided s)" "\<not> blamed (cx_committee cx) (ds_lookup st) s"
      "\<And>b. ds_lookup st (vb_reference b) = Some b \<Longrightarrow> slot_of_ref (vb_reference b) = s \<Longrightarrow>
        \<not> supported (cx_committee cx) D (ds_lookup st) (vb_reference b)"
proof -
  let ?c = "cx_committee cx" and ?m = "ds_lookup st"
  have inv: "ds_inv cx st" and valid: "valid_dag ?c D" and c: "committee_ok ?c"
    using view ok by (simp_all add: committer_view_def dag_ok_def)
  have gc: "gc_round cx st < slot_round s" using low gc_round_le [of cx st] by simp
  have blame: "enough_leader_blame cx st (slot_round s + 1) (slot_authority s) = Some (blamed ?c ?m s)"
    by (rule enough_leader_blame_spec [OF view valid]) (use low in simp)
  let ?ls = "get_uncommitted_blocks_at_slot st s" and ?q = "\<lambda>b. supported ?c D ?m (vb_reference b)"
  note ls = blocks_at_slot [OF inv gc]
  have sup: "enough_leader_support cx st (slot_round s + 2) b = Some (?q b)" if "b \<in> set ?ls" for b
  proof -
    have "br_round (vb_reference b) = slot_round s" using that ls(1) by (metis (mono_tags) mem_Collect_eq slot_of_ref_sel(1))
    then show ?thesis using enough_leader_support_spec [OF view valid, of b] low gc by simp
  qed
  have filter: "filterM (enough_leader_support cx st (slot_round s + 2)) ?ls = Some (filter ?q ?ls)"
    by (rule filterM_Some) (rule sup)
  have unique: "vb_reference x = vb_reference y" if x: "x \<in> set ?ls" "y \<in> set ?ls" and q: "?q x" "?q y" for x y
  proof -
    obtain r u r' u' where "?m r = Some u" "certifies ?c D u (vb_reference x)" "?m r' = Some u'" "certifies ?c D u' (vb_reference y)"
      using supported_certified [OF c q(1)] supported_certified [OF c q(2)] by metis
    moreover have "slot_of_ref (vb_reference x) = slot_of_ref (vb_reference y)" using x ls(1) by (metis (mono_tags) mem_Collect_eq)
    ultimately show ?thesis using certified_unique [OF ok] view_known [OF view] by metis
  qed
  show ?thesis
  proof (cases "blamed ?c ?m s")
    case True
    then show ?thesis using that(1) blame by (simp add: try_direct_decide_def)
  next
    case False
    from ls(2) unique show ?thesis
    proof (rule filter_at_most_one [where q = ?q])
      assume e: "filter ?q ?ls = []" "\<forall>x \<in> set ?ls. \<not> ?q x"
      have "\<not> ?q b" if "?m (vb_reference b) = Some b" "slot_of_ref (vb_reference b) = s" for b
        using e(2) that unfolding ls(1) by blast
      then show ?thesis using that(3) blame filter False e(1) by (simp add: try_direct_decide_def d)
    next
      fix x assume x: "filter ?q ?ls = [x]" "x \<in> set ?ls" "?q x"
      then show ?thesis using that(2) [of x] blame filter False ls(1) by (simp add: try_direct_decide_def d)
    qed
  qed
qed

section \<open>The indirect rule\<close>

lemma any_certificate_spec:
  assumes "committer_view cx D st" and "valid_dag (cx_committee cx) D"
    and "gc_round cx st \<le> br_round (vb_reference lb)" and "cache_sound st (vb_reference lb) av"
    and "\<forall>b \<in> set bs. ds_lookup st (vb_reference b) = Some b \<and> vb_round b = br_round (vb_reference lb) + 2"
  shows "any_certificate cx st lb av bs = Some (\<exists>b \<in> set bs. certifies (cx_committee cx) D b (vb_reference lb))"
  using assms(4,5)
proof (induction bs arbitrary: av)
  case (Cons b bs)
  obtain av1 where "is_certificate cx st b lb av = Some (certifies (cx_committee cx) D b (vb_reference lb), av1)"
    and sound: "cache_sound st (vb_reference lb) av1"
    using is_certificate_spec [OF assms(1,2) _ _ assms(3) Cons.prems(1), of b] Cons.prems(2) by auto
  then show ?case using Cons.IH [OF sound] Cons.prems(2) by simp
qed simp

lemma view_wf_history:
  assumes "committer_view cx D st" and "valid_dag c D"
  shows "wf_history (ds_lookup st)"
  unfolding wf_history_def using valid_dagD(1,5) [OF assms(2) view_known [OF assms(1)]] by blast

text \<open>Above the garbage collection round the history of a known block is known.\<close>

lemma view_linked:
  assumes view: "committer_view cx D st" and A: "ds_lookup st a = Some A" and gc: "gc_round cx st < d"
    and "linked_to D d (set (vb_ancestors A)) x"
  shows "linked_to (ds_lookup st) d (set (vb_ancestors A)) x \<and> (gc_round cx st < br_round x \<longrightarrow> ds_lookup st x \<noteq> None)"
  using assms(4)
proof induction
  case (linked_base r)
  then show ?case using view_complete [OF view A] by (auto intro: linked_to.linked_base)
next
  case (linked_step r b y)
  then obtain b' where b': "ds_lookup st r = Some b'" using gc by auto
  with view_known [OF view b'] linked_step.hyps have "b' = b" by simp
  then show ?case using linked_step b' view_complete [OF view b'] by (auto intro: linked_to.linked_step)
qed

lemma potential_certificates:
  assumes view: "committer_view cx D st" and valid: "valid_dag c D" and A: "ds_lookup st a = Some A" and gc: "gc_round cx st < d"
  obtains bs where "ancestors_at_round st A d = Some bs"
    "set bs = {x. ds_lookup st (vb_reference x) = Some x \<and> br_round (vb_reference x) = d \<and>
       linked_to D d (set (vb_ancestors A)) (vb_reference x)}"
proof -
  have larger: "linked_to (ds_lookup st) d S x \<Longrightarrow> linked_to D d S x" for S x
    using linked_to_larger_dag view_known [OF view] by metis
  have same: "linked_to (ds_lookup st) d (set (vb_ancestors A)) = linked_to D d (set (vb_ancestors A))"
    using larger view_linked [OF view A gc] by blast
  have known: "ds_lookup st x \<noteq> None" if "linked_to (ds_lookup st) d (set (vb_ancestors A)) x" "d \<le> br_round x" for x
    using view_linked [OF view A gc larger [OF that(1)]] that(2) gc by auto
  obtain bs where "ancestors_at_round st A d = Some bs"
    "set bs = {x. ds_lookup st (vb_reference x) = Some x \<and> br_round (vb_reference x) = d \<and>
       linked_to D d (set (vb_ancestors A)) (vb_reference x)}"
    using ancestors_at_round_spec [OF view_wf_history [OF view valid], of d A] known unfolding same by blast
  then show ?thesis by (rule that)
qed

text \<open>A leader certified in the history of a known block is known.\<close>

lemma cert_link_known:
  assumes ok: "committee_ok c" and view: "committer_view cx D st" and valid: "valid_dag c D"
    and A: "ds_lookup st a = Some A" and gc: "gc_round cx st < br_round l" and link: "cert_link c D A l"
  shows "\<exists>b. ds_lookup st l = Some b \<and> vb_reference b = l"
proof -
  obtain x b where x: "linked_to D (br_round l + 2) (set (vb_ancestors A)) x" "D x = Some b" "certifies c D b l"
    using link by (auto simp: cert_link_def)
  have r: "br_round x = br_round l + 2" using valid_dagD(2) [OF valid x(2)] x(3) by (simp add: certifies_def)
  then have "ds_lookup st x \<noteq> None" using view_linked [OF view A _ x(1)] gc by simp
  then have xb: "ds_lookup st x = Some b" using x(2) view_known [OF view] by fastforce
  have "reached_quorum c (weight c (voters D l b))" using x(3) by (simp add: certifies_def)
  then obtain i where "i \<in> voters D l b"
    using cq.honest_in_quorum [OF ok, of _ "{}"] validity_positive [OF ok] by (force simp: reached_validity_def)
  then obtain y v where y: "y \<in> set (vb_ancestors b)" "D y = Some v" "l \<in> set (vb_ancestors v)"
    by (auto simp: voters_def)
  have "gc_round cx st < br_round y" using voter_round [OF valid x(2,3) y] gc by simp
  then have yv: "ds_lookup st y = Some v" using view_complete [OF view xb y(1)] y(2) view_known [OF view] by fastforce
  obtain w where w: "ds_lookup st l = Some w" using view_complete [OF view yv y(3) gc] by auto
  then show ?thesis using valid_dagD(1) [OF valid view_known [OF view w]] by blast
qed

lemma certificates_iff:
  assumes view: "committer_view cx D st" and valid: "valid_dag c D" and A: "ds_lookup st a = Some A"
    and bs: "S = {x. ds_lookup st (vb_reference x) = Some x \<and> br_round (vb_reference x) = d \<and>
       linked_to D d (set (vb_ancestors A)) (vb_reference x)}"
    and l: "d = br_round l + 2" "gc_round cx st < d"
  shows "(\<exists>x \<in> S. certifies c D x l) \<longleftrightarrow> cert_link c D A l"
proof
  assume "cert_link c D A l"
  then obtain x b where x: "linked_to D d (set (vb_ancestors A)) x" "D x = Some b" "certifies c D b l"
    by (auto simp: cert_link_def l)
  have r: "br_round x = d" "vb_reference b = x" using valid_dagD(1,2) [OF valid x(2)] x(3) l by (simp_all add: certifies_def)
  then have "ds_lookup st x \<noteq> None" using view_linked [OF view A l(2) x(1)] l(2) by simp
  then have "ds_lookup st x = Some b" using x(2) view_known [OF view] by fastforce
  then show "\<exists>x \<in> S. certifies c D x l" using x r unfolding bs by blast
next
  assume "\<exists>x \<in> S. certifies c D x l"
  then show "cert_link c D A l" using view_known [OF view] unfolding bs cert_link_def l(1) by blast
qed

lemma decide_leader_from_anchor_spec:
  assumes ok: "dag_ok (cx_committee cx) Byz D" and view: "committer_view cx D st"
    and A: "ds_lookup st a = Some A" and gc: "gc_round cx st < slot_round s"
    and d: "decision_round bc (wave_number bc (slot_round s)) = slot_round s + 2"
  obtains "decide_leader_from_anchor cx bc st A s = Some (LSkip s)"
      "\<forall>l. slot_of_ref l = s \<longrightarrow> \<not> cert_link (cx_committee cx) D A l"
  | b where "decide_leader_from_anchor cx bc st A s = Some (LCommit b)" "ds_lookup st (vb_reference b) = Some b"
      "slot_of_ref (vb_reference b) = s" "cert_link (cx_committee cx) D A (vb_reference b)"
proof -
  let ?c = "cx_committee cx" and ?m = "ds_lookup st"
  let ?ls = "get_uncommitted_blocks_at_slot st s" and ?q = "\<lambda>b. cert_link ?c D A (vb_reference b)"
  have inv: "ds_inv cx st" and valid: "valid_dag ?c D" and c: "committee_ok ?c"
    using view ok by (simp_all add: committer_view_def dag_ok_def)
  note ls = blocks_at_slot [OF inv gc]
  have round: "br_round (vb_reference b) = slot_round s" "slot_of_ref (vb_reference b) = s" if "b \<in> set ?ls" for b
    using that ls(1) by (metis (mono_tags) mem_Collect_eq slot_of_ref_sel(1), metis (mono_tags) mem_Collect_eq)
  obtain bs where bs: "ancestors_at_round st A (slot_round s + 2) = Some bs"
    "set bs = {x. ?m (vb_reference x) = Some x \<and> br_round (vb_reference x) = slot_round s + 2 \<and>
       linked_to D (slot_round s + 2) (set (vb_ancestors A)) (vb_reference x)}"
    by (rule potential_certificates [OF view valid A, of "slot_round s + 2"]) (use gc in simp)
  have any: "any_certificate cx st b fmempty bs = Some (?q b)" if b: "b \<in> set ?ls" for b
  proof -
    have "any_certificate cx st b fmempty bs = Some (\<exists>x \<in> set bs. certifies ?c D x (vb_reference b))"
      by (rule any_certificate_spec [OF view valid _ cache_sound_empty]) (use round [OF b] gc bs(2) in auto)
    also have "(\<exists>x \<in> set bs. certifies ?c D x (vb_reference b)) \<longleftrightarrow> ?q b"
      by (rule certificates_iff [OF view valid A bs(2)]) (use round [OF b] gc in auto)
    finally show ?thesis .
  qed
  have filter: "filterM (\<lambda>l. any_certificate cx st l fmempty bs) ?ls = Some (filter ?q ?ls)"
    by (rule filterM_Some) (rule any)
  have unique: "vb_reference x = vb_reference y" if x: "x \<in> set ?ls" "y \<in> set ?ls" and q: "?q x" "?q y" for x y
    using q round(2) [OF x(1)] round(2) [OF x(2)] certified_unique [OF ok] unfolding cert_link_def by metis
  from ls(2) unique show ?thesis
  proof (rule filter_at_most_one [where q = ?q])
    assume e: "filter ?q ?ls = []" "\<forall>x \<in> set ?ls. \<not> ?q x"
    have "\<not> cert_link ?c D A l" if l: "slot_of_ref l = s" for l
    proof
      assume link: "cert_link ?c D A l"
      then obtain b where "?m l = Some b" "vb_reference b = l" using cert_link_known [OF c view valid A _ link] gc l by auto
      then have "b \<in> set ?ls" using l unfolding ls(1) by (simp del: slot_of_reference)
      then show False using e(2) link \<open>vb_reference b = l\<close> by auto
    qed
    then show ?thesis using that(1) bs(1) filter e(1) by (simp add: decide_leader_from_anchor_def d)
  next
    fix x assume x: "filter ?q ?ls = [x]" "x \<in> set ?ls" "?q x"
    then show ?thesis using that(2) [of x] bs(1) filter ls(1) by (simp add: decide_leader_from_anchor_def d)
  qed
qed

end
