(* ===== verification/Committer_Agreement.thy ===== *)
theory Committer_Agreement
  imports Committer_View
begin

text \<open>
  \<open>UniversalCommitter::try_decide\<close> with the committers \<open>Core\<close> builds for one leader per round: on the
  view of a validator it never panics, it decides consecutive rounds, and two validators, at any time
  and with any part of the DAG, never decide a round differently.
\<close>

section \<open>One committer per round\<close>

definition stage :: "nat \<Rightarrow> base_committer" where
  "stage k = \<lparr>bo_wave_length = 3, bo_leader_offset = 0, bo_round_offset = k\<rparr>"

lemma stage_wave_length [simp]: "bo_wave_length (stage k) = 3"
  by (simp add: stage_def)

definition single_leader :: "consensus_context \<Rightarrow> bool" where
  "single_leader cx \<longleftrightarrow> pc_mysticeti_num_leaders_per_round (cx_protocol_config cx) = Some 1"

lemma core_committer_eq: "single_leader cx \<Longrightarrow> core_committer cx = [stage 0, stage 1, stage 2]"
  by (simp add: core_committer_def committer_build_def with_pipeline_def with_number_of_leaders_def builder_new_def
      single_leader_def stage_def DEFAULT_WAVE_LENGTH_def MINIMUM_WAVE_LENGTH_def upt_rec numeral_eq_Suc)

lemma leader_round_stage: "k < 3 \<Longrightarrow> leader_round (stage k) (wave_number (stage k) r) = r \<longleftrightarrow> r mod 3 = k"
proof -
  assume k: "k < 3"
  show ?thesis
  proof (cases "k \<le> r")
    case True
    then have "(r - k) div 3 * 3 + k = r \<longleftrightarrow> (r - k) mod 3 = 0"
      using div_mult_mod_eq [of "r - k" 3] by linarith
    also have "\<dots> \<longleftrightarrow> r mod 3 = k" using True k by presburger
    finally show ?thesis by (simp add: leader_round_def wave_number_def stage_def)
  next
    case False
    then show ?thesis using k by (auto simp: leader_round_def wave_number_def stage_def)
  qed
qed

lemma decision_round_stage:
  assumes "r mod 3 = k"
  shows "decision_round (stage k) (wave_number (stage k) r) = r + 2"
proof -
  have "k < 3" using assms by auto
  then have "leader_round (stage k) (wave_number (stage k) r) = r" using leader_round_stage assms by simp
  then show ?thesis by (simp add: leader_round_def decision_round_def stage_def)
qed

lemma bc_elect_leader_stage:
  "k < 3 \<Longrightarrow> bc_elect_leader R cx ls (stage k) r =
     (if r mod 3 = k then map_option (\<lambda>l. Some (Slot r l)) (elect_leader R cx ls r 0) else Some None)"
  using leader_round_stage [of k r]
  by (auto simp: bc_elect_leader_def Let_def stage_def map_option_case split: option.splits)

lemma committer_loop_core:
  assumes "single_leader cx" and "elect_leader R cx ls r 0 = Some l" and "Slot r l \<noteq> last_decided"
  shows "committer_loop R cx ls st last_decided r (rev (core_committer cx)) leaders =
     map_option (\<lambda>d. (d # leaders, False)) (round_leader cx (stage (r mod 3)) st (Slot r l) (map fst leaders))"
proof -
  have "r mod 3 < 3" by simp
  then consider "r mod 3 = 0" | "r mod 3 = 1" | "r mod 3 = 2" by linarith
  then show ?thesis
    by cases (use assms in \<open>simp_all add: core_committer_eq bc_elect_leader_stage map_option_case split: option.splits\<close>)
qed

section \<open>The statuses are justified\<close>

lemma decisions_rounds:
  "decisions c D m elect lo xs \<Longrightarrow> map ls_round xs = [lo..<lo + length xs]"
proof (induction xs arbitrary: lo)
  case (Cons x xs)
  then have "ls_round x = lo" by (cases x) (auto simp: slot_of_ref_def vb_accessors)
  moreover have "map ls_round xs = [Suc lo..<Suc lo + length xs]" using Cons.IH [of "lo + 1"] Cons.prems by simp
  ultimately show ?case using upt_conv_Cons [of lo "lo + length (x # xs)"] by simp
qed simp

lemma anchors_drop:
  assumes "decisions c D m elect (r + 1) xs"
  shows "filter (\<lambda>x. r + 3 \<le> ls_round x) xs = drop 2 xs"
proof -
  note rounds = decisions_rounds [OF assms]
  have nth: "ls_round (xs ! i) = r + 1 + i" if "i < length xs" for i
    using arg_cong [OF rounds, of "\<lambda>ys. ys ! i"] that by (simp del: upt_Suc)
  have "filter (\<lambda>x. r + 3 \<le> ls_round x) (take 2 xs) = []"
    using nth by (force simp: filter_empty_conv in_set_conv_nth)
  moreover have "filter (\<lambda>x. r + 3 \<le> ls_round x) (drop 2 xs) = drop 2 xs"
    using nth by (force simp: filter_id_conv in_set_conv_nth)
  ultimately show ?thesis by (metis append_Nil append_take_drop_id filter_append)
qed

lemma anchor_loop_eq:
  "anchor_loop cx bc st s xs =
     (case anchor_of xs of Some A \<Rightarrow> decide_leader_from_anchor cx bc st A s | None \<Rightarrow> Some (LUndecided s))"
  by (induction xs rule: anchor_of.induct) auto

lemma round_leader_spec:
  assumes ok: "dag_ok (cx_committee cx) Byz D" and view: "committer_view cx D st" and low: "last_commit_round st < r"
    and dec: "decisions (cx_committee cx) D (ds_lookup st) elect (r + 1) later"
  obtains d where "round_leader cx (stage (r mod 3)) st (Slot r (elect r)) later = Some d"
    "justified (cx_committee cx) D (ds_lookup st) (Slot r (elect r)) later (fst d)"
proof -
  let ?s = "Slot r (elect r)" and ?bc = "stage (r mod 3)" and ?c = "cx_committee cx" and ?m = "ds_lookup st"
  have d: "decision_round ?bc (wave_number ?bc (slot_round ?s)) = slot_round ?s + 2"
    using decision_round_stage [of r "r mod 3"] by simp
  have low': "last_commit_round st < slot_round ?s" "gc_round cx st < slot_round ?s" using low gc_round_le [of cx st] by simp_all
  show ?thesis
  proof (rule try_direct_decide_spec [OF ok view low'(1) d])
    assume undecided: "try_direct_decide cx ?bc st ?s = Some (LUndecided ?s)"
    have indirect: "try_indirect_decide cx ?bc st ?s later =
        (case anchor_of (drop 2 later) of Some A \<Rightarrow> decide_leader_from_anchor cx ?bc st A ?s | None \<Rightarrow> Some (LUndecided ?s))"
      using anchors_drop [OF dec] by (simp add: try_indirect_decide_def anchor_loop_eq)
    show ?thesis
    proof (cases "anchor_of (drop 2 later)")
      case None
      then show ?thesis using that [of "(LUndecided ?s, Indirect)"] undecided indirect by (simp add: round_leader_def)
    next
      case (Some A)
      have "decisions ?c D ?m elect r (LUndecided ?s # later)" using dec by simp
      from decisions_anchor [OF this, of 0] Some have A: "?m (vb_reference A) = Some A" by (metis drop0 drop_Suc_Cons)
      show ?thesis
        by (rule decide_leader_from_anchor_spec [OF ok view A low'(2) d])
          (use undecided indirect Some that [of "(_, Indirect)"] in \<open>auto simp: round_leader_def\<close>)
    qed
  qed (use that [of "(_, Direct)"] in \<open>auto simp: round_leader_def\<close>)
qed

text \<open>Every round has an elected leader in the committee.\<close>

definition elections_ok :: "rng_ops \<Rightarrow> consensus_context \<Rightarrow> leader_schedule \<Rightarrow> bool" where
  "elections_ok R cx ls \<longleftrightarrow> (\<forall>r. \<exists>l < committee_size (cx_committee cx). elect_leader R cx ls r 0 = Some l)"

definition elected :: "rng_ops \<Rightarrow> consensus_context \<Rightarrow> leader_schedule \<Rightarrow> round \<Rightarrow> authority_index" where
  "elected R cx ls r = the (elect_leader R cx ls r 0)"

lemma elected_Some:
  "elections_ok R cx ls \<Longrightarrow> elect_leader R cx ls r 0 = Some (elected R cx ls r) \<and> elected R cx ls r < committee_size (cx_committee cx)"
  by (metis elected_def elections_ok_def option.sel)

lemma round_loop_spec:
  assumes ok: "dag_ok (cx_committee cx) Byz D" and view: "committer_view cx D st" and single: "single_leader cx"
    and elections: "elections_ok R cx ls" and lo: "last_commit_round st < lo" "slot_round last_decided < lo" "lo \<le> hi"
    and dec: "decisions (cx_committee cx) D (ds_lookup st) (elected R cx ls) hi (map fst leaders)"
  obtains leaders' where "round_loop R cx ls st (core_committer cx) last_decided (rev [lo..<hi]) leaders = Some leaders'"
    "decisions (cx_committee cx) D (ds_lookup st) (elected R cx ls) lo (map fst leaders')"
proof -
  have "\<exists>leaders'. round_loop R cx ls st (core_committer cx) last_decided (rev [lo..<hi]) leaders = Some leaders' \<and>
      decisions (cx_committee cx) D (ds_lookup st) (elected R cx ls) lo (map fst leaders')"
    using lo(3) dec
  proof (induction hi arbitrary: leaders rule: dec_induct)
    case (step r)
    have r: "last_commit_round st < r" "Slot r (elected R cx ls r) \<noteq> last_decided" using lo step.hyps by auto
    obtain d where d: "round_leader cx (stage (r mod 3)) st (Slot r (elected R cx ls r)) (map fst leaders) = Some d"
      "justified (cx_committee cx) D (ds_lookup st) (Slot r (elected R cx ls r)) (map fst leaders) (fst d)"
      by (rule round_leader_spec [OF ok view r(1), of "elected R cx ls" "map fst leaders"]) (use step.prems in simp)
    have "committer_loop R cx ls st last_decided r (rev (core_committer cx)) leaders = Some (d # leaders, False)"
      using committer_loop_core [OF single _ r(2)] elected_Some [OF elections] d(1) by simp
    moreover have "rev [lo..<Suc r] = r # rev [lo..<r]" using step.hyps by simp
    ultimately show ?case using step.IH [of "d # leaders"] d(2) step.prems by simp
  qed auto
  then show ?thesis using that by blast
qed

lemma decided_prefix_spec:
  assumes "decisions c D m elect lo (map fst leaders)" and "0 < lo" and "\<And>r. elect r < committee_size c"
  obtains out where "decided_prefix c leaders = Some out" "length out \<le> length leaders"
    "\<And>i. i < length out \<Longrightarrow> into_decided_leader (fst (leaders ! i)) (snd (leaders ! i) = Direct) = Some (out ! i)"
    "length out < length leaders \<Longrightarrow> \<not> is_decided (fst (leaders ! length out))"
proof -
  have "\<exists>out. decided_prefix c leaders = Some out \<and> length out \<le> length leaders \<and>
      (\<forall>i < length out. into_decided_leader (fst (leaders ! i)) (snd (leaders ! i) = Direct) = Some (out ! i)) \<and>
      (length out < length leaders \<longrightarrow> \<not> is_decided (fst (leaders ! length out)))"
    using assms(1,2)
  proof (induction leaders arbitrary: lo)
    case (Cons x leaders)
    obtain s d where x: "x = (s, d)" by force
    have j: "justified c D m (Slot lo (elect lo)) (map fst leaders) s" and rest: "decisions c D m elect (lo + 1) (map fst leaders)"
      using Cons.prems by (simp_all add: x)
    obtain out where out: "decided_prefix c leaders = Some out" "length out \<le> length leaders"
      "\<forall>i < length out. into_decided_leader (fst (leaders ! i)) (snd (leaders ! i) = Direct) = Some (out ! i)"
      "length out < length leaders \<longrightarrow> \<not> is_decided (fst (leaders ! length out))"
      using Cons.IH [OF rest] by auto
    have round: "ls_round s \<noteq> GENESIS_ROUND"
      using decisions_rounds [of c D m elect lo "map fst (x # leaders)"] Cons.prems
      by (simp add: x GENESIS_ROUND_def upt_conv_Cons del: upt_Suc)
    show ?case
    proof (cases "into_decided_leader s (d = Direct)")
      case None
      then have "\<not> is_decided s" by (cases s) auto
      then show ?thesis using None round by (simp add: x)
    next
      case (Some dl)
      then have "dl_slot dl = Slot lo (elect lo)" using j by (cases s) auto
      then have auth: "committee_authority c (slot_authority (dl_slot dl)) \<noteq> None"
        using assms(3) by (simp add: committee_authority_def vec_get_def committee_size_def)
      have "decided_prefix c (x # leaders) = Some (dl # out)" using auth out(1) round Some by (auto simp: x)
      then show ?thesis using out Some by (auto simp: x nth_Cons split: nat.splits)
    qed
  qed simp
  then show ?thesis using that by blast
qed

text \<open>What a decided leader says about a status.\<close>

lemma into_decided_agree:
  assumes "into_decided_leader x d = Some dl" and "into_decided_leader y d' = Some dl'" and "agree x y"
  shows "dl_slot dl = dl_slot dl' \<and> into_committed_block dl = into_committed_block dl'"
  using assms by (cases x; cases y) auto

lemma into_decided: "into_decided_leader x d = Some dl \<Longrightarrow> is_decided x"
  by (cases x) auto

lemma decided_slot:
  assumes "decisions c D m elect lo (map fst leaders)" and "i < length leaders"
    and "into_decided_leader (fst (leaders ! i)) d = Some dl"
  shows "dl_slot dl = Slot (lo + i) (elect (lo + i))"
  using decisions_nth [OF assms(1), of i] assms(2,3) by (cases "fst (leaders ! i)") auto

lemma elect_leader_cong: "cx_committee cx' = cx_committee cx \<Longrightarrow> elect_leader R cx' ls r k = elect_leader R cx ls r k"
  by (simp add: elect_leader_def elect_leader_stake_based_def)

lemma try_decide_spec:
  assumes ok: "dag_ok (cx_committee cx) Byz D" and view: "committer_view cx D st" and single: "single_leader cx"
    and elections: "elections_ok R cx ls" and low: "last_commit_round st \<le> slot_round last_decided"
  obtains leaders out where "try_decide R cx ls st (core_committer cx) last_decided = Some out"
    "decisions (cx_committee cx) D (ds_lookup st) (elected R cx ls) (slot_round last_decided + 1) (map fst leaders)"
    "length out \<le> length leaders"
    "\<And>i. i < length out \<Longrightarrow> into_decided_leader (fst (leaders ! i)) (snd (leaders ! i) = Direct) = Some (out ! i)"
    "length out < length leaders \<Longrightarrow> \<not> is_decided (fst (leaders ! length out))"
proof -
  let ?lo = "slot_round last_decided + 1" and ?hi = "highest_accepted_round st - 2 + 1"
  have first: "first_round cx last_decided = ?lo" using single by (simp add: first_round_def single_leader_def)
  have "rev [?lo..<?hi] = rev [?lo..<max ?lo ?hi]" by (simp add: max_def)
  then obtain leaders where leaders:
      "round_loop R cx ls st (core_committer cx) last_decided (rev [?lo..<?hi]) [] = Some leaders"
      "decisions (cx_committee cx) D (ds_lookup st) (elected R cx ls) ?lo (map fst leaders)"
    using round_loop_spec [OF ok view single elections, of ?lo last_decided "max ?lo ?hi" "[]"] low by auto
  obtain out where out: "decided_prefix (cx_committee cx) leaders = Some out" "length out \<le> length leaders"
    "\<And>i. i < length out \<Longrightarrow> into_decided_leader (fst (leaders ! i)) (snd (leaders ! i) = Direct) = Some (out ! i)"
    "length out < length leaders \<Longrightarrow> \<not> is_decided (fst (leaders ! length out))"
    using decided_prefix_spec [OF leaders(2)] elected_Some [OF elections] by auto
  have "try_decide R cx ls st (core_committer cx) last_decided = Some out"
    unfolding try_decide_def first using leaders(1) out(1) by simp
  then show ?thesis using that leaders(2) out(2-) by blast
qed

section \<open>Views of running validators\<close>

text \<open>
  A validator at some point of its run: a reachable DAG state whose genesis and accepted blocks are
  blocks of \<open>D\<close> and whose blocks above the garbage collection round have their ancestors.
\<close>

definition validator_view ::
  "crypto \<Rightarrow> consensus_context \<Rightarrow> (block_ref \<rightharpoonup> verified_block) \<Rightarrow> dag_op list \<Rightarrow> dag_state \<Rightarrow> bool" where
  "validator_view C cx D ops st \<longleftrightarrow> dag_reach C cx ops st \<and>
     (\<forall>b \<in> set (accepted_blocks ops). D (vb_reference b) = Some b) \<and>
     (\<forall>gs. genesis_blocks C cx = Some gs \<longrightarrow> (\<forall>b \<in> set gs. D (vb_reference b) = Some b)) \<and>
     complete_above (get_block st) (gc_round cx st) \<and>
     fcard (fmdom (ds_recent_blocks st)) * cm_total_stake (cx_committee cx) < 2 ^ 64"

lemma validator_view_committer:
  assumes "validator_view C cx D ops st"
  shows "committer_view cx D st"
proof -
  have reach: "dag_reach C cx ops st" using assms by (simp add: validator_view_def)
  obtain gs where inv: "machine_inv C cx st" and gs: "genesis_blocks C cx = Some gs"
    and db: "db_of st = foldl spec_step (spec_init gs) ops"
    using reach_machine [OF reach] by blast
  have "D r = Some b" if b: "ds_lookup st r = Some b" for r b
  proof -
    have "db_known (foldl spec_step (spec_init gs) ops) r = Some b" using b by (simp add: db [symmetric] db_of_def)
    then have "b \<in> set gs \<or> b \<in> set (accepted_blocks ops)" using spec_known [of gs ops r b] by (simp add: accepted_blocks_iff)
    moreover have "vb_reference b = r" by (rule reach_known(1) [OF reach b])
    ultimately show ?thesis using assms gs by (auto simp: validator_view_def)
  qed
  moreover have "get_block st = ds_lookup st" by (rule ext) (rule get_block_lookup)
  ultimately show ?thesis using assms inv
    by (simp add: committer_view_def view_of_def validator_view_def machine_inv_def)
qed

lemma decided_known:
  assumes "dag_ok (cx_committee cx) Byz D" and "committer_view cx D st" and "single_leader cx" and "elections_ok R cx ls"
    and "last_commit_round st \<le> slot_round last_decided"
    and "try_decide R cx ls st (core_committer cx) last_decided = Some out" and "i < length out"
  shows "slot_round (dl_slot (out ! i)) = slot_round last_decided + 1 + i"
    and "into_committed_block (out ! i) = Some b \<Longrightarrow>
      ds_lookup st (vb_reference b) = Some b \<and> vb_round b = slot_round last_decided + 1 + i"
proof -
  let ?lo = "slot_round last_decided + 1"
  obtain leaders where dec: "decisions (cx_committee cx) D (ds_lookup st) (elected R cx ls) ?lo (map fst leaders)"
    and len: "length out \<le> length leaders"
    and nth: "\<And>i. i < length out \<Longrightarrow> into_decided_leader (fst (leaders ! i)) (snd (leaders ! i) = Direct) = Some (out ! i)"
    by (rule try_decide_spec [OF assms(1-5)]) (use assms(6) in auto)
  show "slot_round (dl_slot (out ! i)) = ?lo + i"
    using decided_slot [OF dec _ nth [OF assms(7)]] len assms(7) by simp
  show "ds_lookup st (vb_reference b) = Some b \<and> vb_round b = ?lo + i" if "into_committed_block (out ! i) = Some b"
    using decisions_nth [OF dec, of i] nth [OF assms(7)] len assms(7) that
    by (cases "fst (leaders ! i)"; cases "out ! i") (auto simp: slot_of_ref_def)
qed

lemma decided_alike:
  assumes dag: "dag_ok (cx_committee cx) Byz D" and same: "cx_committee cx' = cx_committee cx"
    and views: "committer_view cx D st" "committer_view cx' D st'"
    and single: "single_leader cx" "single_leader cx'" and elections: "elections_ok R cx ls"
    and low: "last_commit_round st \<le> slot_round last_decided" "last_commit_round st' \<le> slot_round last_decided'"
    and decide: "try_decide R cx ls st (core_committer cx) last_decided = Some out"
      "try_decide R cx' ls st' (core_committer cx') last_decided' = Some out'"
    and i: "i < length out" "i' < length out'" "slot_round last_decided + i = slot_round last_decided' + i'"
  shows "dl_slot (out ! i) = dl_slot (out' ! i') \<and> into_committed_block (out ! i) = into_committed_block (out' ! i')"
proof -
  let ?c = "cx_committee cx" and ?e = "elected R cx ls"
  let ?lo = "slot_round last_decided + 1" and ?lo' = "slot_round last_decided' + 1"
  have e: "elections_ok R cx' ls" "elected R cx' ls = ?e"
    using elections same elect_leader_cong [OF same, of R ls] by (auto simp: elections_ok_def elected_def fun_eq_iff)
  obtain leaders where dec: "decisions ?c D (ds_lookup st) ?e ?lo (map fst leaders)"
    and len: "length out \<le> length leaders"
    and nth: "\<And>i. i < length out \<Longrightarrow> into_decided_leader (fst (leaders ! i)) (snd (leaders ! i) = Direct) = Some (out ! i)"
    by (rule try_decide_spec [OF dag views(1) single(1) elections low(1)]) (use decide(1) in auto)
  obtain leaders' where dec': "decisions ?c D (ds_lookup st') ?e ?lo' (map fst leaders')"
    and len': "length out' \<le> length leaders'"
    and nth': "\<And>i. i < length out' \<Longrightarrow> into_decided_leader (fst (leaders' ! i)) (snd (leaders' ! i) = Direct) = Some (out' ! i)"
    by (rule try_decide_spec [OF _ views(2) single(2) e(1) low(2), of Byz]) (use decide(2) dag e(2) same in auto)
  have "agree (map fst leaders ! i) (map fst leaders' ! i')"
  proof (rule decisions_agree [OF dag _ _ _ _ dec dec'])
    show "view_of D (gc_round cx st) (ds_lookup st)" "view_of D (gc_round cx' st') (ds_lookup st')"
      using views by (simp_all add: committer_view_def)
    show "gc_round cx st < ?lo" "gc_round cx' st' < ?lo'" using low gc_round_le [of cx st] gc_round_le [of cx' st'] by simp_all
    show "i < length (map fst leaders)" "i' < length (map fst leaders')" using i len len' by simp_all
    show "is_decided (map fst leaders ! i)" "is_decided (map fst leaders' ! i')"
      using into_decided [OF nth [OF i(1)]] into_decided [OF nth' [OF i(2)]] i len len' by simp_all
  qed (use i(3) in simp)
  then show ?thesis using into_decided_agree [OF nth [OF i(1)] nth' [OF i(2)]] i len len' by simp
qed

section \<open>An example\<close>

text \<open>Four authorities, four full rounds; the second validator has not seen the fourth.\<close>

definition example_genesis :: "verified_block list" where
  "example_genesis = (case genesis_blocks example_crypto example_context of Some gs \<Rightarrow> gs | None \<Rightarrow> [])"

fun example_layer :: "nat \<Rightarrow> verified_block list" where
  "example_layer 0 = example_genesis"
| "example_layer (Suc r) = map (\<lambda>a. example_block (Suc r) a 1 (rotate a (map vb_reference (example_layer r)))) [0, 1, 2, 3]"

definition example_layers :: "nat \<Rightarrow> verified_block list" where
  "example_layers n = concat (map example_layer [1..<n + 1])"

definition example_dag :: "block_ref \<rightharpoonup> verified_block" where
  "example_dag = map_of (map (\<lambda>b. (vb_reference b, b)) (example_genesis @ example_layers 4))"

text \<open>The checks of \<open>block_ok\<close> in executable form.\<close>

definition block_check :: "committee \<Rightarrow> verified_block \<Rightarrow> bool" where
  "block_check c b \<longleftrightarrow> vb_author b < committee_size c \<and>
     list_all (\<lambda>y. br_author y < committee_size c \<and> br_round y < vb_round b) (vb_ancestors b) \<and>
     distinct (map br_author (vb_ancestors b)) \<and>
     (0 < vb_round b \<longrightarrow> reached_quorum c (sum_list (map (authority_weight c \<circ> br_author)
        (filter (\<lambda>y. br_round y + 1 = vb_round b) (vb_ancestors b)))))"

lemma block_check_ok: "block_check c b \<Longrightarrow> block_ok c b"
proof -
  assume check: "block_check c b"
  let ?ps = "filter (\<lambda>y. br_round y + 1 = vb_round b) (vb_ancestors b)"
  have "distinct (map br_author ?ps)" using check by (auto simp: block_check_def intro: distinct_map_filter)
  then have "sum_list (map (authority_weight c) (map br_author ?ps)) = (\<Sum>i \<in> set (map br_author ?ps). authority_weight c i)"
    by (rule sum_list_distinct_conv_sum_set)
  also have "\<dots> = weight c (set (map br_author ?ps))"
    unfolding weight_def using check by (intro sum.cong) (auto simp: block_check_def list_all_iff)
  also have "set (map br_author ?ps) = {br_author y |y. y \<in> set (vb_ancestors b) \<and> br_round y + 1 = vb_round b}" by auto
  finally show ?thesis using check by (simp add: block_check_def block_ok_def list_all_iff)
qed

definition example_blocks :: "verified_block list" where
  "example_blocks = example_genesis @ example_layers 4"

lemma example_blocks_check: "list_all (block_check example_committee) example_blocks"
  by code_simp

lemma example_blocks_slots:
  "list_all (\<lambda>b. list_all (\<lambda>b'. slot_of_ref (vb_reference b) = slot_of_ref (vb_reference b') \<longrightarrow>
     vb_reference b = vb_reference b') example_blocks) example_blocks"
  by code_simp

lemma example_dag_ok: "dag_ok example_committee {} example_dag"
proof -
  have D: "example_dag r = Some b \<Longrightarrow> b \<in> set example_blocks \<and> vb_reference b = r" for r b
    unfolding example_dag_def example_blocks_def [symmetric] by (drule map_of_SomeD) auto
  have "valid_dag example_committee example_dag"
    using D example_blocks_check block_check_ok unfolding valid_dag_def list_all_iff by blast
  moreover have "r = r'" if r: "example_dag r \<noteq> None" "example_dag r' \<noteq> None" "slot_of_ref r = slot_of_ref r'" for r r'
  proof -
    obtain b b' where "b \<in> set example_blocks" "vb_reference b = r" "b' \<in> set example_blocks" "vb_reference b' = r'"
      using r(1,2) D by blast
    then show ?thesis using r(3) example_blocks_slots unfolding list_all_iff by blast
  qed
  ultimately show ?thesis
    unfolding dag_ok_def few_equivocators_def using validity_positive [OF committee_ok_example] by (simp add: reached_validity_def)
qed

definition example_accepts :: "nat \<Rightarrow> dag_op list" where
  "example_accepts n = map (OpAccept 7) (example_layers n)"

definition run_check :: "nat \<Rightarrow> bool" where
  "run_check n = (case dag_run example_crypto example_context 5 (example_accepts n) of
     Some st \<Rightarrow> list_all (\<lambda>b. list_all (\<lambda>y. br_round y < vb_round b \<and> (0 < br_round y \<longrightarrow> ds_lookup st y \<noteq> None))
         (vb_ancestors b)) (accepted_blocks (example_accepts n)) \<and>
       fcard (fmdom (ds_recent_blocks st)) \<le> 20 \<and> last_commit_round st = 0
   | None \<Rightarrow> False)"

lemma run_checks: "run_check 3" "run_check 4"
  by code_simp+

lemma accepted_example: "accepted_blocks (example_accepts n) = example_layers n"
  by (simp add: accepted_blocks_def example_accepts_def comp_def)

lemma example_run_view:
  assumes "run_check n" and "n \<le> 4"
  obtains st where "dag_run example_crypto example_context 5 (example_accepts n) = Some st"
    "validator_view example_crypto example_context example_dag (example_accepts n) st" "last_commit_round st = 0"
proof -
  obtain st where run: "dag_run example_crypto example_context 5 (example_accepts n) = Some st"
    and anc: "\<forall>b \<in> set (accepted_blocks (example_accepts n)). \<forall>y \<in> set (vb_ancestors b).
      br_round y < vb_round b \<and> (0 < br_round y \<longrightarrow> ds_lookup st y \<noteq> None)"
    and small: "fcard (fmdom (ds_recent_blocks st)) \<le> 20" and lcr: "last_commit_round st = 0"
    using assms(1) by (auto simp: run_check_def list_all_iff split: option.splits)
  note reach = dag_run_reach [OF context_ok_example run]
  have gc: "gc_round example_context st = 0" using gc_round_le [of example_context st] lcr by simp
  have "distinct (map vb_reference example_blocks)" by code_simp
  then have D: "example_dag (vb_reference b) = Some b" if "b \<in> set example_blocks" for b
    unfolding example_dag_def example_blocks_def [symmetric] using that
    by (intro map_of_is_SomeI) (auto simp: comp_def)
  have "b \<in> set example_blocks" if "b \<in> set (example_layers n)" for b
    using that assms(2) by (auto simp: example_blocks_def example_layers_def simp del: upt_Suc)
  moreover have "genesis_blocks example_crypto example_context = Some gs \<Longrightarrow> b \<in> set gs \<Longrightarrow> b \<in> set example_blocks" for gs b
    by (simp add: example_blocks_def example_genesis_def)
  moreover have "get_block st = ds_lookup st" by (rule ext) (rule get_block_lookup)
  moreover have "fcard (fmdom (ds_recent_blocks st)) * cm_total_stake example_committee < 2 ^ 64"
    using mult_le_mono1 [OF small, of "cm_total_stake example_committee"] by (simp add: example_committee_def)
  ultimately have "validator_view example_crypto example_context example_dag (example_accepts n) st"
    using reach D reach_history(2) [OF reach anc] gc by (auto simp: validator_view_def accepted_example)
  then show ?thesis using that run lcr by blast
qed

definition example_schedule :: leader_schedule where
  "example_schedule = leader_schedule_new swap_table_default"

declare find_in_ancestors.simps [code]

definition example_decide :: "nat \<Rightarrow> decided_leader list option" where
  "example_decide n = Option.bind (dag_run example_crypto example_context 5 (example_accepts n))
     (\<lambda>st. try_decide example_rng example_context example_schedule st (core_committer example_context) (Slot 0 0))"

lemma example_decisions:
  "map_option (map dl_slot) (example_decide 3) = Some [Slot 1 0]"
  "map_option (map dl_slot) (example_decide 4) = Some [Slot 1 0, Slot 2 0]"
  by code_simp+

lemma example_elections: "elections_ok example_rng example_context example_schedule"
  by (auto simp: elections_ok_def elect_leader_def elect_leader_stake_based_def example_rng_def example_schedule_def
      leader_schedule_new_def swap_table_default_def swap_leader_def committee_authorities_def
      vec_get_def example_committee_def example_authorities_def committee_size_def)

lemma example_single: "single_leader example_context"
  by (simp add: single_leader_def example_context_def example_config_def)

section \<open>Properties\<close>

text \<open>
  C3: On the DAG state of a validator \<open>try_decide\<close> never panics (no second candidate or certified
  leader, no missing block, no failed lookup), and the leaders it decides are those elected for
  the consecutive rounds after the last decided one.
\<close>

theorem try_decide_never_panics:
  assumes "dag_ok (cx_committee cx) Byz D" and "validator_view C cx D ops st" and "single_leader cx"
    and "elections_ok R cx ls" and "last_commit_round st \<le> slot_round last_decided"
  shows "\<exists>out. try_decide R cx ls st (core_committer cx) last_decided = Some out \<and>
     (\<forall>i < length out. elect_leader R cx ls (slot_round last_decided + 1 + i) 0 = Some (slot_authority (dl_slot (out ! i))) \<and>
        slot_round (dl_slot (out ! i)) = slot_round last_decided + 1 + i)"
proof -
  obtain leaders out where out: "try_decide R cx ls st (core_committer cx) last_decided = Some out"
    and dec: "decisions (cx_committee cx) D (ds_lookup st) (elected R cx ls) (slot_round last_decided + 1) (map fst leaders)"
    and len: "length out \<le> length leaders"
    and nth: "\<And>i. i < length out \<Longrightarrow> into_decided_leader (fst (leaders ! i)) (snd (leaders ! i) = Direct) = Some (out ! i)"
    by (rule try_decide_spec [OF assms(1) validator_view_committer [OF assms(2)] assms(3-5)]) blast
  have "dl_slot (out ! i) = Slot (slot_round last_decided + 1 + i) (elected R cx ls (slot_round last_decided + 1 + i))"
    if i: "i < length out" for i
    using decided_slot [OF dec _ nth [OF i]] i len by simp
  then show ?thesis using out elected_Some [OF assms(4)] by simp
qed

theorem try_decide_never_panics_witness:
  "\<exists>st out. dag_run example_crypto example_context 5 (example_accepts 4) = Some st \<and>
     try_decide example_rng example_context example_schedule st (core_committer example_context) (Slot 0 0) = Some out \<and>
     length out = 2 \<and> slot_round (dl_slot (out ! 1)) = 2"
proof -
  obtain st where st: "dag_run example_crypto example_context 5 (example_accepts 4) = Some st"
    and view: "validator_view example_crypto example_context example_dag (example_accepts 4) st"
    and lcr: "last_commit_round st = 0"
    by (rule example_run_view [OF run_checks(2)]) simp
  have "length (the (example_decide 4)) = 2" using example_decisions(2) by (auto dest: arg_cong [of _ _ length])
  then show ?thesis
    using try_decide_never_panics [OF _ view example_single example_elections, of "{}" "Slot 0 0"] lcr st example_dag_ok
    by (auto simp: example_decide_def)
qed

text \<open>
  C2: Agreement. Two validators of an epoch, each with its own part of the DAG, its own last
  decided leader and at any time of its run, run \<open>try_decide\<close> with the same leader schedule. If the
  authorities that equivocate hold less than the validity threshold, then every round decided by both
  is decided alike: the same block is committed, or both skip the leader.
\<close>

theorem validators_agree:
  assumes dag: "dag_ok (cx_committee cx) Byz D" and same: "cx_committee cx' = cx_committee cx"
    and view: "validator_view C cx D ops st" "validator_view C' cx' D ops' st'"
    and single: "single_leader cx" "single_leader cx'" and elections: "elections_ok R cx ls"
    and low: "last_commit_round st \<le> slot_round last_decided" "last_commit_round st' \<le> slot_round last_decided'"
    and decide: "try_decide R cx ls st (core_committer cx) last_decided = Some out"
      "try_decide R cx' ls st' (core_committer cx') last_decided' = Some out'"
    and d: "d \<in> set out" "d' \<in> set out'" "slot_round (dl_slot d) = slot_round (dl_slot d')"
  shows "dl_slot d = dl_slot d' \<and> into_committed_block d = into_committed_block d'"
proof -
  note views = validator_view_committer [OF view(1)] validator_view_committer [OF view(2)]
  have e: "elections_ok R cx' ls"
    using elections same elect_leader_cong [OF same, of R ls] by (auto simp: elections_ok_def)
  obtain i i' where i: "i < length out" "d = out ! i" "i' < length out'" "d' = out' ! i'"
    using d(1,2) by (auto simp: in_set_conv_nth)
  have "slot_round last_decided + 1 + i = slot_round last_decided' + 1 + i'"
    using decided_known(1) [OF dag views(1) single(1) elections low(1) decide(1) i(1)]
      decided_known(1) [OF dag [folded same] views(2) single(2) e low(2) decide(2) i(3)] d(3) i by simp
  then show ?thesis using decided_alike [OF dag same views single elections low decide i(1,3)] i by simp
qed

theorem validators_agree_witness:
  "\<exists>b d d'. the (example_decide 4) ! 0 = d \<and> the (example_decide 3) ! 0 = d' \<and> dl_slot d = Slot 1 0 \<and>
     into_committed_block d = into_committed_block d'"
proof -
  obtain st where st: "dag_run example_crypto example_context 5 (example_accepts 4) = Some st"
    and view: "validator_view example_crypto example_context example_dag (example_accepts 4) st"
    and lcr: "last_commit_round st = 0"
    by (rule example_run_view [OF run_checks(2)]) simp
  obtain st' where st': "dag_run example_crypto example_context 5 (example_accepts 3) = Some st'"
    and view': "validator_view example_crypto example_context example_dag (example_accepts 3) st'"
    and lcr': "last_commit_round st' = 0"
    by (rule example_run_view [OF run_checks(1)]) simp
  obtain out out' where out: "example_decide 4 = Some out" "map dl_slot out = [Slot 1 0, Slot 2 0]"
    and out': "example_decide 3 = Some out'" "map dl_slot out' = [Slot 1 0]"
    using example_decisions by auto
  have d: "out ! 0 \<in> set out" "out' ! 0 \<in> set out'" "dl_slot (out ! 0) = Slot 1 0" "dl_slot (out' ! 0) = Slot 1 0"
    using out(2) out'(2) by (auto simp: map_eq_Cons_conv)
  have "into_committed_block (out ! 0) = into_committed_block (out' ! 0)"
    using validators_agree [OF _ refl view view' example_single example_single example_elections, of "{}" "Slot 0 0" "Slot 0 0" out out']
      example_dag_ok lcr lcr' out(1) out'(1) d st st' by (simp add: example_decide_def)
  then show ?thesis using out(1) out'(1) d(3) by simp
qed

text \<open>
  C4: The direct rule decides exactly by quorums: a leader is skipped iff a quorum of the next
  round blames it, and a block of the slot is committed iff it is not blamed and a quorum two
  rounds above certifies it. The vote cache and the quick rejection by stake change nothing.
\<close>

theorem direct_rule:
  assumes "dag_ok (cx_committee cx) Byz D" and "validator_view C cx D ops st" and "single_leader cx"
    and "last_commit_round st < slot_round s"
  shows "\<exists>status. try_direct_decide cx (core_committer cx ! (slot_round s mod 3)) st s = Some status \<and>
     (status = LSkip s \<longleftrightarrow> blamed (cx_committee cx) (get_block st) s) \<and>
     (\<forall>b. status = LCommit b \<longleftrightarrow> \<not> blamed (cx_committee cx) (get_block st) s \<and> get_block st (vb_reference b) = Some b \<and>
        slot_of_ref (vb_reference b) = s \<and> supported (cx_committee cx) D (get_block st) (vb_reference b))"
proof -
  have view: "committer_view cx D st" by (rule validator_view_committer [OF assms(2)])
  have get: "get_block st = ds_lookup st" by (rule ext) (rule get_block_lookup)
  have "slot_round s mod 3 < 3" by simp
  then consider "slot_round s mod 3 = 0" | "slot_round s mod 3 = 1" | "slot_round s mod 3 = 2" by linarith
  then have bc: "core_committer cx ! (slot_round s mod 3) = stage (slot_round s mod 3)"
    by cases (simp_all add: core_committer_eq [OF assms(3)])
  have unique: "b = b'" if "ds_lookup st (vb_reference b) = Some b" "supported (cx_committee cx) D (ds_lookup st) (vb_reference b)"
      "ds_lookup st (vb_reference b') = Some b'" "supported (cx_committee cx) D (ds_lookup st) (vb_reference b')"
      "slot_of_ref (vb_reference b) = s" "slot_of_ref (vb_reference b') = s" for b b'
    by (rule commits_agree [OF assms(1), where s = s and later = "[]" and later' = "[]"])
      (use that in \<open>auto intro: view_known [OF view] simp del: slot_of_reference\<close>)
  show ?thesis
    unfolding bc get
    by (rule try_direct_decide_spec [OF assms(1) view assms(4) decision_round_stage [OF refl]]) (use unique in auto)
qed

theorem direct_rule_witness:
  "\<exists>st b. dag_run example_crypto example_context 5 (example_accepts 3) = Some st \<and>
     try_direct_decide example_context (stage 1) st (Slot 1 0) = Some (LCommit b) \<and>
     supported example_committee example_dag (get_block st) (vb_reference b)"
proof -
  obtain st where st: "dag_run example_crypto example_context 5 (example_accepts 3) = Some st"
    and view: "validator_view example_crypto example_context example_dag (example_accepts 3) st"
    and lcr: "last_commit_round st = 0"
    by (rule example_run_view [OF run_checks(1)]) simp
  have "case dag_run example_crypto example_context 5 (example_accepts 3) of
      Some st \<Rightarrow> (case try_direct_decide example_context (core_committer example_context ! 1) st (Slot 1 0) of
          Some (LCommit b) \<Rightarrow> True | _ \<Rightarrow> False) | None \<Rightarrow> False" by code_simp
  then obtain b where b: "try_direct_decide example_context (core_committer example_context ! 1) st (Slot 1 0) = Some (LCommit b)"
    using st by (auto split: option.splits leader_status.splits)
  have "supported example_committee example_dag (get_block st) (vb_reference b)"
    using direct_rule [OF _ view example_single, of "{}" "Slot 1 0"] example_dag_ok lcr b by auto
  then show ?thesis using st b core_committer_eq [OF example_single] by auto
qed

end
