(* ===== verification/Commit_Chain.thy ===== *)
theory Commit_Chain
  imports Linearizer Committer_Agreement "HOL-Library.Sublist"
begin

text \<open>
  The commits \<open>Linearizer::handle_commit\<close> makes of a sequence of committed leaders: it never panics,
  the commits form a chain, their sub-dags partition the history, and two validators that
  commit the same leaders output the same sub-dags.
\<close>

section \<open>States between commits\<close>

text \<open>
  What holds of the DAG state whenever the linearizer is called: the blocks known are a part of a
  valid DAG \<open>D\<close>, complete above the garbage collection round, and the committed blocks, none above the
  last leader, are closed under ancestors.
\<close>

definition chain_ready :: "consensus_context \<Rightarrow> (block_ref \<rightharpoonup> verified_block) \<Rightarrow> dag_state \<Rightarrow> bool" where
  "chain_ready cx D st \<longleftrightarrow> ds_inv cx st \<and> valid_dag (cx_committee cx) D \<and> view_of D (gc_round cx st) (ds_lookup st) \<and>
     (\<forall>r \<in> committed_refs st. br_round r \<le> last_commit_round st) \<and>
     (\<forall>r b y. r \<in> committed_refs st \<longrightarrow> ds_lookup st r = Some b \<longrightarrow> y \<in> set (vb_ancestors b) \<longrightarrow>
        gc_round cx st < br_round y \<longrightarrow> y \<in> committed_refs st)"

text \<open>A leader above the last one, known with its parents.\<close>

definition leader_ready :: "dag_state \<Rightarrow> verified_block \<Rightarrow> bool" where
  "leader_ready st l \<longleftrightarrow> last_commit_round st < vb_round l \<and> ds_lookup st (vb_reference l) = Some l \<and>
     (\<forall>y \<in> set (vb_ancestors l). br_round y + 1 = vb_round l \<longrightarrow> ds_lookup st y \<noteq> None)"

definition codec_total :: "commit_codec \<Rightarrow> bool" where
  "codec_total K \<longleftrightarrow> (\<forall>c. \<exists>bytes. co_serialize K c = Inr bytes)"

lemma distinct_ancestors: "valid_dag c D \<Longrightarrow> D r = Some b \<Longrightarrow> vb_reference b = r \<and> distinct (vb_ancestors b)"
  using valid_dagD(1,6) by (auto simp: distinct_map)

lemma last_commit_update [simp]:
  assumes "ds_last_commit st = Some c"
  shows "last_commit_index st = tc_index c" "last_commit_digest st = tc_digest c"
    "last_commit_timestamp_ms st = tc_timestamp_ms c" "last_commit_round st = br_round (tc_leader c)"
  using assms by (simp_all add: last_commit_index_def last_commit_digest_def last_commit_timestamp_ms_def last_commit_round_def)

lemma last_commit_cong:
  assumes "ds_last_commit st' = ds_last_commit st"
  shows "last_commit_index st' = last_commit_index st" "last_commit_digest st' = last_commit_digest st"
    "last_commit_timestamp_ms st' = last_commit_timestamp_ms st" "last_commit_round st' = last_commit_round st"
  using assms by (simp_all add: last_commit_index_def last_commit_digest_def last_commit_timestamp_ms_def last_commit_round_def)

section \<open>The timestamp\<close>

text \<open>The parents of the leader, as the linearizer reads them.\<close>

definition parent_blocks :: "(block_ref \<rightharpoonup> verified_block) \<Rightarrow> verified_block \<Rightarrow> verified_block list" where
  "parent_blocks D l = map (\<lambda>r. the (D r)) (filter (\<lambda>r. br_round r + 1 = vb_round l) (vb_ancestors l))"

lemma calculate_commit_timestamp_eq:
  assumes "\<And>r b. ds_lookup st r = Some b \<Longrightarrow> D r = Some b"
    and "\<forall>y \<in> set (vb_ancestors l). br_round y + 1 = vb_round l \<longrightarrow> ds_lookup st y \<noteq> None"
  shows "calculate_commit_timestamp (dag_state_api cx) cx st l t =
     Option.bind (median_timestamp_by_stake cx (parent_blocks D l)) (\<lambda>m. Option.bind (expect_ok m) (\<lambda>ts. Some (max ts t)))"
proof -
  let ?rs = "filter (\<lambda>r. br_round r + 1 = vb_round l) (vb_ancestors l)"
  have "mapM (\<lambda>b. b) (map (ds_lookup st) ?rs) = Some (map the (map (ds_lookup st) ?rs))"
    by (rule mapM_Some) (use assms(2) in auto)
  moreover have "map the (map (ds_lookup st) ?rs) = parent_blocks D l"
    unfolding parent_blocks_def map_map by (rule map_cong [OF refl]) (use assms in force)
  ultimately show ?thesis
    by (simp add: calculate_commit_timestamp_def dag_state_api_def get_blocks_lookup)
qed

lemma parents_quorum:
  assumes D: "valid_dag c D" "D (vb_reference l) = Some l" and "0 < vb_round l"
    and known: "\<forall>y \<in> set (vb_ancestors l). br_round y + 1 = vb_round l \<longrightarrow> D y \<noteq> None"
  shows "distinct (map vb_author (parent_blocks D l))" "\<forall>b \<in> set (parent_blocks D l). vb_author b < committee_size c"
    "reached_quorum c (weight c (vb_author ` set (parent_blocks D l)))"
proof -
  let ?rs = "filter (\<lambda>r. br_round r + 1 = vb_round l) (vb_ancestors l)"
  note l = valid_dagD [OF D]
  have "vb_author (the (D r)) = br_author r" if "r \<in> set ?rs" for r
    using that known valid_dagD(3) [OF D(1), of r] by fastforce
  then have authors: "map vb_author (parent_blocks D l) = map br_author ?rs" by (simp add: parent_blocks_def)
  show "distinct (map vb_author (parent_blocks D l))" unfolding authors using l(6) by (rule distinct_map_filter)
  have set: "vb_author ` set (parent_blocks D l) = br_author ` set ?rs" using arg_cong [OF authors, of set] by simp
  have "\<forall>a \<in> br_author ` set ?rs. a < committee_size c" using l(5) by auto
  then show "\<forall>b \<in> set (parent_blocks D l). vb_author b < committee_size c" unfolding set [symmetric] by blast
  have "br_author ` set ?rs = {br_author y |y. y \<in> set (vb_ancestors l) \<and> br_round y + 1 = br_round (vb_reference l)}" by auto
  then show "reached_quorum c (weight c (vb_author ` set (parent_blocks D l)))" unfolding set using l(7) assms(3) by simp
qed

lemma calculate_commit_timestamp_spec:
  assumes D: "valid_dag (cx_committee cx) D" "D (vb_reference l) = Some l" and ok: "committee_ok (cx_committee cx)" and "0 < vb_round l"
    and sub: "\<And>r b. ds_lookup st r = Some b \<Longrightarrow> D r = Some b"
    and known: "\<forall>y \<in> set (vb_ancestors l). br_round y + 1 = vb_round l \<longrightarrow> ds_lookup st y \<noteq> None"
  obtains ts where "calculate_commit_timestamp (dag_state_api cx) cx st l t = Some (max ts t)"
    "\<not> reached_validity (cx_committee cx) (weight (cx_committee cx) Byz) \<Longrightarrow>
       (\<exists>b \<in> set (parent_blocks D l). vb_author b \<notin> Byz \<and> vb_timestamp_ms b \<le> ts) \<and>
       (\<exists>b \<in> set (parent_blocks D l). vb_author b \<notin> Byz \<and> ts \<le> vb_timestamp_ms b)"
proof -
  have "\<forall>y \<in> set (vb_ancestors l). br_round y + 1 = vb_round l \<longrightarrow> D y \<noteq> None" using sub known by fastforce
  note parents = parents_quorum [OF D assms(4) this]
  obtain ts where ts: "median_timestamp_by_stake cx (parent_blocks D l) = Some (Inr ts)"
    "weight (cx_committee cx) (vb_author ` set (parent_blocks D l)) div 2 <
       weight (cx_committee cx) {vb_author b |b. b \<in> set (parent_blocks D l) \<and> vb_timestamp_ms b \<le> ts}"
    "weight (cx_committee cx) {vb_author b |b. b \<in> set (parent_blocks D l) \<and> vb_timestamp_ms b < ts} \<le>
       weight (cx_committee cx) (vb_author ` set (parent_blocks D l)) div 2"
    by (rule median_timestamp_spec [OF ok parents])
  then have "calculate_commit_timestamp (dag_state_api cx) cx st l t = Some (max ts t)"
    by (simp add: calculate_commit_timestamp_eq [OF sub known])
  then show ?thesis using that median_between [OF ok _ parents(3) ts(2,3)] by blast
qed

section \<open>One commit\<close>

text \<open>What a commit is, for the state before and after it.\<close>

definition commit_made :: "consensus_context \<Rightarrow> dag_state \<Rightarrow> verified_block \<Rightarrow> dag_state \<Rightarrow> committed_sub_dag \<Rightarrow> trusted_commit \<Rightarrow> bool" where
  "commit_made cx st l st' sd c \<longleftrightarrow> ds_lookup st' = ds_lookup st \<and>
     ds_last_commit st' = Some c \<and> ds_commits_to_write st' = ds_commits_to_write st @ [c] \<and>
     tc_index c = last_commit_index st + 1 \<and> tc_previous_digest c = last_commit_digest st \<and>
     last_commit_timestamp_ms st \<le> tc_timestamp_ms c \<and>
     tc_leader c = vb_reference l \<and> tc_blocks c = map vb_reference (sd_blocks sd) \<and>
     sd_leader sd = vb_reference l \<and> sd_timestamp_ms sd = tc_timestamp_ms c \<and> sd_commit_ref sd = tc_reference c \<and>
     committed_refs st' = committed_refs st \<union> vb_reference ` set (sd_blocks sd) \<and>
     vb_reference ` set (sd_blocks sd) =
       {r. linked_to (ds_lookup st) (gc_round cx st) {vb_reference l} r \<and> gc_round cx st < br_round r} - committed_refs st \<and>
     distinct (map vb_reference (sd_blocks sd)) \<and> sorted (map (\<lambda>b. (vb_round b, vb_author b)) (sd_blocks sd))"

lemma add_commit_marks: "add_commit cx now st c = Some st' \<Longrightarrow> committed_refs st' = committed_refs st"
  by (auto simp: add_commit_def committed_refs_def is_committed_def Let_def split: if_splits elim!: bind_SomeE)

lemma api_gc_round [simp]: "ba_gc_round (dag_state_api cx) st = gc_round cx st"
  by (simp add: dag_state_api_def)

lemma chain_ready_iff:
  "chain_ready cx D st \<longleftrightarrow> ds_inv cx st \<and> valid_dag (cx_committee cx) D \<and> view_of D (gc_round cx st) (ds_lookup st) \<and>
     (\<forall>r \<in> committed_refs st. br_round r \<le> last_commit_round st) \<and> dm.marks_closed cx st"
  by (simp add: chain_ready_def dm.marks_closed_def)

lemma chain_readyD:
  assumes "chain_ready cx D st"
  shows "ds_inv cx st" "valid_dag (cx_committee cx) D" "view_of D (gc_round cx st) (ds_lookup st)"
    "\<And>r. r \<in> committed_refs st \<Longrightarrow> br_round r \<le> last_commit_round st" "dm.marks_closed cx st"
    "\<And>r b. ds_lookup st r = Some b \<Longrightarrow> D r = Some b" "complete_above (ds_lookup st) (gc_round cx st)"
  using assms unfolding chain_ready_iff view_of_def by blast+

lemma linked_rounds:
  assumes "valid_dag c D" and "\<And>r b. m r = Some b \<Longrightarrow> D r = Some b" and "linked_to m lo {l} r"
  shows "br_round r \<le> br_round l"
  using assms(3)
proof (induction rule: linked_to.induct)
  case (linked_step r b y)
  then show ?case using valid_dagD(5) [OF assms(1) assms(2)] by fastforce
qed simp

lemma linearize_ready:
  assumes ready: "chain_ready cx D st" and leader: "leader_ready st l"
  obtains st1 bs where "linearize_sub_dag (dag_state_api cx) l st = Some (st1, bs)" "ds_inv cx st1"
    "ds_lookup st1 = ds_lookup st" "gc_round cx st1 = gc_round cx st"
    "committed_refs st1 = committed_refs st \<union> vb_reference ` set bs" "dm.marks_closed cx st1"
    "(ds_last_commit st1, ds_last_committed_rounds st1, ds_commits_to_write st1) =
     (ds_last_commit st, ds_last_committed_rounds st, ds_commits_to_write st)"
    "distinct (map vb_reference bs)" "sorted (map (\<lambda>b. (vb_round b, vb_author b)) bs)"
    "\<forall>b \<in> set bs. ds_lookup st (vb_reference b) = Some b"
    "vb_reference ` set bs = {r. linked_to (ds_lookup st) (gc_round cx st) {vb_reference l} r \<and> gc_round cx st < br_round r} - committed_refs st"
proof -
  note inv = chain_readyD [OF ready]
  have l: "ds_lookup st (vb_reference l) = Some l" "last_commit_round st < vb_round l"
    using leader by (auto simp: leader_ready_def)
  have above: "gc_round cx st < br_round (vb_reference l)" using gc_round_le [of cx st] l(2) by simp
  have new: "vb_reference l \<notin> committed_refs st" using inv(4) [of "vb_reference l"] l(2) by auto
  have refs: "ds_lookup st r = Some b \<Longrightarrow> vb_reference b = r \<and> distinct (vb_ancestors b)" for r b
    using distinct_ancestors [OF inv(2)] inv(6) by blast
  show thesis
    by (rule dm.linearize_sub_dag_spec [of cx st l, unfolded api_gc_round, OF inv(1) l(1) above new inv(7) refs inv(5)])
      (assumption, rule that)
qed

lemma collect_spec:
  assumes ready: "chain_ready cx D st" and leader: "leader_ready st l" and codec: "codec_total K"
  obtains st1 sd c where "collect_sub_dag_and_commit K cx st l = Some (st1, sd, c)" "ds_inv cx st1"
    "ds_last_commit st1 = ds_last_commit st" "ds_commits_to_write st1 = ds_commits_to_write st" "dm.marks_closed cx st1"
    "\<And>st'. ds_lookup st' = ds_lookup st1 \<Longrightarrow> ds_last_commit st' = Some c \<Longrightarrow>
       ds_commits_to_write st' = ds_commits_to_write st1 @ [c] \<Longrightarrow> committed_refs st' = committed_refs st1 \<Longrightarrow> commit_made cx st l st' sd c"
    "\<And>b. b \<in> set (sd_blocks sd) \<Longrightarrow> ds_lookup st (vb_reference b) = Some b"
proof -
  note inv = chain_readyD [OF ready]
  have l: "ds_lookup st (vb_reference l) = Some l" "last_commit_round st < vb_round l"
    and parents: "\<forall>y \<in> set (vb_ancestors l). br_round y + 1 = vb_round l \<longrightarrow> ds_lookup st y \<noteq> None"
    using leader by (auto simp: leader_ready_def)
  obtain st1 bs where run: "linearize_sub_dag (dag_state_api cx) l st = Some (st1, bs)" and st1: "ds_inv cx st1"
      "ds_lookup st1 = ds_lookup st" "gc_round cx st1 = gc_round cx st" "committed_refs st1 = committed_refs st \<union> vb_reference ` set bs" "dm.marks_closed cx st1"
      "(ds_last_commit st1, ds_last_committed_rounds st1, ds_commits_to_write st1) =
       (ds_last_commit st, ds_last_committed_rounds st, ds_commits_to_write st)"
    and bs: "distinct (map vb_reference bs)" "sorted (map (\<lambda>b. (vb_round b, vb_author b)) bs)"
      "\<forall>b \<in> set bs. ds_lookup st (vb_reference b) = Some b"
      "vb_reference ` set bs = {r. linked_to (ds_lookup st) (gc_round cx st) {vb_reference l} r \<and> gc_round cx st < br_round r} - committed_refs st"
    by (rule linearize_ready [OF ready leader])
  obtain ts where ts: "calculate_commit_timestamp (dag_state_api cx) cx st1 l (last_commit_timestamp_ms st) =
      Some (max ts (last_commit_timestamp_ms st))"
    by (rule calculate_commit_timestamp_spec [OF inv(2) inv(6) [OF l(1)] ds_invD(1) [OF inv(1)], where st = st1])
      (use st1(2) l(2) inv(6) parents in auto)
  let ?commit = "commit_new (last_commit_index st + 1) (last_commit_digest st) (max ts (last_commit_timestamp_ms st))
    (vb_reference l) (map vb_reference bs)"
  obtain bytes where bytes: "co_serialize K ?commit = Inr bytes" using codec by (auto simp: codec_total_def)
  let ?c = "new_trusted (co_hash K) ?commit bytes"
  let ?sd = "committed_sub_dag_new (vb_reference l) bs (max ts (last_commit_timestamp_ms st)) (tc_reference ?c)"
  have sel: "sd_blocks ?sd = bs" "sd_leader ?sd = vb_reference l" "sd_timestamp_ms ?sd = max ts (last_commit_timestamp_ms st)"
    "sd_commit_ref ?sd = tc_reference ?c" "tc_index ?c = last_commit_index st + 1" "tc_previous_digest ?c = last_commit_digest st"
    "tc_timestamp_ms ?c = max ts (last_commit_timestamp_ms st)" "tc_leader ?c = vb_reference l" "tc_blocks ?c = map vb_reference bs"
    by (simp_all add: committed_sub_dag_new_def tc_index_def tc_previous_digest_def tc_timestamp_ms_def tc_leader_def tc_blocks_def)
  show thesis
  proof (rule that [of st1 ?sd ?c])
    show "collect_sub_dag_and_commit K cx st l = Some (st1, ?sd, ?c)"
      by (simp add: collect_sub_dag_and_commit_def Let_def run ts bytes [simplified])
    show "commit_made cx st l st' ?sd ?c" if "ds_lookup st' = ds_lookup st1" "ds_last_commit st' = Some ?c"
       "ds_commits_to_write st' = ds_commits_to_write st1 @ [?c]" "committed_refs st' = committed_refs st1" for st'
      unfolding commit_made_def sel using that st1 bs by simp
  qed (use st1 bs sel(1) in auto)
qed

lemma update_blocks_pruned_metric_total:
  assumes "ds_inv cx st" and "\<forall>b \<in> set (sd_blocks sd). \<forall>y \<in> set (vb_ancestors b). br_author y < committee_size (cx_committee cx)"
  shows "update_blocks_pruned_metric cx st sd = Some ()"
proof -
  have len: "length (ds_last_committed_rounds st) = committee_size (cx_committee cx)"
    using ds_invD(3) [OF assms(1)] by (simp add: ds_shape_def Let_def)
  have "\<exists>ys. mapM (\<lambda>r. if br_round r \<le> gc_round cx st then do {
       last_round \<leftarrow> vec_get (ds_last_committed_rounds st) (br_author r);
       if last_round \<noteq> br_round r then map_option (\<lambda>_. ()) (committee_authority (cx_committee cx) (br_author r)) else Some ()
     } else Some ()) (concat (map vb_ancestors (sd_blocks sd))) = Some ys"
    unfolding mapM_total [symmetric] using assms(2)
    by (auto simp: len vec_get_def committee_authority_def committee_size_def)
  then show ?thesis by (auto simp: update_blocks_pruned_metric_def)
qed

lemma gc_round_mono: "last_commit_round st \<le> last_commit_round st' \<Longrightarrow> gc_round cx st \<le> gc_round cx st'"
  by (simp add: gc_round_def calculate_gc_round_def diff_le_mono)

lemma commit_made_ready:
  assumes ready: "chain_ready cx D st" and leader: "leader_ready st l" and made: "commit_made cx st l st' sd c"
    and inv': "ds_inv cx st'" and closed: "dm.marks_closed cx st1" "ds_lookup st1 = ds_lookup st'"
      "committed_refs st1 = committed_refs st'" "gc_round cx st1 = gc_round cx st"
  shows "chain_ready cx D st'"
proof -
  note inv = chain_readyD [OF ready]
  have last: "last_commit_round st' = vb_round l" and lookup: "ds_lookup st' = ds_lookup st"
    and marks: "committed_refs st' \<subseteq> committed_refs st \<union> {r. linked_to (ds_lookup st) (gc_round cx st) {vb_reference l} r}"
    using made by (auto simp: commit_made_def)
  have lower: "last_commit_round st < vb_round l" using leader by (simp add: leader_ready_def)
  then have gc: "gc_round cx st \<le> gc_round cx st'" using last by (intro gc_round_mono) simp
  have "view_of D (gc_round cx st') (ds_lookup st')"
    using inv(3) gc unfolding view_of_def complete_above_def lookup by (meson le_less_trans order_less_imp_le)
  moreover have "\<forall>r \<in> committed_refs st'. br_round r \<le> last_commit_round st'"
    using marks inv(4) lower linked_rounds [OF inv(2,6)] unfolding last by fastforce
  moreover have "dm.marks_closed cx st'"
    using closed(1) gc unfolding dm.marks_closed_def api_gc_round closed(2-4) by (meson le_less_trans)
  ultimately show ?thesis using inv' inv(2) by (simp add: chain_ready_iff)
qed

lemma handle_commit_step_spec:
  assumes ready: "chain_ready cx D st" and leader: "leader_ready st l" and codec: "codec_total K"
  obtains st' sd c where "handle_commit_step K cx now (st, acc) l = Some (st', acc @ [sd])"
    "chain_ready cx D st'" "commit_made cx st l st' sd c" "\<exists>st1. collect_sub_dag_and_commit K cx st l = Some (st1, sd, c)"
proof -
  note inv = chain_readyD [OF ready]
  obtain st1 sd c where run: "collect_sub_dag_and_commit K cx st l = Some (st1, sd, c)" and st1: "ds_inv cx st1"
      "ds_last_commit st1 = ds_last_commit st" "ds_commits_to_write st1 = ds_commits_to_write st" "dm.marks_closed cx st1"
    and made: "\<And>st'. ds_lookup st' = ds_lookup st1 \<Longrightarrow> ds_last_commit st' = Some c \<Longrightarrow>
       ds_commits_to_write st' = ds_commits_to_write st1 @ [c] \<Longrightarrow> committed_refs st' = committed_refs st1 \<Longrightarrow> commit_made cx st l st' sd c"
    and blocks: "\<And>b. b \<in> set (sd_blocks sd) \<Longrightarrow> ds_lookup st (vb_reference b) = Some b"
    using collect_spec [OF assms] by blast
  let ?st = "st1\<lparr>ds_last_commit := Some c, ds_commits_to_write := ds_commits_to_write st1 @ [c]\<rparr>"
  have "commit_made cx st l ?st sd c"
  proof (rule made)
    show "ds_lookup ?st = ds_lookup st1" by (rule ds_lookup_cong) (simp_all add: ds_cached_def)
  qed (simp_all add: committed_refs_def is_committed_def)
  then have c: "tc_index c = last_commit_index st + 1" "last_commit_timestamp_ms st \<le> tc_timestamp_ms c"
    "tc_leader c = vb_reference l" "tc_blocks c = map vb_reference (sd_blocks sd)"
    by (simp_all add: commit_made_def)
  have D: "D (vb_reference b) = Some b" if "b \<in> set (sd_blocks sd)" for b using inv(6) blocks that by blast
  have metric: "update_blocks_pruned_metric cx st1 sd = Some ()"
    by (rule update_blocks_pruned_metric_total [OF st1(1)]) (use valid_dagD(5) [OF inv(2) D] in blast)
  have "\<forall>r \<in> set (tc_blocks c). br_author r < committee_size (cx_committee cx)"
    unfolding c(4) using valid_dagD(4) [OF inv(2) D] by auto
  then obtain st' where add: "add_commit cx now st1 c = Some st'" and st': "ds_inv cx st'" "ds_lookup st' = ds_lookup st1"
      "ds_last_commit st' = Some c" "ds_commits_to_write st' = ds_commits_to_write st1 @ [c]"
    using add_commit_spec [OF st1(1), of c now] c last_commit_cong [OF st1(2)] leader by (auto simp: leader_ready_def)
  note made' = made [OF st'(2-4) add_commit_marks [OF add]]
  have "chain_ready cx D st'"
    by (rule commit_made_ready [OF ready leader made' st'(1) st1(4)])
      (use st' add_commit_marks [OF add] gc_round_cong [OF st1(2)] in simp_all)
  moreover have "handle_commit_step K cx now (st, acc) l = Some (st', acc @ [sd])"
    by (simp add: handle_commit_step_def run metric add)
  ultimately show ?thesis using that made' run by blast
qed

section \<open>A sequence of commits\<close>

inductive commits_made :: "consensus_context \<Rightarrow> dag_state \<Rightarrow> verified_block list \<Rightarrow> dag_state \<Rightarrow>
    committed_sub_dag list \<Rightarrow> trusted_commit list \<Rightarrow> bool" for cx where
  made_none: "commits_made cx st [] st [] []"
| made_one: "commit_made cx st l st1 sd c \<Longrightarrow> commits_made cx st1 ls st' sds cs \<Longrightarrow>
    commits_made cx st (l # ls) st' (sd # sds) (c # cs)"

definition leaders_ready :: "dag_state \<Rightarrow> verified_block list \<Rightarrow> bool" where
  "leaders_ready st ls \<longleftrightarrow> sorted_wrt (\<lambda>l l'. vb_round l < vb_round l') ls \<and> (\<forall>l \<in> set ls. leader_ready st l)"

lemma leaders_ready_next:
  assumes "leaders_ready st (l # ls)" and "commit_made cx st l st' sd c"
  shows "leaders_ready st' ls"
  using assms by (auto simp: leaders_ready_def leader_ready_def commit_made_def)

lemma handle_commit_steps:
  assumes "codec_total K" and "chain_ready cx D st" and "leaders_ready st ls"
  shows "\<exists>st' sds cs. foldM (handle_commit_step K cx now) (st, acc) ls = Some (st', acc @ sds) \<and>
     chain_ready cx D st' \<and> commits_made cx st ls st' sds cs"
  using assms(2,3)
proof (induction ls arbitrary: st acc)
  case Nil
  then show ?case by (auto intro: made_none)
next
  case (Cons l ls)
  have "leader_ready st l" using Cons.prems(2) by (simp add: leaders_ready_def)
  then obtain st1 sd c where step: "handle_commit_step K cx now (st, acc) l = Some (st1, acc @ [sd])"
      "chain_ready cx D st1" "commit_made cx st l st1 sd c"
    using handle_commit_step_spec [OF Cons.prems(1) _ assms(1)] by blast
  from Cons.IH [OF step(2) leaders_ready_next [OF Cons.prems(2) step(3)], of "acc @ [sd]"]
  obtain st' sds cs where "foldM (handle_commit_step K cx now) (st1, acc @ [sd]) ls = Some (st', (acc @ [sd]) @ sds)"
      "chain_ready cx D st'" "commits_made cx st1 ls st' sds cs" by blast
  then show ?case using step
    by (intro exI [of _ st'] exI [of _ "sd # sds"] exI [of _ "c # cs"]) (auto intro: made_one)
qed

lemma handle_commit_spec:
  assumes "codec_total K" and "chain_ready cx D st" and "leaders_ready st ls"
  obtains st' sds cs where "handle_commit K cx now st ls = Some (st', sds)" "chain_ready cx D st'" "commits_made cx st ls st' sds cs"
  using handle_commit_steps [OF assms, of now "[]"] by (auto simp: handle_commit_def)

lemma commits_chained:
  assumes "commits_made cx st ls st' sds cs"
  shows "ds_commits_to_write st' = ds_commits_to_write st @ cs" "ds_lookup st' = ds_lookup st"
    "map tc_leader cs = map vb_reference ls" "map sd_leader sds = map vb_reference ls"
    "map sd_commit_ref sds = map tc_reference cs" "map tc_blocks cs = map (map vb_reference \<circ> sd_blocks) sds"
    "map tc_index cs = [last_commit_index st + 1..<last_commit_index st + 1 + length ls]"
    "map tc_previous_digest cs = butlast (last_commit_digest st # map tc_digest cs)"
    "sorted (last_commit_timestamp_ms st # map tc_timestamp_ms cs)"
  using assms by (induction rule: commits_made.induct) (auto simp: commit_made_def upt_rec)

lemma sub_dags_partition:
  assumes "commits_made cx st ls st' sds cs"
  shows "committed_refs st' = committed_refs st \<union> vb_reference ` set (concat (map sd_blocks sds))"
    "distinct (map vb_reference (concat (map sd_blocks sds)))"
    "vb_reference ` set (concat (map sd_blocks sds)) \<inter> committed_refs st = {}"
  using assms by (induction rule: commits_made.induct) (auto simp: commit_made_def)

section \<open>Two validators\<close>

text \<open>Two states after the same commits: their marks may differ only where garbage is collected.\<close>

definition same_commits :: "consensus_context \<Rightarrow> dag_state \<Rightarrow> dag_state \<Rightarrow> bool" where
  "same_commits cx st t \<longleftrightarrow> ds_last_commit t = ds_last_commit st \<and>
     (\<forall>r. gc_round cx st < br_round r \<longrightarrow> (r \<in> committed_refs st \<longleftrightarrow> r \<in> committed_refs t))"

lemma linearize_same:
  assumes ready: "chain_ready cx D st" "chain_ready cx' D t" and leader: "leader_ready st l" "leader_ready t l"
    and api: "dag_state_api cx' = dag_state_api cx" and same: "same_commits cx st t"
  shows "\<exists>st' t' bs. linearize_sub_dag (dag_state_api cx) l st = Some (st', bs) \<and> linearize_sub_dag (dag_state_api cx) l t = Some (t', bs)"
proof -
  have gc: "gc_round cx' t = gc_round cx t" using arg_cong [OF api, of ba_gc_round] by (simp add: dag_state_api_def)
  have gc': "gc_round cx t = gc_round cx st" using same by (intro gc_round_cong) (simp add: same_commits_def)
  have "gc_round cx st < br_round (vb_reference l)" using gc_round_le [of cx st] leader(1) by (simp add: leader_ready_def)
  moreover have "vb_reference l \<notin> committed_refs st"
    using chain_readyD(4) [OF ready(1), of "vb_reference l"] leader(1) by (auto simp: leader_ready_def)
  moreover have "view_of D (gc_round cx st) (ds_lookup t)" using chain_readyD(3) [OF ready(2)] gc gc' by simp
  ultimately show ?thesis
    using dms.linearize_sub_dag_same [of cx st t l D] chain_readyD [OF ready(1)] chain_readyD(1) [OF ready(2)] api gc'
      leader same distinct_ancestors [OF chain_readyD(2) [OF ready(1)]]
    by (auto simp: leader_ready_def same_commits_def)
qed

lemma collect_same:
  assumes ready: "chain_ready cx D st" "chain_ready cx' D t" and leader: "leader_ready st l" "leader_ready t l"
    and same_cx: "cx_committee cx' = cx_committee cx" "dag_state_api cx' = dag_state_api cx" and same: "same_commits cx st t"
    and run: "collect_sub_dag_and_commit K cx st l = Some (st', sd, c)" "collect_sub_dag_and_commit K cx' t l = Some (t', sd', c')"
  shows "sd' = sd \<and> c' = c"
proof -
  obtain st1 t1 bs where lin: "linearize_sub_dag (dag_state_api cx) l st = Some (st1, bs)" "linearize_sub_dag (dag_state_api cx) l t = Some (t1, bs)"
    using linearize_same [OF ready leader same_cx(2) same] by blast
  have lookup: "ds_lookup st1 = ds_lookup st" "ds_lookup t1 = ds_lookup t"
    using linearize_ready [OF ready(1) leader(1)] linearize_ready [OF ready(2) leader(2), unfolded same_cx(2)] lin by auto
  have median: "median_timestamp_by_stake cx' = median_timestamp_by_stake cx"
    unfolding fun_eq_iff median_timestamp_by_stake_def same_cx(1) by blast
  have "calculate_commit_timestamp (dag_state_api cx') cx' t1 l ts = calculate_commit_timestamp (dag_state_api cx) cx st1 l ts" for ts
    using calculate_commit_timestamp_eq [of st1 D l cx ts] calculate_commit_timestamp_eq [of t1 D l cx' ts]
      chain_readyD(6) [OF ready(1)] chain_readyD(6) [OF ready(2)] leader median lookup
    by (simp add: leader_ready_def)
  then show ?thesis
    using run lin last_commit_cong [of t st] same same_cx(2)
    by (auto simp: collect_sub_dag_and_commit_def Let_def same_commits_def elim!: bind_SomeE)
qed

lemma handle_commit_step_same:
  assumes ready: "chain_ready cx D st" "chain_ready cx' D t" and leader: "leader_ready st l" "leader_ready t l"
    and same_cx: "cx_committee cx' = cx_committee cx" "dag_state_api cx' = dag_state_api cx" and same: "same_commits cx st t"
    and codec: "codec_total K"
  obtains st' t' sd c where "handle_commit_step K cx now (st, acc) l = Some (st', acc @ [sd])"
    "handle_commit_step K cx' now' (t, acc) l = Some (t', acc @ [sd])" "chain_ready cx D st'" "chain_ready cx' D t'"
    "commit_made cx st l st' sd c" "commit_made cx' t l t' sd c" "same_commits cx st' t'"
proof -
  obtain st' sd c where s: "handle_commit_step K cx now (st, acc) l = Some (st', acc @ [sd])" "chain_ready cx D st'"
      "commit_made cx st l st' sd c" "\<exists>st1. collect_sub_dag_and_commit K cx st l = Some (st1, sd, c)"
    by (rule handle_commit_step_spec [OF ready(1) leader(1) codec])
  obtain t' sd' c' where t: "handle_commit_step K cx' now' (t, acc) l = Some (t', acc @ [sd'])" "chain_ready cx' D t'"
      "commit_made cx' t l t' sd' c'" "\<exists>t1. collect_sub_dag_and_commit K cx' t l = Some (t1, sd', c')"
    by (rule handle_commit_step_spec [OF ready(2) leader(2) codec])
  have eq: "sd' = sd" "c' = c" using collect_same [OF ready leader same_cx same] s(4) t(4) by blast+
  have "gc_round cx st \<le> gc_round cx st'"
    by (rule gc_round_mono) (use s(3) leader(1) in \<open>simp add: commit_made_def leader_ready_def\<close>)
  then have "same_commits cx st' t'" using same s(3) t(3) eq by (auto simp: same_commits_def commit_made_def)
  then show ?thesis using that s t eq by blast
qed

lemma handle_commit_steps_same:
  assumes same_cx: "cx_committee cx' = cx_committee cx" "dag_state_api cx' = dag_state_api cx" and codec: "codec_total K"
    and "chain_ready cx D st" "chain_ready cx' D t" "leaders_ready st ls" "leaders_ready t ls" "same_commits cx st t"
  shows "\<exists>st' t' sds. foldM (handle_commit_step K cx now) (st, acc) ls = Some (st', sds) \<and>
     foldM (handle_commit_step K cx' now') (t, acc) ls = Some (t', sds) \<and> same_commits cx st' t'"
  using assms(4-)
proof (induction ls arbitrary: st t acc)
  case (Cons l ls)
  have leader: "leader_ready st l" "leader_ready t l" using Cons.prems(3,4) by (simp_all add: leaders_ready_def)
  obtain st1 t1 sd c where step: "handle_commit_step K cx now (st, acc) l = Some (st1, acc @ [sd])"
    "handle_commit_step K cx' now' (t, acc) l = Some (t1, acc @ [sd])" "chain_ready cx D st1" "chain_ready cx' D t1"
    "commit_made cx st l st1 sd c" "commit_made cx' t l t1 sd c" "same_commits cx st1 t1"
    by (rule handle_commit_step_same [OF Cons.prems(1,2) leader same_cx Cons.prems(5) codec])
  from Cons.IH [OF step(3,4) leaders_ready_next [OF Cons.prems(3) step(5)] leaders_ready_next [OF Cons.prems(4) step(6)] step(7)]
  show ?case using step(1,2) by simp
qed auto

section \<open>From decisions to commits\<close>

text \<open>\<open>decided_leaders.into_iter().filter_map(|leader| leader.into_committed_block())\<close>\<close>

definition sequenced_leaders :: "decided_leader list \<Rightarrow> verified_block list" where
  "sequenced_leaders = List.map_filter into_committed_block"

lemma prefix_map_filter: "prefix (map f xs) (map f ys) \<Longrightarrow> prefix (List.map_filter f xs) (List.map_filter f ys)"
proof (induction xs arbitrary: ys)
  case (Cons x xs)
  then show ?case by (cases ys) (auto simp: List.map_filter_simps split: option.splits)
qed (simp add: List.map_filter_simps)

lemma same_decisions_prefix:
  assumes "\<And>i. i < length xs \<Longrightarrow> i < length ys \<Longrightarrow> f (xs ! i) = f (ys ! i)" and "length xs \<le> length ys"
  shows "prefix (map f xs) (map f ys)"
proof -
  have "map f xs = take (length xs) (map f ys)" by (rule nth_equalityI) (use assms in auto)
  then show ?thesis by (metis take_is_prefix)
qed

lemma handle_commit_prefix:
  assumes "handle_commit K cx now st (ls @ ls') = Some (st', sds')"
  shows "\<exists>st1 sds. handle_commit K cx now st ls = Some (st1, sds) \<and> prefix sds sds'"
proof -
  have grows: "foldM (handle_commit_step K cx now) acc ls' = Some acc' \<Longrightarrow> prefix (snd acc) (snd acc')" for acc acc' ls'
  proof (induction ls' arbitrary: acc)
    case (Cons l ls')
    then obtain acc1 where "handle_commit_step K cx now acc l = Some acc1" "prefix (snd acc1) (snd acc')"
      by (auto elim!: bind_SomeE)
    moreover from this(1) have "prefix (snd acc) (snd acc1)" by (auto simp: handle_commit_step_def elim!: bind_SomeE)
    ultimately show ?case by (meson prefix_order.trans)
  qed simp
  obtain acc where "foldM (handle_commit_step K cx now) (st, []) ls = Some acc" "foldM (handle_commit_step K cx now) acc ls' = Some (st', sds')"
    using assms by (auto simp: handle_commit_def foldM_append elim!: bind_SomeE)
  then show ?thesis using grows [of acc ls' "(st', sds')"] by (cases acc) (auto simp: handle_commit_def)
qed

lemma outputs_prefix:
  assumes same_cx: "cx_committee cx' = cx_committee cx" "dag_state_api cx' = dag_state_api cx" and codec: "codec_total K"
    and ready: "chain_ready cx D st" "chain_ready cx' D t" and leaders: "leaders_ready st ls" "leaders_ready t ls'"
    and same: "same_commits cx st t" and "prefix ls ls'"
    and run: "handle_commit K cx now st ls = Some (st', sds)" "handle_commit K cx' now' t ls' = Some (t', sds')"
  shows "prefix sds sds'"
proof -
  obtain r where r: "ls' = ls @ r" using assms(9) by (auto simp: prefix_def)
  then have "leaders_ready t ls" using leaders(2) by (auto simp: leaders_ready_def sorted_wrt_append)
  from handle_commit_steps_same [OF same_cx codec ready leaders(1) this same, of now "[]" now'] run(1)
  obtain t1 where "handle_commit K cx' now' t ls = Some (t1, sds)" by (auto simp: handle_commit_def)
  then show ?thesis using handle_commit_prefix [OF run(2) [unfolded r]] by auto
qed

lemma same_commits_sym: "same_commits cx st t \<Longrightarrow> dag_state_api cx' = dag_state_api cx \<Longrightarrow> same_commits cx' t st"
proof -
  assume same: "same_commits cx st t" and api: "dag_state_api cx' = dag_state_api cx"
  have "gc_round cx' t = gc_round cx st"
    using gc_round_cong [of t st cx] same arg_cong [OF api, of ba_gc_round] by (simp add: same_commits_def dag_state_api_def)
  then show ?thesis using same by (auto simp: same_commits_def)
qed

text \<open>Ancestors in round zero are the genesis blocks, which the block verifier checks.\<close>

definition genesis_known :: "dag_state \<Rightarrow> bool" where
  "genesis_known st \<longleftrightarrow> (\<forall>r b y. ds_lookup st r = Some b \<longrightarrow> y \<in> set (vb_ancestors b) \<longrightarrow> br_round y = 0 \<longrightarrow> ds_lookup st y \<noteq> None)"

lemma map_filter_rounds:
  assumes "\<And>i b. i < length xs \<Longrightarrow> into_committed_block (xs ! i) = Some b \<Longrightarrow> vb_round b = lo + i"
  shows "sorted_wrt (\<lambda>l l'. vb_round l < vb_round l') (List.map_filter into_committed_block xs) \<and>
     (\<forall>b \<in> set (List.map_filter into_committed_block xs). lo \<le> vb_round b)"
  using assms
proof (induction xs arbitrary: lo)
  case (Cons x xs)
  have "vb_round b = (lo + 1) + i" if "i < length xs" "into_committed_block (xs ! i) = Some b" for i b
    using Cons.prems [of "Suc i" b] that by simp
  from Cons.IH [OF this] Cons.prems [of 0] show ?case
    by (auto simp: List.map_filter_simps split: option.splits)
qed (simp add: List.map_filter_simps)

lemma sequenced_ready:
  assumes dag: "dag_ok (cx_committee cx) Byz D" and view: "committer_view cx D st" and single: "single_leader cx"
    and elections: "elections_ok R cx ls" and low: "last_commit_round st \<le> slot_round last_decided"
    and decide: "try_decide R cx ls st (core_committer cx) last_decided = Some out"
    and genesis: "genesis_known st" and depth: "0 < pc_gc_depth (cx_protocol_config cx)"
  shows "leaders_ready st (sequenced_leaders (take n out))"
proof -
  let ?lo = "slot_round last_decided + 1" and ?ls = "sequenced_leaders (take n out)"
  note known = decided_known(2) [OF dag view single elections low decide]
  have rounds: "vb_round b = ?lo + i" if "i < length (take n out)" "into_committed_block (take n out ! i) = Some b" for i b
    using known [of i b] that by simp
  have "leader_ready st l" if l: "l \<in> set ?ls" for l
  proof -
    obtain i where i: "i < length out" "into_committed_block (out ! i) = Some l"
      using l by (fastforce simp: sequenced_leaders_def List.map_filter_def in_set_conv_nth)
    have lk: "ds_lookup st (vb_reference l) = Some l" "vb_round l = ?lo + i" using known [OF i] by simp_all
    have "ds_lookup st y \<noteq> None" if y: "y \<in> set (vb_ancestors l)" "br_round y + 1 = vb_round l" for y
    proof (cases "br_round y = 0")
      case True
      then show ?thesis using genesis lk(1) y(1) by (auto simp: genesis_known_def)
    next
      case False
      then have "gc_round cx st < br_round y"
        using depth y(2) lk(2) low unfolding gc_round_def calculate_gc_round_def by linarith
      then show ?thesis using view_complete [OF view lk(1) y(1)] by blast
    qed
    then show ?thesis using lk low by (simp add: leader_ready_def)
  qed
  then show ?thesis using map_filter_rounds [of "take n out" ?lo, OF rounds] by (simp add: leaders_ready_def sequenced_leaders_def)
qed

section \<open>An example\<close>

text \<open>The two leaders of \<open>example_decide\<close>, committed by the validators of the agreement example.\<close>

definition example_codec :: commit_codec where
  "example_codec = \<lparr>co_serialize = (\<lambda>c. Inr [commit_index_of c]), co_hash = (\<lambda>bs. of_nat (hd bs))\<rparr>"

lemma example_codec_total: "codec_total example_codec"
  by (simp add: codec_total_def example_codec_def)

definition unmarked :: "dag_state \<Rightarrow> bool" where
  "unmarked st = fmpred (\<lambda>r bi. \<not> bi_committed bi) (ds_recent_blocks st)"

lemma unmarked_committed: "unmarked st \<Longrightarrow> committed_refs st = {}"
  by (auto simp: unmarked_def committed_refs_def is_committed_def)

definition example_fresh :: "nat \<Rightarrow> bool" where
  "example_fresh n = (case dag_run example_crypto example_context 5 (example_accepts n) of
     Some st \<Rightarrow> unmarked st \<and> ds_last_commit st = None \<and>
       list_all (\<lambda>b. list_all (\<lambda>y. ds_lookup st y \<noteq> None) (vb_ancestors b)) (example_layers n)
   | None \<Rightarrow> False)"

lemma example_fresh_runs: "example_fresh 3" "example_fresh 4"
  by code_simp+

lemma example_chain_ready:
  assumes "run_check n" and "example_fresh n" and "n \<le> 4"
  obtains st where "dag_run example_crypto example_context 5 (example_accepts n) = Some st"
    "validator_view example_crypto example_context example_dag (example_accepts n) st"
    "chain_ready example_context example_dag st" "genesis_known st" "ds_last_commit st = None" "committed_refs st = {}"
proof -
  obtain st where st: "dag_run example_crypto example_context 5 (example_accepts n) = Some st"
    "validator_view example_crypto example_context example_dag (example_accepts n) st"
    by (rule example_run_view [OF assms(1,3)])
  have fresh: "committed_refs st = {}" "ds_last_commit st = None" and anc: "\<forall>b \<in> set (example_layers n). \<forall>y \<in> set (vb_ancestors b). ds_lookup st y \<noteq> None"
    using assms(2) st(1) by (auto simp: example_fresh_def list_all_iff unmarked_committed)
  have "committer_view example_context example_dag st" by (rule validator_view_committer [OF st(2)])
  then have "chain_ready example_context example_dag st"
    using example_dag_ok fresh(1) by (simp add: chain_ready_def committer_view_def dag_ok_def)
  moreover have "genesis_known st"
    unfolding genesis_known_def
    using reach_known(2) [OF dag_run_reach [OF context_ok_example st(1)]] anc
    by (fastforce simp: accepted_example [symmetric] accepted_blocks_iff)
  ultimately show ?thesis using that st fresh by blast
qed

definition example_leaders :: "verified_block list" where
  "example_leaders = [example_layer 1 ! 0, example_layer 2 ! 0]"

lemma example_leaders_rounds: "map vb_round example_leaders = [1, 2]"
  by code_simp

lemma example_leaders_known:
  assumes "dag_run example_crypto example_context 5 (example_accepts 4) = Some st"
  shows "leaders_ready st example_leaders"
proof -
  have "case dag_run example_crypto example_context 5 (example_accepts 4) of
      Some st \<Rightarrow> list_all (\<lambda>l. last_commit_round st < vb_round l \<and> ds_lookup st (vb_reference l) = Some l \<and>
         list_all (\<lambda>y. ds_lookup st y \<noteq> None) (vb_ancestors l)) example_leaders
    | None \<Rightarrow> False" by code_simp
  then show ?thesis using assms example_leaders_rounds
    by (auto simp: leaders_ready_def leader_ready_def list_all_iff example_leaders_def)
qed

section \<open>Properties\<close>

text \<open>
  C5: \<open>linearize_sub_dag\<close> on the DAG state never panics and commits exactly the blocks above the
  garbage collection round that the leader reaches and that are not committed yet, each once,
  sorted by round and author, and marks them. The walk with its stack and its early marks
  neither misses a block nor takes one twice.
\<close>

theorem linearize_sub_dag_exact:
  assumes "chain_ready cx D st" and "leader_ready st l"
  shows "\<exists>st' bs. linearize_sub_dag (dag_state_api cx) l st = Some (st', bs) \<and>
     vb_reference ` set bs =
       {r. linked_to (get_block st) (gc_round cx st) {vb_reference l} r \<and> gc_round cx st < br_round r \<and> is_committed st r \<noteq> Some True} \<and>
     distinct (map vb_reference bs) \<and> sorted (map (\<lambda>b. (vb_round b, vb_author b)) bs) \<and>
     (\<forall>r. is_committed st' r = Some True \<longleftrightarrow> is_committed st r = Some True \<or> r \<in> vb_reference ` set bs) \<and>
     get_block st' = get_block st"
proof -
  have get: "get_block st = ds_lookup st" for st by (rule ext) (rule get_block_lookup)
  show ?thesis
    by (rule linearize_ready [OF assms]) (auto simp: get committed_refs_def set_eq_iff)
qed

theorem linearize_sub_dag_exact_witness:
  "\<exists>st st' bs. dag_run example_crypto example_context 5 (example_accepts 4) = Some st \<and>
     linearize_sub_dag (dag_state_api example_context) (example_leaders ! 1) st = Some (st', bs) \<and>
     (\<forall>r \<in> vb_reference ` set bs. is_committed st' r = Some True)"
proof -
  obtain st where st: "dag_run example_crypto example_context 5 (example_accepts 4) = Some st"
    "chain_ready example_context example_dag st"
    by (rule example_chain_ready [OF run_checks(2) example_fresh_runs(2)]) simp
  have "leader_ready st (example_leaders ! 1)"
    using example_leaders_known [OF st(1)] by (simp add: leaders_ready_def example_leaders_def)
  from linearize_sub_dag_exact [OF st(2) this] st(1) show ?thesis by metis
qed

text \<open>
  C6: \<open>handle_commit\<close> makes a chain of commits: for leaders in rounds above the last committed one it
  never panics and makes one commit per leader, with consecutive indices, each holding the digest of
  the one before and a timestamp not below it. The sub-dags are disjoint, hold no block
  committed before, and every block of them is marked; the state is ready for the next leaders.
\<close>

theorem handle_commit_chain:
  assumes "chain_ready cx D st" and "leaders_ready st ls" and "codec_total K"
  shows "\<exists>st' sds cs. handle_commit K cx now st ls = Some (st', sds) \<and> chain_ready cx D st' \<and>
     ds_commits_to_write st' = ds_commits_to_write st @ cs \<and>
     map tc_leader cs = map vb_reference ls \<and> map sd_commit_ref sds = map tc_reference cs \<and>
     map tc_blocks cs = map (map vb_reference \<circ> sd_blocks) sds \<and>
     map tc_index cs = [last_commit_index st + 1..<last_commit_index st + 1 + length ls] \<and>
     map tc_previous_digest cs = butlast (last_commit_digest st # map tc_digest cs) \<and>
     sorted (last_commit_timestamp_ms st # map tc_timestamp_ms cs) \<and>
     distinct (map vb_reference (concat (map sd_blocks sds))) \<and>
     vb_reference ` set (concat (map sd_blocks sds)) \<inter> committed_refs st = {} \<and>
     committed_refs st' = committed_refs st \<union> vb_reference ` set (concat (map sd_blocks sds))"
proof -
  obtain st' sds cs where run: "handle_commit K cx now st ls = Some (st', sds)" "chain_ready cx D st'"
    and made: "commits_made cx st ls st' sds cs"
    by (rule handle_commit_spec [OF assms(3,1,2)])
  show ?thesis
    by (rule exI [of _ st'], rule exI [of _ sds], rule exI [of _ cs])
      (use run commits_chained [OF made] sub_dags_partition [OF made] in blast)
qed

theorem handle_commit_chain_witness:
  "\<exists>st st' sds cs. dag_run example_crypto example_context 5 (example_accepts 4) = Some st \<and>
     handle_commit example_codec example_context 9 st example_leaders = Some (st', sds) \<and> map tc_index cs = [1, 2] \<and>
     ds_commits_to_write st' = ds_commits_to_write st @ cs"
proof -
  obtain st where st: "dag_run example_crypto example_context 5 (example_accepts 4) = Some st"
    "chain_ready example_context example_dag st" "ds_last_commit st = None"
    by (rule example_chain_ready [OF run_checks(2) example_fresh_runs(2)]) simp
  have "[last_commit_index st + 1..<last_commit_index st + 1 + length example_leaders] = [1, 2]"
    using st(3) by (simp add: last_commit_index_def example_leaders_def upt_rec)
  then show ?thesis
    using handle_commit_chain [OF st(2) example_leaders_known [OF st(1)] example_codec_total, of 9] st(1) by metis
qed

text \<open>
  C7: The timestamp of a commit is the stake-weighted median of the timestamps of the leader's parents,
  raised to that of the last commit. If the authorities in \<open>Byz\<close> hold less than the validity threshold,
  the median lies between the timestamps of two parents of other authorities.
\<close>

theorem commit_timestamp_bounded:
  assumes "chain_ready cx D st" and "leader_ready st l"
    and "\<not> reached_validity (cx_committee cx) (weight (cx_committee cx) Byz)"
  shows "\<exists>ts b b'. calculate_commit_timestamp (dag_state_api cx) cx st l last_timestamp = Some (max ts last_timestamp) \<and>
     vb_reference b \<in> set (vb_ancestors l) \<and> vb_round b + 1 = vb_round l \<and> vb_author b \<notin> Byz \<and> vb_timestamp_ms b \<le> ts \<and>
     vb_reference b' \<in> set (vb_ancestors l) \<and> vb_round b' + 1 = vb_round l \<and> vb_author b' \<notin> Byz \<and> ts \<le> vb_timestamp_ms b'"
proof -
  note inv = chain_readyD [OF assms(1)]
  have l: "D (vb_reference l) = Some l" "0 < vb_round l"
    and parents: "\<forall>y \<in> set (vb_ancestors l). br_round y + 1 = vb_round l \<longrightarrow> ds_lookup st y \<noteq> None"
    using assms(2) inv(6) by (auto simp: leader_ready_def)
  have member: "vb_reference b \<in> set (vb_ancestors l) \<and> vb_round b + 1 = vb_round l" if b: "b \<in> set (parent_blocks D l)" for b
  proof -
    obtain y where y: "b = the (D y)" "y \<in> set (vb_ancestors l)" "br_round y + 1 = vb_round l"
      using b by (auto simp: parent_blocks_def)
    then obtain v where "D y = Some v" using parents inv(6) by blast
    then show ?thesis using y valid_dagD(1,2) [OF inv(2)] by simp
  qed
  obtain ts where "calculate_commit_timestamp (dag_state_api cx) cx st l last_timestamp = Some (max ts last_timestamp)"
    "(\<exists>b \<in> set (parent_blocks D l). vb_author b \<notin> Byz \<and> vb_timestamp_ms b \<le> ts) \<and>
     (\<exists>b \<in> set (parent_blocks D l). vb_author b \<notin> Byz \<and> ts \<le> vb_timestamp_ms b)"
    using calculate_commit_timestamp_spec [OF inv(2) l(1) ds_invD(1) [OF inv(1)] l(2) inv(6) parents] assms(3) by metis
  then show ?thesis using member by blast
qed

theorem commit_timestamp_bounded_witness:
  "\<exists>st ts. dag_run example_crypto example_context 5 (example_accepts 4) = Some st \<and>
     calculate_commit_timestamp (dag_state_api example_context) example_context st (example_leaders ! 1) 0 = Some (max ts 0)"
proof -
  obtain st where st: "dag_run example_crypto example_context 5 (example_accepts 4) = Some st"
    "chain_ready example_context example_dag st"
    by (rule example_chain_ready [OF run_checks(2) example_fresh_runs(2)]) simp
  have "leader_ready st (example_leaders ! 1)"
    using example_leaders_known [OF st(1)] by (simp add: leaders_ready_def example_leaders_def)
  from commit_timestamp_bounded [OF st(2) this, of "{3}" 0] st(1) show ?thesis
    by (auto simp: reached_validity_def example_context_def)
qed

text \<open>
  C1: Total order. Two validators that have made the same commits decide leaders, each on its own
  part of the DAG and up to its own limit, and commit the sequenced ones. Neither panics, and one of
  them outputs a prefix of the sub-dags of the other: the same leaders, blocks, order, timestamps
  and commit references.
\<close>

theorem commits_totally_ordered:
  assumes dag: "dag_ok (cx_committee cx) Byz D"
    and same: "cx_committee cx' = cx_committee cx" "cx_protocol_config cx' = cx_protocol_config cx"
    and view: "validator_view C cx D ops st" "validator_view C' cx' D ops' t"
    and single: "single_leader cx" and depth: "0 < pc_gc_depth (cx_protocol_config cx)" and elections: "elections_ok R cx ls"
    and ready: "chain_ready cx D st" "chain_ready cx' D t" and genesis: "genesis_known st" "genesis_known t"
    and commits: "same_commits cx st t" and low: "last_commit_round st \<le> slot_round last_decided" and codec: "codec_total K"
  shows "\<exists>out out' st' t' sds sds'. try_decide R cx ls st (core_committer cx) last_decided = Some out \<and>
     try_decide R cx' ls t (core_committer cx') last_decided = Some out' \<and>
     handle_commit K cx now st (sequenced_leaders (take n out)) = Some (st', sds) \<and>
     handle_commit K cx' now' t (sequenced_leaders (take n' out')) = Some (t', sds') \<and>
     (prefix sds sds' \<or> prefix sds' sds)"
proof -
  have api: "dag_state_api cx' = dag_state_api cx"
    by (simp add: dag_state_api_def fun_eq_iff gc_round_def calculate_gc_round_def same(2))
  have single': "single_leader cx'" using single same(2) by (simp add: single_leader_def)
  have elections': "elections_ok R cx' ls" using elections elect_leader_cong [OF same(1), of R ls] same(1) by (simp add: elections_ok_def)
  have low': "last_commit_round t \<le> slot_round last_decided"
    using low commits last_commit_cong(4) [of t st] by (simp add: same_commits_def)
  note views = validator_view_committer [OF view(1)] validator_view_committer [OF view(2)]
  obtain out where out: "try_decide R cx ls st (core_committer cx) last_decided = Some out"
    by (rule try_decide_spec [OF dag views(1) single elections low]) simp
  obtain out' where out': "try_decide R cx' ls t (core_committer cx') last_decided = Some out'"
    by (rule try_decide_spec [OF dag [folded same(1)] views(2) single' elections' low']) simp
  let ?ls = "sequenced_leaders (take n out)" and ?ls' = "sequenced_leaders (take n' out')"
  have leaders: "leaders_ready st ?ls" "leaders_ready t ?ls'"
    by (rule sequenced_ready [OF dag views(1) single elections low out genesis(1) depth])
      (rule sequenced_ready [OF dag [folded same(1)] views(2) single' elections' low' out' genesis(2)], simp add: depth same(2))
  have alike: "into_committed_block (out ! i) = into_committed_block (out' ! i)" if "i < length out" "i < length out'" for i
    using decided_alike [OF dag same(1) views single single' elections low low' out out' that] by simp
  have "prefix (map into_committed_block (take n out)) (map into_committed_block (take n' out')) \<or>
      prefix (map into_committed_block (take n' out')) (map into_committed_block (take n out))"
    using same_decisions_prefix [of "take n out" "take n' out'" into_committed_block]
      same_decisions_prefix [of "take n' out'" "take n out" into_committed_block] alike
      linear [of "length (take n out)" "length (take n' out')"] by auto
  then have "prefix ?ls ?ls' \<or> prefix ?ls' ?ls" unfolding sequenced_leaders_def using prefix_map_filter by blast
  obtain st' sds where st': "handle_commit K cx now st ?ls = Some (st', sds)" by (rule handle_commit_spec [OF codec ready(1) leaders(1)])
  obtain t' sds' where t': "handle_commit K cx' now' t ?ls' = Some (t', sds')" by (rule handle_commit_spec [OF codec ready(2) leaders(2)])
  have "prefix sds sds' \<or> prefix sds' sds"
    using \<open>prefix ?ls ?ls' \<or> prefix ?ls' ?ls\<close>
      outputs_prefix [OF same(1) api codec ready leaders commits _ st' t']
      outputs_prefix [OF same(1) [symmetric] api [symmetric] codec ready(2,1) leaders(2,1) same_commits_sym [OF commits api] _ t' st']
    by blast
  then show ?thesis using out out' st' t' by blast
qed

theorem commits_totally_ordered_witness:
  "\<exists>st t out out' st' t' sds sds'. dag_run example_crypto example_context 5 (example_accepts 4) = Some st \<and>
     dag_run example_crypto example_context 5 (example_accepts 3) = Some t \<and>
     try_decide example_rng example_context example_schedule st (core_committer example_context) (Slot 0 0) = Some out \<and>
     try_decide example_rng example_context example_schedule t (core_committer example_context) (Slot 0 0) = Some out' \<and>
     handle_commit example_codec example_context 9 st (sequenced_leaders (take 5 out)) = Some (st', sds) \<and>
     handle_commit example_codec example_context 8 t (sequenced_leaders (take 5 out')) = Some (t', sds') \<and>
     (prefix sds sds' \<or> prefix sds' sds)"
proof -
  obtain st where st: "dag_run example_crypto example_context 5 (example_accepts 4) = Some st"
    "validator_view example_crypto example_context example_dag (example_accepts 4) st"
    "chain_ready example_context example_dag st" "genesis_known st" "ds_last_commit st = None" "committed_refs st = {}"
    by (rule example_chain_ready [OF run_checks(2) example_fresh_runs(2)]) simp
  obtain t where t: "dag_run example_crypto example_context 5 (example_accepts 3) = Some t"
    "validator_view example_crypto example_context example_dag (example_accepts 3) t"
    "chain_ready example_context example_dag t" "genesis_known t" "ds_last_commit t = None" "committed_refs t = {}"
    by (rule example_chain_ready [OF run_checks(1) example_fresh_runs(1)]) simp
  have "dag_ok (cx_committee example_context) {} example_dag" using example_dag_ok by (simp add: example_context_def)
  moreover have "0 < pc_gc_depth (cx_protocol_config example_context)" by code_simp
  moreover have "same_commits example_context st t" using st(5,6) t(5,6) by (simp add: same_commits_def)
  moreover have "last_commit_round st \<le> slot_round (Slot 0 0)" using st(5) by (simp add: last_commit_round_def)
  ultimately show ?thesis
    using commits_totally_ordered [OF _ refl refl st(2) t(2) example_single _ example_elections st(3) t(3) st(4) t(4) _ _ example_codec_total, of "{}" "Slot 0 0" 9 5 8 5]
      st(1) t(1) by blast
qed

end
