(* ===== verification/Block_Acceptance.thy ===== *)
theory Block_Acceptance
  imports Suspension Commit_Chain
begin

text \<open>
  The block manager at work on the DAG state: none of its operations panics, each keeps the
  invariant, and so the DAG state of a running validator is complete above its garbage collection round, but for
  blocks of certified commits, which is what the committer and the linearizer rely on.
\<close>

section \<open>The manager and the DAG state\<close>

definition manager_ok :: "consensus_context \<Rightarrow> (block_ref \<rightharpoonup> verified_block) \<Rightarrow> block_ref set \<Rightarrow> block_manager \<Rightarrow> dag_state \<Rightarrow> bool" where
  "manager_ok cx D E bm st \<longleftrightarrow> dag_part cx D st \<and> bm_inv D E (gc_round cx st) (dom (ds_lookup st)) {} bm \<and>
     length (bm_received_block_rounds bm) = committee_size (cx_committee cx) \<and>
     (\<forall>y. y |\<in>| fmdom (bm_missing_ancestors bm) \<longrightarrow> br_author y < committee_size (cx_committee cx))"

lemma manager_okD:
  assumes "manager_ok cx D E bm st"
  shows "dag_part cx D st" "bm_inv D E (gc_round cx st) (dom (ds_lookup st)) {} bm"
    "length (bm_received_block_rounds bm) = committee_size (cx_committee cx)"
    "\<And>y. y |\<in>| fmdom (bm_missing_ancestors bm) \<Longrightarrow> br_author y < committee_size (cx_committee cx)"
  using assms by (simp_all add: manager_ok_def)

text \<open>What a step does to the blocks: \<open>new\<close> ones enter the DAG state, nothing received is lost.\<close>

definition grows :: "consensus_context \<Rightarrow> (block_ref \<rightharpoonup> verified_block) \<Rightarrow> block_manager \<Rightarrow> dag_state \<Rightarrow> verified_block list \<Rightarrow> block_manager \<Rightarrow> dag_state \<Rightarrow> bool" where
  "grows cx D bm st new bm' st' \<longleftrightarrow> accepting cx D st st' \<and> ds_last_commit st' = ds_last_commit st \<and>
     dom (ds_lookup st') = dom (ds_lookup st) \<union> vb_reference ` set new \<and>
     vb_reference ` set new \<inter> dom (ds_lookup st) = {} \<and> distinct (map vb_reference new) \<and>
     fset (fmdom (bm_suspended_blocks bm)) \<subseteq> fset (fmdom (bm_suspended_blocks bm')) \<union> dom (ds_lookup st')"

lemma accept_with_children_spec:
  assumes part: "dag_part cx D st" and gc: "gc = gc_round cx st" and inv: "bm_inv D E gc (dom (ds_lookup st) \<union> vb_reference ` set bs) {r} bm"
    and bs: "\<forall>b \<in> set bs. D (vb_reference b) = Some b \<and> 0 < vb_round b"
    and len: "length (bm_received_block_rounds bm) = committee_size (cx_committee cx)"
    and authors: "\<And>y. y |\<in>| fmdom (bm_missing_ancestors bm) \<Longrightarrow> br_author y < committee_size (cx_committee cx)"
  obtains bm' st' out where "accept_with_children cx now (bm, st, accepted, missing) r bs = Some (bm', st', accepted @ bs @ out, missing)"
    "manager_ok cx D E bm' st'" "ds_last_commit st' = ds_last_commit st"
    "dom (ds_lookup st') = dom (ds_lookup st) \<union> vb_reference ` set (bs @ out)" "distinct (map vb_reference out)"
    "\<forall>b \<in> set out. vb_reference b \<notin> dom (ds_lookup st) \<union> vb_reference ` set bs"
    "fset (fmdom (bm_suspended_blocks bm')) = fset (fmdom (bm_suspended_blocks bm)) - vb_reference ` set out" "accepting cx D st st'"
proof -
  obtain bm' out where run: "try_unsuspend_children_blocks cx bm r = Some (bm', out)"
    "bm_inv D E gc (dom (ds_lookup st) \<union> vb_reference ` set bs \<union> vb_reference ` set out) {} bm'"
    "distinct (map vb_reference out)"
    "\<forall>b \<in> set out. D (vb_reference b) = Some b \<and> 0 < vb_round b \<and> vb_reference b \<notin> dom (ds_lookup st) \<union> vb_reference ` set bs"
    "fmdom (bm_missing_ancestors bm') |\<subseteq>| fmdom (bm_missing_ancestors bm)" "r |\<notin>| fmdom (bm_missing_ancestors bm')"
    "fset (fmdom (bm_suspended_blocks bm')) = fset (fmdom (bm_suspended_blocks bm)) - vb_reference ` set out"
    "bm_received_block_rounds bm' = bm_received_block_rounds bm"
    by (rule children_spec [OF dag_partD(2) [OF part] inv])
  have "\<forall>b \<in> set (bs @ out). D (vb_reference b) = Some b \<and> 0 < vb_round b" using bs run(4) by auto
  from accept_blocks_spec [OF part this, of now] obtain st' where
    st': "accept_blocks cx st (map (Pair now) (bs @ out)) = Some st'" "dag_part cx D st'"
      "dom (ds_lookup st') = dom (ds_lookup st) \<union> vb_reference ` set (bs @ out)" "ds_last_commit st' = ds_last_commit st" "accepting cx D st st'" by blast
  have "dom (ds_lookup st) \<union> vb_reference ` set bs \<union> vb_reference ` set out = dom (ds_lookup st')" unfolding st'(3) by auto
  moreover have "gc_round cx st' = gc" using gc_round_cong [OF st'(4), of cx] gc by simp
  moreover have "br_author y < committee_size (cx_committee cx)" if "y |\<in>| fmdom (bm_missing_ancestors bm')" for y
    using run(5) that authors by blast
  ultimately have "manager_ok cx D E bm' st'" using run(2,8) st'(2) len by (simp add: manager_ok_def)
  moreover have "accept_with_children cx now (bm, st, accepted, missing) r bs = Some (bm', st', accepted @ bs @ out, missing)"
    using run(1) st'(1) by (simp add: accept_with_children_def)
  ultimately show ?thesis using that st'(3-5) run(3,4,7) by blast
qed

lemma update_block_received_metrics_spec:
  assumes "length (bm_received_block_rounds bm) = committee_size (cx_committee cx)" and "vb_author b < committee_size (cx_committee cx)"
  obtains rounds where "update_block_received_metrics cx bm b = Some (bm\<lparr>bm_received_block_rounds := rounds\<rparr>)"
    "length rounds = committee_size (cx_committee cx)"
  using assms by (auto simp: update_block_received_metrics_def Let_def committee_authority_def committee_size_def)

lemma manager_ok_received:
  "length rounds = committee_size (cx_committee cx) \<Longrightarrow> manager_ok cx D E bm st \<Longrightarrow> manager_ok cx D E (bm\<lparr>bm_received_block_rounds := rounds\<rparr>) st"
  by (simp add: manager_ok_def bm_inv_def)

section \<open>Receiving a block\<close>

lemma try_accept_one_block_eq:
  assumes "vb_reference b |\<notin>| fmdom (bm_suspended_blocks bm)" and "contains_block st (vb_reference b) = Some False"
    and "\<not> vb_round b \<le> gc_round cx st" and "committee_authority (cx_committee cx) (vb_author b) \<noteq> None"
    and "contains_blocks st (filter (\<lambda>a. br_round a = GENESIS_ROUND \<or> gc_round cx st < br_round a) (vb_ancestors b)) = Some found"
    and "foldM (add_missing_ancestor cx (vb_reference b)) (bm, {||}, {||})
      (zip found (filter (\<lambda>a. br_round a = GENESIS_ROUND \<or> gc_round cx st < br_round a) (vb_ancestors b))) = Some (bm1, missing, fetch)"
  shows "try_accept_one_block cx bm st b = Some (
     if missing \<noteq> {||} then (bm1\<lparr>bm_missing_blocks := bm_missing_blocks bm1 |-| {|vb_reference b|},
       bm_suspended_blocks := fmupd (vb_reference b) \<lparr>sb_block = b, sb_missing_ancestors = missing\<rparr> (bm_suspended_blocks bm1)\<rparr>, Suspended fetch)
     else (bm1\<lparr>bm_missing_blocks := bm_missing_blocks bm1 |-| {|vb_reference b|}\<rparr>, Accepted b))"
  using assms by (auto simp: try_accept_one_block_def Let_def)

text \<open>The four ways a received block can go.\<close>

lemma try_accept_one_block_cases:
  assumes ok: "manager_ok cx D E bm st" and b: "D (vb_reference b) = Some b"
  obtains (processed) "try_accept_one_block cx bm st b = Some (bm, Processed)"
      "vb_reference b \<in> fset (fmdom (bm_suspended_blocks bm)) \<union> dom (ds_lookup st)"
  | (skipped) "try_accept_one_block cx bm st b = Some (bm, Skipped)" "vb_round b \<le> gc_round cx st"
  | (suspended) bm' fetch where "try_accept_one_block cx bm st b = Some (bm', Suspended fetch)" "manager_ok cx D E bm' st"
      "fmdom (bm_suspended_blocks bm') = finsert (vb_reference b) (fmdom (bm_suspended_blocks bm))"
  | (accepted) bm1 where "try_accept_one_block cx bm st b = Some (bm1, Accepted b)" "bm1 = bm\<lparr>bm_missing_blocks := bm_missing_blocks bm |-| {|vb_reference b|}\<rparr>"
      "vb_reference b |\<notin>| fmdom (bm_suspended_blocks bm)" "vb_reference b \<notin> dom (ds_lookup st)" "gc_round cx st < vb_round b"
      "\<forall>y \<in> set (vb_ancestors b). gc_round cx st < br_round y \<longrightarrow> y \<in> dom (ds_lookup st)"
proof -
  let ?r = "vb_reference b" and ?gc = "gc_round cx st" and ?S = "bm_suspended_blocks bm" and ?K = "dom (ds_lookup st)"
  let ?ys = "filter (\<lambda>a. br_round a = GENESIS_ROUND \<or> ?gc < br_round a) (vb_ancestors b)"
  note okD = manager_okD [OF ok]
  note part = dag_partD [OF okD(1)]
  note valid = valid_dagD [OF part(2) b]
  have author: "vb_author b < committee_size (cx_committee cx)" using valid(4) by simp
  have "contains_block st ?r = Some (?r \<in> ?K)" using contains_block_lookup [OF part(1)] author by auto
  then have known: "(if ?r |\<in>| fmdom ?S then Some True else contains_block st ?r) = Some (?r |\<in>| fmdom ?S \<or> ?r \<in> ?K)" by simp
  have authority: "committee_authority (cx_committee cx) (vb_author b) \<noteq> None"
    using author by (simp add: committee_authority_def committee_size_def)
  show thesis
  proof (cases "(?r |\<in>| fmdom ?S \<or> ?r \<in> ?K) \<or> vb_round b \<le> ?gc")
    case True
    then show thesis
      using processed skipped known authority by (cases "?r |\<in>| fmdom ?S \<or> ?r \<in> ?K") (auto simp: try_accept_one_block_def Let_def)
  next
    case False
    have ys: "\<forall>y \<in> set ?ys. br_author y < committee_size (cx_committee cx)" using valid(5) by simp
    have found: "contains_blocks st ?ys = Some (map (\<lambda>y. y \<in> ?K) ?ys)"
      using contains_blocks_lookup [OF part(1) ys] by (auto simp: dom_def)
    define Y where "Y = {y \<in> set ?ys. y \<notin> ?K}"
    from add_missing_ancestors [OF ys, of ?r bm "{||}" "{||}" "\<lambda>y. y \<in> ?K"] obtain M' B' where
      fold: "foldM (add_missing_ancestor cx ?r) (bm, {||}, {||}) (zip (map (\<lambda>y. y \<in> ?K) ?ys) ?ys) =
        Some (bm\<lparr>bm_missing_ancestors := M', bm_missing_blocks := B'\<rparr>, fset_of_list (filter (\<lambda>y. y \<notin> ?K) ?ys),
          fset_of_list (filter (\<lambda>y. y \<notin> ?K \<and> y |\<notin>| fmdom ?S) ?ys))"
      and M': "fmlookup M' = with_child ?r Y (bm_missing_ancestors bm)"
      and B': "fset B' = fset (bm_missing_blocks bm) \<union> {y \<in> Y. y |\<notin>| fmdom ?S}" by (auto simp: Y_def)
    have here: "contains_block st ?r = Some False" using \<open>contains_block st ?r = Some (?r \<in> ?K)\<close> False by simp
    have fresh: "?r |\<notin>| fmdom ?S" "\<not> vb_round b \<le> ?gc" using False by auto
    note run = try_accept_one_block_eq [OF fresh(1) here fresh(2) authority found fold]
    have enough: "\<forall>y \<in> set (vb_ancestors b). ?gc < br_round y \<longrightarrow> y \<in> ?K \<or> y \<in> Y" by (auto simp: Y_def)
    show thesis
    proof (cases "Y = {}")
      case True
      have "M' = bm_missing_ancestors bm" by (rule fmap_ext) (simp add: M' True with_child_def)
      moreover have "B' = bm_missing_blocks bm" using B' True by (auto simp: fset_eq_iff)
      moreover have "fset_of_list (filter (\<lambda>y. y \<notin> ?K) ?ys) = {||}" using True by (auto simp: Y_def filter_empty_conv)
      ultimately have "try_accept_one_block cx bm st b = Some (bm\<lparr>bm_missing_blocks := bm_missing_blocks bm |-| {|?r|}\<rparr>, Accepted b)"
        using run by simp
      then show thesis by (rule accepted) (use False True enough in auto)
    next
      case Y: False
      let ?missing = "fset_of_list (filter (\<lambda>y. y \<notin> ?K) ?ys)"
      let ?bm = "bm\<lparr>bm_missing_ancestors := M', bm_missing_blocks := B' |-| {|?r|},
        bm_suspended_blocks := fmupd ?r \<lparr>sb_block = b, sb_missing_ancestors = ?missing\<rparr> ?S\<rparr>"
      have missing: "fset ?missing = Y" by (auto simp: Y_def fset_of_list.rep_eq)
      have "?missing \<noteq> {||}" using Y missing by auto
      then have run': "try_accept_one_block cx bm st b = Some (?bm, Suspended (fset_of_list (filter (\<lambda>y. y \<notin> ?K \<and> y |\<notin>| fmdom ?S) ?ys)))"
        using run by simp
      have lower: "\<forall>y \<in> set (vb_ancestors b). br_round y < br_round ?r" using valid(5) by blast
      have sub: "Y \<subseteq> set (vb_ancestors b) - ?K" by (auto simp: Y_def)
      have "bm_inv D E ?gc ?K {} ?bm"
        by (rule bm_inv_suspend [OF okD(2) b _ fresh(1) lower Y sub enough missing M' B']) (use False in blast)
      moreover have "br_author y < committee_size (cx_committee cx)" if "y |\<in>| fmdom M'" for y
        using that okD(4) ys by (auto simp: Y_def fmlookup_dom_iff M' with_child_def split: if_splits)
      ultimately have "manager_ok cx D E ?bm st" using okD(1,3) by (simp add: manager_ok_def)
      then show thesis using suspended [OF run'] by simp
    qed
  qed
qed

lemma grows_refl: "grows cx D bm st [] bm st"
  by (simp add: grows_def)

lemma grows_trans:
  assumes "grows cx D bm st new bm1 st1" and "grows cx D bm1 st1 new' bm' st'"
  shows "grows cx D bm st (new @ new') bm' st'"
proof -
  let ?K = "dom (ds_lookup st)" and ?K1 = "dom (ds_lookup st1)" and ?K' = "dom (ds_lookup st')"
  have acc: "accepting cx D st st'"
    by (rule accepting_trans [OF conjunct1 [OF assms(1) [unfolded grows_def]] conjunct1 [OF assms(2) [unfolded grows_def]]])
  have a: "ds_last_commit st1 = ds_last_commit st" "?K1 = ?K \<union> vb_reference ` set new" "vb_reference ` set new \<inter> ?K = {}"
    "distinct (map vb_reference new)" "fset (fmdom (bm_suspended_blocks bm)) \<subseteq> fset (fmdom (bm_suspended_blocks bm1)) \<union> ?K1"
    using assms(1) unfolding grows_def by blast+
  have b: "ds_last_commit st' = ds_last_commit st1" "?K' = ?K1 \<union> vb_reference ` set new'" "vb_reference ` set new' \<inter> ?K1 = {}"
    "distinct (map vb_reference new')" "fset (fmdom (bm_suspended_blocks bm1)) \<subseteq> fset (fmdom (bm_suspended_blocks bm')) \<union> ?K'"
    using assms(2) unfolding grows_def by blast+
  have "fset (fmdom (bm_suspended_blocks bm)) \<subseteq> fset (fmdom (bm_suspended_blocks bm')) \<union> ?K'" using a(5) b(2,5) by blast
  moreover have disj: "vb_reference ` set new \<inter> vb_reference ` set new' = {}" "vb_reference ` set new' \<inter> ?K = {}"
    using a(2) b(3) by blast+
  moreover have "vb_reference ` set (new @ new') \<inter> ?K = {}" unfolding set_append image_Un using a(3) disj(2) by blast
  moreover have "distinct (map vb_reference (new @ new'))" using a(4) b(4) disj(1) by simp
  moreover have "?K' = ?K \<union> vb_reference ` set (new @ new')" unfolding b(2) a(2) set_append image_Un by blast
  ultimately show ?thesis unfolding grows_def b(1) a(1) using acc by (intro conjI refl)
qed

text \<open>The block above the garbage collection round is in the DAG state afterwards, or suspended.\<close>

definition received :: "consensus_context \<Rightarrow> verified_block \<Rightarrow> block_manager \<Rightarrow> dag_state \<Rightarrow> bool" where
  "received cx b bm st \<longleftrightarrow> vb_round b \<le> gc_round cx st \<or>
     vb_reference b \<in> fset (fmdom (bm_suspended_blocks bm)) \<union> dom (ds_lookup st)"

lemma received_grows: "received cx b bm st \<Longrightarrow> grows cx D bm st new bm' st' \<Longrightarrow> received cx b bm' st'"
  using gc_round_cong [of st' st cx] by (auto simp: received_def grows_def)

lemma accept_step_spec:
  assumes ok: "manager_ok cx D E bm st" and b: "D (vb_reference b) = Some b"
  obtains bm' st' new missing' where "accept_step cx now False (bm, st, accepted, missing) b = Some (bm', st', accepted @ new, missing')"
    "manager_ok cx D E bm' st'" "grows cx D bm st new bm' st'" "received cx b bm' st'"
proof -
  have author: "vb_author b < committee_size (cx_committee cx)"
    using valid_dagD(4) [OF dag_partD(2) [OF manager_okD(1) [OF ok]] b] by simp
  obtain rounds where rounds: "update_block_received_metrics cx bm b = Some (bm\<lparr>bm_received_block_rounds := rounds\<rparr>)"
    and len: "length rounds = committee_size (cx_committee cx)"
    by (rule update_block_received_metrics_spec [OF manager_okD(3) [OF ok] author])
  let ?bm = "bm\<lparr>bm_received_block_rounds := rounds\<rparr>"
  have ok': "manager_ok cx D E ?bm st" using len ok by (rule manager_ok_received)
  show thesis
  proof (rule try_accept_one_block_cases [OF ok' b])
    assume "try_accept_one_block cx ?bm st b = Some (?bm, Processed)"
      "vb_reference b \<in> fset (fmdom (bm_suspended_blocks ?bm)) \<union> dom (ds_lookup st)"
    then show thesis using that [of ?bm st "[]" missing] rounds ok'
      by (simp add: accept_step_def grows_def received_def)
  next
    assume "try_accept_one_block cx ?bm st b = Some (?bm, Skipped)" "vb_round b \<le> gc_round cx st"
    then show thesis using that [of ?bm st "[]" missing] rounds ok'
      by (simp add: accept_step_def grows_def received_def)
  next
    fix bm' fetch assume "try_accept_one_block cx ?bm st b = Some (bm', Suspended fetch)" "manager_ok cx D E bm' st"
      "fmdom (bm_suspended_blocks bm') = finsert (vb_reference b) (fmdom (bm_suspended_blocks ?bm))"
    then show thesis using that [of bm' st "[]" "missing |\<union>| fetch"] rounds
      by (auto simp: accept_step_def grows_def received_def)
  next
    fix bm1 assume run: "try_accept_one_block cx ?bm st b = Some (bm1, Accepted b)"
      and bm1: "bm1 = ?bm\<lparr>bm_missing_blocks := bm_missing_blocks ?bm |-| {|vb_reference b|}\<rparr>"
      and fresh: "vb_reference b |\<notin>| fmdom (bm_suspended_blocks ?bm)" "vb_reference b \<notin> dom (ds_lookup st)" "gc_round cx st < vb_round b"
      and anc: "\<forall>y \<in> set (vb_ancestors b). gc_round cx st < br_round y \<longrightarrow> y \<in> dom (ds_lookup st)"
    have inv: "bm_inv D E (gc_round cx st) (dom (ds_lookup st) \<union> vb_reference ` set [b]) {vb_reference b} bm1"
      using bm_inv_accept [OF manager_okD(2) [OF ok'] b fresh(1) anc] bm1 by simp
    obtain bm' st' out where fin: "accept_with_children cx now (bm1, st, accepted, missing) (vb_reference b) [b] = Some (bm', st', accepted @ [b] @ out, missing)"
      "manager_ok cx D E bm' st'" "ds_last_commit st' = ds_last_commit st"
      "dom (ds_lookup st') = dom (ds_lookup st) \<union> vb_reference ` set ([b] @ out)" "distinct (map vb_reference out)"
      "\<forall>b' \<in> set out. vb_reference b' \<notin> dom (ds_lookup st) \<union> vb_reference ` set [b]"
      "fset (fmdom (bm_suspended_blocks bm')) = fset (fmdom (bm_suspended_blocks bm1)) - vb_reference ` set out" "accepting cx D st st'"
      by (rule accept_with_children_spec [OF manager_okD(1) [OF ok'] refl inv])
        (use b fresh(3) manager_okD(3,4) [OF ok'] bm1 in auto)
    have "vb_reference ` set (b # out) \<inter> dom (ds_lookup st) = {}" "distinct (map vb_reference (b # out))"
      using fin(5,6) fresh(2) by auto
    moreover have "fset (fmdom (bm_suspended_blocks bm)) \<subseteq> fset (fmdom (bm_suspended_blocks bm')) \<union> dom (ds_lookup st')"
      unfolding fin(4,7) bm1 by auto
    ultimately have "grows cx D bm st (b # out) bm' st'" unfolding grows_def using fin(3,4,8) by simp
    moreover have "received cx b bm' st'" unfolding received_def fin(4) by simp
    moreover have "accept_step cx now False (bm, st, accepted, missing) b = Some (bm', st', accepted @ b # out, missing)"
      using rounds run fin(1) by (simp add: accept_step_def)
    ultimately show thesis using that fin(2) by blast
  qed
qed

lemma accept_steps_spec:
  assumes "manager_ok cx D E bm st" and "\<forall>b \<in> set bs. D (vb_reference b) = Some b"
  shows "\<exists>bm' st' new missing'. foldM (accept_step cx now False) (bm, st, accepted, missing) bs = Some (bm', st', accepted @ new, missing') \<and>
     manager_ok cx D E bm' st' \<and> grows cx D bm st new bm' st' \<and> (\<forall>b \<in> set bs. received cx b bm' st')"
  using assms
proof (induction bs arbitrary: bm st accepted missing)
  case Nil
  then show ?case by (auto intro: grows_refl)
next
  case (Cons b bs)
  obtain bm1 st1 new1 missing1 where step: "accept_step cx now False (bm, st, accepted, missing) b = Some (bm1, st1, accepted @ new1, missing1)"
    "manager_ok cx D E bm1 st1" "grows cx D bm st new1 bm1 st1" "received cx b bm1 st1"
    using accept_step_spec [OF Cons.prems(1)] Cons.prems(2) by (metis list.set_intros(1))
  from Cons.IH [OF step(2), of "accepted @ new1" missing1] Cons.prems(2) obtain bm' st' new missing' where
    rest: "foldM (accept_step cx now False) (bm1, st1, accepted @ new1, missing1) bs = Some (bm', st', (accepted @ new1) @ new, missing')"
      "manager_ok cx D E bm' st'" "grows cx D bm1 st1 new bm' st'" "\<forall>b \<in> set bs. received cx b bm' st'" by auto
  then show ?case using step grows_trans [OF step(3) rest(3)] received_grows [OF step(4) rest(3)]
    by (intro exI [of _ bm'] exI [of _ st'] exI [of _ "new1 @ new"] exI [of _ missing']) simp
qed

section \<open>Committed blocks\<close>

lemma committed_block_cases:
  assumes ok: "manager_ok cx D E bm st" and b: "D (vb_reference b) = Some b" "0 < vb_round b"
    and closed: "vb_reference b \<notin> E \<Longrightarrow> \<forall>y \<in> set (vb_ancestors b). gc_round cx st < br_round y \<longrightarrow> y \<in> dom (ds_lookup st)"
  obtains (processed) "try_accept_one_committed_block cx now bm st b = Some (bm, st, Processed)" "vb_reference b \<in> dom (ds_lookup st)"
  | (accepted) bm1 st1 where "try_accept_one_committed_block cx now bm st b = Some (bm1, st1, Accepted b)"
      "vb_reference b \<notin> dom (ds_lookup st)" "dag_part cx D st1" "dom (ds_lookup st1) = insert (vb_reference b) (dom (ds_lookup st))"
      "ds_last_commit st1 = ds_last_commit st" "bm_inv D E (gc_round cx st) (insert (vb_reference b) (dom (ds_lookup st))) {vb_reference b} bm1"
      "fset (fmdom (bm_suspended_blocks bm1)) = fset (fmdom (bm_suspended_blocks bm)) - {vb_reference b}"
      "fmdom (bm_missing_ancestors bm1) = fmdom (bm_missing_ancestors bm)" "bm_received_block_rounds bm1 = bm_received_block_rounds bm" "accepting cx D st st1"
proof -
  let ?r = "vb_reference b" and ?S = "bm_suspended_blocks bm"
  note okD = manager_okD [OF ok]
  note part = dag_partD [OF okD(1)]
  have author: "br_author ?r < committee_size (cx_committee cx)" using valid_dagD(4) [OF part(2) b(1)] .
  have known: "contains_block st ?r = Some (?r \<in> dom (ds_lookup st))" using contains_block_lookup [OF part(1) author] by auto
  show thesis
  proof (cases "?r \<in> dom (ds_lookup st)")
    case True
    then show thesis using processed known by (simp add: try_accept_one_committed_block_def)
  next
    case False
    from accept_blocks_spec [OF okD(1), of "[b]" now] b obtain st1 where
      st1: "accept_blocks cx st [(now, b)] = Some st1" "dag_part cx D st1" "dom (ds_lookup st1) = insert ?r (dom (ds_lookup st))"
        "ds_last_commit st1 = ds_last_commit st" "accepting cx D st st1" by auto
    show thesis
    proof (cases "fmlookup ?S ?r")
      case None
      then have fresh: "?r |\<notin>| fmdom ?S" by (simp add: fmlookup_dom_iff)
      show thesis
        by (rule accepted [OF _ False st1(2-4) bm_inv_accept [OF okD(2) b(1) fresh closed]])
          (use None fresh False known st1(1,5) in \<open>auto simp: try_accept_one_committed_block_def Let_def\<close>)
    next
      case (Some s)
      have "b = sb_block s" using bm_inv_suspended(3) [OF okD(2) Some] b(1) by simp
      then have closed': "?r \<notin> E \<Longrightarrow> \<forall>y \<in> set (vb_ancestors (sb_block s)). gc_round cx st < br_round y \<longrightarrow> y \<in> dom (ds_lookup st)" using closed by simp
      have dom: "fmdom (foldl (drop_child ?r) (bm_missing_ancestors bm) ys) = fmdom (bm_missing_ancestors bm)" for ys
        by (rule fset_eqI) (auto simp: fmlookup_dom_iff drop_children simp del: fset_eq_iff)
      show thesis
        by (rule accepted [OF _ False st1(2-4) bm_inv_unsuspend_committed [OF okD(2) Some closed']])
          (use Some False known st1(1,5) dom in \<open>auto simp: try_accept_one_committed_block_def Let_def\<close>)
    qed
  qed
qed

lemma accept_step_committed_spec:
  assumes ok: "manager_ok cx D E bm st" and b: "D (vb_reference b) = Some b" "0 < vb_round b"
    and closed: "vb_reference b \<notin> E \<Longrightarrow> \<forall>y \<in> set (vb_ancestors b). gc_round cx st < br_round y \<longrightarrow> y \<in> dom (ds_lookup st)"
  obtains bm' st' new where "accept_step cx now True (bm, st, accepted, missing) b = Some (bm', st', accepted @ new, missing)"
    "manager_ok cx D E bm' st'" "grows cx D bm st new bm' st'" "vb_reference b \<in> dom (ds_lookup st')"
proof -
  have author: "vb_author b < committee_size (cx_committee cx)"
    using valid_dagD(4) [OF dag_partD(2) [OF manager_okD(1) [OF ok]] b(1)] by simp
  obtain rounds where rounds: "update_block_received_metrics cx bm b = Some (bm\<lparr>bm_received_block_rounds := rounds\<rparr>)"
    and len: "length rounds = committee_size (cx_committee cx)"
    by (rule update_block_received_metrics_spec [OF manager_okD(3) [OF ok] author])
  let ?bm = "bm\<lparr>bm_received_block_rounds := rounds\<rparr>"
  have ok': "manager_ok cx D E ?bm st" using len ok by (rule manager_ok_received)
  show thesis
  proof (rule committed_block_cases [OF ok' b closed, where now = now])
    assume "try_accept_one_committed_block cx now ?bm st b = Some (?bm, st, Processed)" "vb_reference b \<in> dom (ds_lookup st)"
    then show thesis using that [of ?bm st "[]"] rounds ok' by (simp add: accept_step_def grows_def)
  next
    fix bm1 st1 assume run: "try_accept_one_committed_block cx now ?bm st b = Some (bm1, st1, Accepted b)"
      and fresh: "vb_reference b \<notin> dom (ds_lookup st)" and part: "dag_part cx D st1"
      and dom: "dom (ds_lookup st1) = insert (vb_reference b) (dom (ds_lookup st))" and last: "ds_last_commit st1 = ds_last_commit st"
      and inv: "bm_inv D E (gc_round cx st) (insert (vb_reference b) (dom (ds_lookup st))) {vb_reference b} bm1"
      and sus: "fset (fmdom (bm_suspended_blocks bm1)) = fset (fmdom (bm_suspended_blocks ?bm)) - {vb_reference b}"
      and mis: "fmdom (bm_missing_ancestors bm1) = fmdom (bm_missing_ancestors ?bm)"
      and rec: "bm_received_block_rounds bm1 = bm_received_block_rounds ?bm" and acc: "accepting cx D st st1"
    have gc: "gc_round cx st1 = gc_round cx st" by (rule gc_round_cong [OF last])
    have inv': "bm_inv D E (gc_round cx st1) (dom (ds_lookup st1) \<union> vb_reference ` set []) {vb_reference b} bm1" using inv gc dom by simp
    have none: "\<forall>b \<in> set []. D (vb_reference b) = Some b \<and> 0 < vb_round b" by simp
    have len1: "length (bm_received_block_rounds bm1) = committee_size (cx_committee cx)" using rec len by simp
    have authors1: "y |\<in>| fmdom (bm_missing_ancestors bm1) \<Longrightarrow> br_author y < committee_size (cx_committee cx)" for y
      using mis manager_okD(4) [OF ok'] by simp
    obtain bm' st' out where fin: "accept_with_children cx now (bm1, st1, accepted @ [b], missing) (vb_reference b) [] =
        Some (bm', st', (accepted @ [b]) @ [] @ out, missing)"
      "manager_ok cx D E bm' st'" "ds_last_commit st' = ds_last_commit st1"
      "dom (ds_lookup st') = dom (ds_lookup st1) \<union> vb_reference ` set ([] @ out)" "distinct (map vb_reference out)"
      "\<forall>b' \<in> set out. vb_reference b' \<notin> dom (ds_lookup st1) \<union> vb_reference ` set []"
      "fset (fmdom (bm_suspended_blocks bm')) = fset (fmdom (bm_suspended_blocks bm1)) - vb_reference ` set out" "accepting cx D st1 st'"
      by (rule accept_with_children_spec [OF part refl inv' none len1 authors1])
    have "vb_reference ` set (b # out) \<inter> dom (ds_lookup st) = {}" "distinct (map vb_reference (b # out))"
      using fin(5,6) fresh dom by auto
    moreover have "fset (fmdom (bm_suspended_blocks bm)) \<subseteq> fset (fmdom (bm_suspended_blocks bm')) \<union> dom (ds_lookup st')"
      unfolding fin(4,7) sus dom by auto
    moreover have "dom (ds_lookup st') = dom (ds_lookup st) \<union> vb_reference ` set (b # out)" unfolding fin(4) dom by auto
    ultimately have "grows cx D bm st (b # out) bm' st'" 
      unfolding grows_def using fin(3) last accepting_trans [OF acc fin(8)] by simp
    moreover have "vb_reference b \<in> dom (ds_lookup st')" unfolding fin(4) dom by simp
    moreover have "accept_step cx now True (bm, st, accepted, missing) b = Some (bm', st', accepted @ b # out, missing)"
      using rounds run fin(1) by (simp add: accept_step_def)
    ultimately show thesis using that fin(2) by blast
  qed
qed

lemma accept_steps_committed_spec:
  assumes "manager_ok cx D E bm st" and "\<forall>b \<in> set bs. D (vb_reference b) = Some b \<and> 0 < vb_round b" and "sorted (map vb_round bs)"
    and "\<forall>b \<in> set bs. vb_reference b \<notin> E \<longrightarrow>
      (\<forall>y \<in> set (vb_ancestors b). gc_round cx st < br_round y \<longrightarrow> y \<in> dom (ds_lookup st) \<union> vb_reference ` set bs)"
  shows "\<exists>bm' st' new. foldM (accept_step cx now True) (bm, st, accepted, missing) bs = Some (bm', st', accepted @ new, missing) \<and>
     manager_ok cx D E bm' st' \<and> grows cx D bm st new bm' st' \<and> vb_reference ` set bs \<subseteq> dom (ds_lookup st')"
  using assms
proof (induction bs arbitrary: bm st accepted)
  case Nil
  then show ?case by (auto intro: grows_refl)
next
  case (Cons b bs)
  have b: "D (vb_reference b) = Some b" "0 < vb_round b" using Cons.prems(2) by simp_all
  have lower: "br_round y < vb_round b" if "y \<in> set (vb_ancestors b)" for y
    using valid_dagD(5) [OF dag_partD(2) [OF manager_okD(1) [OF Cons.prems(1)]] b(1) that] by simp
  have "y \<notin> vb_reference ` set (b # bs)" if "y \<in> set (vb_ancestors b)" for y
    using lower [OF that] Cons.prems(3) by (auto simp: not_less [symmetric])
  then have closed: "vb_reference b \<notin> E \<Longrightarrow> \<forall>y \<in> set (vb_ancestors b). gc_round cx st < br_round y \<longrightarrow> y \<in> dom (ds_lookup st)"
    using Cons.prems(4) by fastforce
  obtain bm1 st1 new1 where step: "accept_step cx now True (bm, st, accepted, missing) b = Some (bm1, st1, accepted @ new1, missing)"
    "manager_ok cx D E bm1 st1" "grows cx D bm st new1 bm1 st1" "vb_reference b \<in> dom (ds_lookup st1)"
    by (rule accept_step_committed_spec [OF Cons.prems(1) b closed])
  have gc: "gc_round cx st1 = gc_round cx st" and mono: "dom (ds_lookup st) \<subseteq> dom (ds_lookup st1)"
    using step(3) by (auto simp: grows_def intro: gc_round_cong)
  have anc: "\<forall>b' \<in> set bs. vb_reference b' \<notin> E \<longrightarrow>
      (\<forall>y \<in> set (vb_ancestors b'). gc_round cx st1 < br_round y \<longrightarrow> y \<in> dom (ds_lookup st1) \<union> vb_reference ` set bs)"
  proof (intro ballI impI)
    fix b' y assume "b' \<in> set bs" "vb_reference b' \<notin> E" "y \<in> set (vb_ancestors b')" "gc_round cx st1 < br_round y"
    then have "y \<in> dom (ds_lookup st) \<union> vb_reference ` set (b # bs)" using Cons.prems(4) gc by simp
    then show "y \<in> dom (ds_lookup st1) \<union> vb_reference ` set bs" using mono step(4) by auto
  qed
  from Cons.IH [OF step(2) _ _ anc, of "accepted @ new1"] Cons.prems(2,3) obtain bm' st' new where
    rest: "foldM (accept_step cx now True) (bm1, st1, accepted @ new1, missing) bs = Some (bm', st', (accepted @ new1) @ new, missing)"
      "manager_ok cx D E bm' st'" "grows cx D bm1 st1 new bm' st'" "vb_reference ` set bs \<subseteq> dom (ds_lookup st')" by auto
  moreover have "dom (ds_lookup st1) \<subseteq> dom (ds_lookup st')" using rest(3) by (auto simp: grows_def)
  ultimately show ?case using step grows_trans [OF step(3) rest(3)]
    by (intro exI [of _ bm'] exI [of _ st'] exI [of _ "new1 @ new"]) auto
qed

section \<open>Garbage collection\<close>

lemma first_key_value_Some:
  assumes "first_key_value m = Some (k, v)"
  shows "fmlookup m k = Some v" "\<And>y. y |\<in>| fmdom m \<Longrightarrow> k \<le> y"
proof -
  obtain kvs where kvs: "sorted_list_of_fmap m = (k, v) # kvs" using assms by (auto simp: first_key_value_def split: list.splits)
  then have "(k, v) \<in> set (sorted_list_of_fmap m)" by simp
  then show "fmlookup m k = Some v" by simp
  have "sorted_list_of_fset (fmdom m) = k # map fst kvs" using arg_cong [OF kvs, of "map fst"] by simp
  then show "k \<le> y" if "y |\<in>| fmdom m" for y
    using that sorted_sorted_list_of_fset [of "fmdom m"] by (metis sorted_list_of_fset_simps(1) set_ConsD sorted_simps(2) order_refl)
qed

lemma first_key_value_None: "first_key_value m = None \<Longrightarrow> m = fmempty"
proof -
  assume "first_key_value m = None"
  then have "sorted_list_of_fmap m = []" by (simp add: first_key_value_def split: list.splits)
  then have "sorted_list_of_fset (fmdom m) = []" using map_fst_sorted_list_of_fmap [of m] by simp
  then have "fmdom m = {||}" by (metis sorted_list_of_fset_simps(1) list.set(1) bot_fset.rep_eq fset_inject)
  then show ?thesis by (metis fmdom_empty fmrestrict_fset_dom fmrestrict_fset_null)
qed

lemma give_up_spec:
  assumes part: "dag_part cx D st" and gc: "gc = gc_round cx st"
    and inv: "bm_inv D E gc (dom (ds_lookup st) \<union> vb_reference ` set []) {r} (bm\<lparr>bm_missing_blocks := B\<rparr>)"
    and len: "length (bm_received_block_rounds bm) = committee_size (cx_committee cx)"
    and authors: "\<And>y. y |\<in>| fmdom (bm_missing_ancestors bm) \<Longrightarrow> br_author y < committee_size (cx_committee cx)"
  shows "\<exists>bm' st' out. try_unsuspend_children_blocks cx (bm\<lparr>bm_missing_blocks := B\<rparr>) r = Some (bm', out) \<and>
     accept_blocks cx st (map (Pair now) out) = Some st' \<and>
     mapM (\<lambda>b. committee_authority (cx_committee cx) (vb_author b)) out \<noteq> None \<and>
     manager_ok cx D E bm' st' \<and> grows cx D bm st out bm' st' \<and>
     fmdom (bm_missing_ancestors bm') |\<subseteq>| fmdom (bm_missing_ancestors bm) \<and> r |\<notin>| fmdom (bm_missing_ancestors bm')"
proof -
  let ?bm = "bm\<lparr>bm_missing_blocks := B\<rparr>"
  have none: "\<forall>b \<in> set []. D (vb_reference b) = Some b \<and> 0 < vb_round b" by simp
  have len': "length (bm_received_block_rounds ?bm) = committee_size (cx_committee cx)" using len by simp
  have authors': "y |\<in>| fmdom (bm_missing_ancestors ?bm) \<Longrightarrow> br_author y < committee_size (cx_committee cx)" for y
    using authors by simp
  obtain bm' st' out where fin: "accept_with_children cx now (?bm, st, [], {||}) r [] = Some (bm', st', [] @ [] @ out, {||})"
    "manager_ok cx D E bm' st'" "ds_last_commit st' = ds_last_commit st"
    "dom (ds_lookup st') = dom (ds_lookup st) \<union> vb_reference ` set ([] @ out)" "distinct (map vb_reference out)"
    "\<forall>b \<in> set out. vb_reference b \<notin> dom (ds_lookup st) \<union> vb_reference ` set []"
    "fset (fmdom (bm_suspended_blocks bm')) = fset (fmdom (bm_suspended_blocks ?bm)) - vb_reference ` set out" "accepting cx D st st'"
    by (rule accept_with_children_spec [OF part gc inv none len' authors'])
  have run: "try_unsuspend_children_blocks cx ?bm r = Some (bm', out)" "accept_blocks cx st (map (Pair now) out) = Some st'"
    using fin(1) by (auto simp: accept_with_children_def elim!: bind_SomeE)
  have "mapM (\<lambda>b. committee_authority (cx_committee cx) (vb_author b)) out \<noteq> None"
    using run(1) by (auto simp: try_unsuspend_children_blocks_def elim!: bind_SomeE)
  moreover have "fmdom (bm_missing_ancestors bm') |\<subseteq>| fmdom (bm_missing_ancestors bm)" "r |\<notin>| fmdom (bm_missing_ancestors bm')"
    using children_spec [OF dag_partD(2) [OF part] inv] run(1) by auto
  moreover have "grows cx D bm st out bm' st'"
    unfolding grows_def using fin(3-8) by auto
  ultimately show ?thesis using run fin(2) by blast
qed

lemma gc_loop_spec:
  assumes "manager_ok cx D E bm st" and "gc = gc_round cx st"
  shows "\<exists>bm' st' new. gc_loop cx now gc bm st = Some (bm', st') \<and> manager_ok cx D E bm' st' \<and> grows cx D bm st new bm' st' \<and>
     (\<forall>y. y |\<in>| fmdom (bm_missing_ancestors bm') \<longrightarrow> gc < br_round y)"
  using assms
proof (induction "card (fset (fmdom (bm_missing_ancestors bm)))" arbitrary: bm st rule: less_induct)
  case less
  note okD = manager_okD [OF less.prems(1)]
  show ?case
  proof (cases "first_key_value (bm_missing_ancestors bm)")
    case None
    then have "bm_missing_ancestors bm = fmempty" by (rule first_key_value_None)
    then show ?thesis using less.prems None by (subst gc_loop.simps) (auto intro: grows_refl)
  next
    case (Some kv)
    obtain r C where kv: "kv = (r, C)" by (cases kv)
    note first = first_key_value_Some [OF Some [unfolded kv]]
    have rM: "r |\<in>| fmdom (bm_missing_ancestors bm)" using first(1) by (auto simp: fmlookup_dom_iff)
    show ?thesis
    proof (cases "gc < br_round r")
      case True
      then have "\<forall>y. y |\<in>| fmdom (bm_missing_ancestors bm) \<longrightarrow> gc < br_round y"
        using first(2) block_ref_le_round by (meson less_le_trans)
      then show ?thesis using less.prems True Some kv by (subst gc_loop.simps) (auto intro: grows_refl)
    next
      case False
      have notS: "r |\<notin>| fmdom (bm_suspended_blocks bm)"
      proof
        assume "r |\<in>| fmdom (bm_suspended_blocks bm)"
        then obtain s where s: "fmlookup (bm_suspended_blocks bm) r = Some s" by (auto simp: fmlookup_dom_iff)
        obtain y where y: "y |\<in>| sb_missing_ancestors s" using bm_inv_suspended(4) [OF okD(2) s] by auto
        have "br_round y < br_round r"
          using valid_dagD(5) [OF dag_partD(2) [OF okD(1)] bm_inv_suspended(3) [OF okD(2) s] bm_inv_suspended(5) [OF okD(2) s y]] by simp
        moreover have "r \<le> y" using bm_inv_suspended(6) [OF okD(2) s y] first(2) by (auto simp: fmlookup_dom_iff)
        ultimately show False using block_ref_le_round by (meson not_le)
      qed
      let ?bm = "bm\<lparr>bm_missing_blocks := bm_missing_blocks bm |-| {|r|}\<rparr>"
      have inv: "bm_inv D E gc (dom (ds_lookup st) \<union> vb_reference ` set []) {r} ?bm"
        using bm_inv_give_up [OF _ _ notS, of D E gc] okD(2) less.prems(2) False by simp
      from give_up_spec [OF okD(1) less.prems(2) inv okD(3,4), of now] obtain bm1 st1 out where
        step: "try_unsuspend_children_blocks cx ?bm r = Some (bm1, out)" "accept_blocks cx st (map (Pair now) out) = Some st1"
          "mapM (\<lambda>b. committee_authority (cx_committee cx) (vb_author b)) out \<noteq> None"
        and ok1: "manager_ok cx D E bm1 st1" "grows cx D bm st out bm1 st1"
        and dom: "fmdom (bm_missing_ancestors bm1) |\<subseteq>| fmdom (bm_missing_ancestors bm)" "r |\<notin>| fmdom (bm_missing_ancestors bm1)"
        by blast
      have "fset (fmdom (bm_missing_ancestors bm1)) \<subset> fset (fmdom (bm_missing_ancestors bm))" using dom rM by auto
      then have smaller: "card (fset (fmdom (bm_missing_ancestors bm1))) < card (fset (fmdom (bm_missing_ancestors bm)))"
        by (intro psubset_card_mono) auto
      have gc: "gc = gc_round cx st1" using less.prems(2) gc_round_cong [of st1 st cx] ok1(2) by (simp add: grows_def)
      from less.hyps [OF smaller ok1(1) gc] obtain bm' st' new where
        rest: "gc_loop cx now gc bm1 st1 = Some (bm', st')" "manager_ok cx D E bm' st'" "grows cx D bm1 st1 new bm' st'"
          "\<forall>y. y |\<in>| fmdom (bm_missing_ancestors bm') \<longrightarrow> gc < br_round y" by blast
      have "committee_authority (cx_committee cx) (br_author r) \<noteq> None"
        using okD(4) [OF rM] by (simp add: committee_authority_def committee_size_def)
      then have "gc_loop cx now gc bm st = Some (bm', st')"
        using Some kv False notS step rest(1) by (subst gc_loop.simps) auto
      then show ?thesis using rest(2,4) grows_trans [OF ok1(2) rest(3)] by blast
    qed
  qed
qed

end
