(* ===== verification/Manager_Machine.thy ===== *)
theory Manager_Machine
  imports Block_Acceptance
begin

text \<open>
  A validator that receives blocks in any order, through the block manager, while it commits, collects
  garbage and flushes: its DAG state stays complete, but for blocks of certified commits, and what is held back waits
  for blocks reported missing.
\<close>

section \<open>Looking for blocks\<close>

lemma bm_inv_find:
  assumes "bm_inv D E gc K {} bm" and "r \<notin> K" and "r |\<notin>| fmdom (bm_suspended_blocks bm)" and "r |\<notin>| bm_missing_blocks bm"
  shows "bm_inv D E gc K {} (bm\<lparr>bm_missing_blocks := finsert r (bm_missing_blocks bm),
     bm_missing_ancestors := fmupd r (case fmlookup (bm_missing_ancestors bm) r of Some C \<Rightarrow> C | None \<Rightarrow> {||}) (bm_missing_ancestors bm)\<rparr>)"
proof -
  have "fmlookup (bm_missing_ancestors bm) r = None"
    using bm_inv_missing(4) [OF assms(1), of r] assms(3,4) by (auto simp: fmlookup_dom_iff)
  then show ?thesis using assms unfolding bm_inv_def waiting_def by (auto simp: fmlookup_dom_iff; metis option.distinct(1))
qed

lemma find_steps_spec:
  assumes "manager_ok cx D E bm st" and "\<forall>r \<in> set refs. br_author r < committee_size (cx_committee cx)"
  shows "\<exists>bm'. foldM (find_step cx) (bm, missing) (zip (map (\<lambda>r. r \<in> dom (ds_lookup st)) refs) refs) =
       Some (bm', missing |\<union>| fset_of_list (filter (\<lambda>r. r \<notin> dom (ds_lookup st) \<and> r |\<notin>| fmdom (bm_suspended_blocks bm)) refs)) \<and>
     manager_ok cx D E bm' st \<and> bm_suspended_blocks bm' = bm_suspended_blocks bm"
  using assms
proof (induction refs arbitrary: bm missing)
  case (Cons r refs)
  let ?K = "dom (ds_lookup st)" and ?S = "bm_suspended_blocks bm"
  note okD = manager_okD [OF Cons.prems(1)]
  define bm1 where "bm1 = (if r \<in> ?K \<or> r |\<in>| fmdom ?S \<or> r |\<in>| bm_missing_blocks bm then bm
    else bm\<lparr>bm_missing_blocks := finsert r (bm_missing_blocks bm),
      bm_missing_ancestors := fmupd r (case fmlookup (bm_missing_ancestors bm) r of Some C \<Rightarrow> C | None \<Rightarrow> {||}) (bm_missing_ancestors bm)\<rparr>)"
  let ?missing = "if r \<in> ?K \<or> r |\<in>| fmdom ?S then missing else finsert r missing"
  have step: "find_step cx (bm, missing) (r \<in> ?K, r) = Some (bm1, ?missing)"
    using Cons.prems(2) by (auto simp: find_step_def bm1_def Let_def committee_authority_def committee_size_def)
  have "bm_inv D E (gc_round cx st) ?K {} bm1" using bm_inv_find [OF okD(2)] okD(2) by (simp add: bm1_def)
  then have ok1: "manager_ok cx D E bm1 st" using okD Cons.prems(2) by (auto simp: manager_ok_def bm1_def)
  have S1: "bm_suspended_blocks bm1 = ?S" by (simp add: bm1_def)
  from Cons.IH [OF ok1, of ?missing] Cons.prems(2) obtain bm' where
    "foldM (find_step cx) (bm1, ?missing) (zip (map (\<lambda>r. r \<in> ?K) refs) refs) =
       Some (bm', ?missing |\<union>| fset_of_list (filter (\<lambda>r. r \<notin> ?K \<and> r |\<notin>| fmdom ?S) refs))"
    "manager_ok cx D E bm' st" "bm_suspended_blocks bm' = ?S" unfolding S1 by auto
  moreover have "?missing |\<union>| fset_of_list (filter (\<lambda>r. r \<notin> ?K \<and> r |\<notin>| fmdom ?S) refs) =
      missing |\<union>| fset_of_list (filter (\<lambda>r. r \<notin> ?K \<and> r |\<notin>| fmdom ?S) (r # refs))" by auto
  ultimately show ?case using step by (intro exI [of _ bm']) simp
qed simp

lemma try_find_blocks_spec:
  assumes ok: "manager_ok cx D E bm st" and "\<forall>r \<in> set refs. br_author r < committee_size (cx_committee cx)"
  obtains bm' missing where "try_find_blocks cx bm st refs = Some (bm', missing)" "manager_ok cx D E bm' st"
    "bm_suspended_blocks bm' = bm_suspended_blocks bm"
    "fset missing = {r \<in> set refs. gc_round cx st < br_round r \<and> r \<notin> dom (ds_lookup st) \<and> r |\<notin>| fmdom (bm_suspended_blocks bm)}"
proof (cases "filter (\<lambda>r. gc_round cx st < br_round r) refs = []")
  case True
  then show thesis using that [of bm "{||}"] ok by (auto simp: try_find_blocks_def filter_empty_conv)
next
  case False
  let ?rs = "sort_key br_round (filter (\<lambda>r. gc_round cx st < br_round r) refs)"
  have rs: "\<forall>r \<in> set ?rs. br_author r < committee_size (cx_committee cx)" using assms(2) by simp
  have found: "contains_blocks st ?rs = Some (map (\<lambda>r. r \<in> dom (ds_lookup st)) ?rs)"
    using contains_blocks_lookup [OF dag_partD(1) [OF manager_okD(1) [OF ok]] rs] by (auto simp: dom_def)
  from find_steps_spec [OF ok rs, of "{||}"] obtain bm' where
    fold: "foldM (find_step cx) (bm, {||}) (zip (map (\<lambda>r. r \<in> dom (ds_lookup st)) ?rs) ?rs) =
      Some (bm', fset_of_list (filter (\<lambda>r. r \<notin> dom (ds_lookup st) \<and> r |\<notin>| fmdom (bm_suspended_blocks bm)) ?rs))"
    and bm': "manager_ok cx D E bm' st" "bm_suspended_blocks bm' = bm_suspended_blocks bm" by auto
  then have "try_find_blocks cx bm st refs =
      Some (bm', fset_of_list (filter (\<lambda>r. r \<notin> dom (ds_lookup st) \<and> r |\<notin>| fmdom (bm_suspended_blocks bm)) ?rs))"
    using False found by (simp add: try_find_blocks_def Let_def)
  then show thesis by (rule that [OF _ bm']) (auto simp: fset_of_list.rep_eq)
qed

section \<open>Waiting\<close>

text \<open>From every suspended block a chain of suspended ancestors leads to a block reported missing.\<close>

lemma waits_for_missing:
  assumes valid: "valid_dag c D" and inv: "bm_inv D E gc K {} bm" and "fmlookup (bm_suspended_blocks bm) x = Some s"
  shows "\<exists>y. y |\<in>| bm_missing_blocks bm \<and> linked_to (\<lambda>r. map_option sb_block (fmlookup (bm_suspended_blocks bm) r)) 0 {x} y"
  using assms(3)
proof (induction "br_round x" arbitrary: x s rule: less_induct)
  case less
  let ?m = "\<lambda>r. map_option sb_block (fmlookup (bm_suspended_blocks bm) r)"
  note s = bm_inv_suspended [OF inv less.prems]
  obtain y where y: "y |\<in>| sb_missing_ancestors s" using s(4) by auto
  have lower: "br_round y < br_round x" using valid_dagD(5) [OF valid s(3) s(5) [OF y]] by simp
  have link: "linked_to ?m 0 {x} y"
    by (rule linked_step [OF linked_base [of x "{x}"], of _ _ "sb_block s"]) (use lower less.prems s(5) [OF y] in auto)
  show ?case
  proof (cases "fmlookup (bm_suspended_blocks bm) y")
    case None
    then have "y |\<in>| bm_missing_blocks bm" using bm_inv_missing(4) [OF inv, of y] s(6) [OF y] by (auto simp: fmlookup_dom_iff)
    then show ?thesis using link by blast
  next
    case (Some s')
    from less.hyps [OF lower Some] obtain z where "z |\<in>| bm_missing_blocks bm" "linked_to ?m 0 {y} z" by blast
    then show ?thesis using linked_to_trans link by blast
  qed
qed

section \<open>Runs\<close>

text \<open>The operations of the DAG state that the other components run: all but accepting a block and a restart.\<close>

fun other_op :: "dag_op \<Rightarrow> bool" where
  "other_op (OpAccept _ _) = False"
| "other_op (OpRestart _) = False"
| "other_op _ = True"

text \<open>
  Blocks of certified commits enter the DAG state whether or not their ancestors are there: a peer that collects garbage
  earlier commits without them. The references of those that lack an ancestor above the garbage collection round, in
  the DAG state and in the batch, are recorded.
\<close>

definition incomplete :: "consensus_context \<Rightarrow> dag_state \<Rightarrow> verified_block list \<Rightarrow> block_ref set" where
  "incomplete cx st bs = {vb_reference b |b. b \<in> set bs \<and>
     (\<exists>y \<in> set (vb_ancestors b). gc_round cx st < br_round y \<and> get_block st y = None \<and> y \<notin> vb_reference ` set bs)}"

inductive manager_reach :: "crypto \<Rightarrow> consensus_context \<Rightarrow> (block_ref \<rightharpoonup> verified_block) \<Rightarrow> block_ref set \<Rightarrow> block_manager \<Rightarrow> dag_state \<Rightarrow> bool"
  for C cx D where
  reach_start: "context_ok cx \<Longrightarrow> dag_state_new C cx now mem_store_new = Some st \<Longrightarrow> manager_reach C cx D {} (block_manager_new cx) st"
| reach_receive: "manager_reach C cx D E bm st \<Longrightarrow> \<forall>b \<in> set bs. D (vb_reference b) = Some b \<Longrightarrow>
    try_accept_blocks cx now bm st bs = Some (bm', st', accepted, missing) \<Longrightarrow> manager_reach C cx D E bm' st'"
| reach_committed: "manager_reach C cx D E bm st \<Longrightarrow> \<forall>b \<in> set bs. D (vb_reference b) = Some b \<and> 0 < vb_round b \<Longrightarrow>
    try_accept_committed_blocks cx now bm st bs = Some (bm', st', accepted) \<Longrightarrow> manager_reach C cx D (E \<union> incomplete cx st bs) bm' st'"
| reach_find: "manager_reach C cx D E bm st \<Longrightarrow> \<forall>r \<in> set refs. br_author r < committee_size (cx_committee cx) \<Longrightarrow>
    try_find_blocks cx bm st refs = Some (bm', missing) \<Longrightarrow> manager_reach C cx D E bm' st"
| reach_unsuspend: "manager_reach C cx D E bm st \<Longrightarrow>
    try_unsuspend_blocks_for_latest_gc_round cx now bm st = Some (bm', st') \<Longrightarrow> manager_reach C cx D E bm' st'"
| reach_other: "manager_reach C cx D E bm st \<Longrightarrow> other_op op \<Longrightarrow> op_allowed st op \<Longrightarrow> dag_step C cx st op = Some st' \<Longrightarrow>
    manager_reach C cx D E bm st'"

text \<open>The DAG the blocks come from: valid, with the genesis blocks, and no second block of the validator itself.\<close>

definition dag_source :: "crypto \<Rightarrow> consensus_context \<Rightarrow> (block_ref \<rightharpoonup> verified_block) \<Rightarrow> bool" where
  "dag_source C cx D \<longleftrightarrow> valid_dag (cx_committee cx) D \<and> own_unique cx D \<and>
     (\<forall>gs. genesis_blocks C cx = Some gs \<longrightarrow> (\<forall>b \<in> set gs. D (vb_reference b) = Some b))"

definition runs_on :: "crypto \<Rightarrow> consensus_context \<Rightarrow> (block_ref \<rightharpoonup> verified_block) \<Rightarrow> dag_state \<Rightarrow> bool" where
  "runs_on C cx D st \<longleftrightarrow> (\<exists>ops. dag_reach C cx ops st \<and> (\<forall>b \<in> set (accepted_blocks ops). D (vb_reference b) = Some b))"

lemma runs_on_step:
  assumes "runs_on C cx D st" and "dag_step C cx st op = Some st'" and "op_allowed st op"
    and "\<And>now b. op = OpAccept now b \<Longrightarrow> D (vb_reference b) = Some b"
  shows "runs_on C cx D st'"
proof -
  obtain ops where ops: "dag_reach C cx ops st" "\<forall>b \<in> set (accepted_blocks ops). D (vb_reference b) = Some b"
    using assms(1) by (auto simp: runs_on_def)
  have "dag_reach C cx (ops @ [op]) st'" by (rule reach_step [OF ops(1) assms(3,2)])
  moreover have "\<forall>b \<in> set (accepted_blocks (ops @ [op])). D (vb_reference b) = Some b"
    using ops(2) assms(4) unfolding accepted_blocks_iff Ball_def by auto
  ultimately show ?thesis by (auto simp: runs_on_def)
qed

lemma runs_on_accepting:
  assumes "accepting cx D st st'" and "runs_on C cx D st"
  shows "runs_on C cx D st'"
  using assms unfolding accepting_def
proof (induction rule: rtranclp_induct)
  case (step st1 st2)
  then obtain now b where "D (vb_reference b) = Some b" "accept_block cx now st1 b = Some st2" by blast
  then show ?case using runs_on_step [of C cx D st1 "OpAccept now b" st2] step by simp
qed simp

lemma manager_start:
  assumes src: "dag_source C cx D" and "context_ok cx" and new: "dag_state_new C cx now mem_store_new = Some st"
  shows "runs_on C cx D st" and "manager_ok cx D {} (block_manager_new cx) st"
proof -
  have reach: "dag_reach C cx [] st" using assms(2,3) by (rule reach_new)
  then show "runs_on C cx D st" unfolding runs_on_def by (intro exI [of _ "[]"]) (simp add: accepted_blocks_def)
  obtain gs where inv: "machine_inv C cx st" and gs: "genesis_blocks C cx = Some gs" and db: "db_of st = spec_init gs"
    using reach_machine [OF reach] by auto
  have known: "b \<in> set gs \<and> vb_reference b = r" if b: "ds_lookup st r = Some b" for r b
  proof -
    have "db_known (spec_init gs) r = Some b" using b by (simp add: db [symmetric] db_of_def)
    then show ?thesis by (auto simp: spec_init_def Let_def dest: map_of_SomeD)
  qed
  have "dag_part cx D st" using src inv known gs by (auto simp: dag_part_def dag_source_def machine_inv_def)
  moreover have "vb_ancestors b = []" if r: "D r = Some b" "r \<in> dom (ds_lookup st)" for r b
  proof -
    obtain b' where b': "ds_lookup st r = Some b'" using r(2) by blast
    have "D r = Some b'" using known [OF b'] src gs by (auto simp: dag_source_def)
    then show ?thesis using reach_known(2) [OF reach b'] r(1) by simp
  qed
  then have "bm_inv D {} (gc_round cx st) (dom (ds_lookup st)) {} (block_manager_new cx)"
    by (auto simp: bm_inv_def block_manager_new_def)
  ultimately show "manager_ok cx D {} (block_manager_new cx) st"
    by (simp add: manager_ok_def) (simp add: block_manager_new_def)
qed

lemma manager_other:
  assumes "runs_on C cx D st" and ok: "manager_ok cx D E bm st" and op: "other_op op" "op_allowed st op" "dag_step C cx st op = Some st'"
  shows "manager_ok cx D E bm st'"
proof -
  obtain ops where "dag_reach C cx ops st" using assms(1) by (auto simp: runs_on_def)
  then have "machine_inv C cx st" using reach_machine by blast
  then have inv': "machine_inv C cx st'" and db: "db_of st' = spec_step (db_of st) op"
    using machine_step [OF _ op(2,3)] by auto
  have lookup: "ds_lookup st' = ds_lookup st" using arg_cong [OF db, of db_known] op(1) by (cases op) (auto simp: db_of_def)
  have "last_commit_round st \<le> last_commit_round st'"
    using arg_cong [OF db, of db_commit] op(1,2)
    by (cases op) (auto simp: db_of_def last_commit_round_def split: if_splits)
  then have gc: "gc_round cx st \<le> gc_round cx st'" by (rule gc_round_mono)
  have "dag_part cx D st'" using manager_okD(1) [OF ok] inv' lookup by (simp add: dag_part_def machine_inv_def)
  then show ?thesis using ok bm_inv_mono [OF _ gc] lookup by (simp add: manager_ok_def)
qed

lemma try_accept_blocks_spec:
  assumes "manager_ok cx D E bm st" and "\<forall>b \<in> set bs. D (vb_reference b) = Some b"
  obtains bm' st' new missing where "try_accept_blocks cx now bm st bs = Some (bm', st', new, missing)"
    "manager_ok cx D E bm' st'" "grows cx D bm st new bm' st'" "\<forall>b \<in> set bs. received cx b bm' st'"
proof -
  have "\<forall>b \<in> set (sort_key vb_round bs). D (vb_reference b) = Some b" using assms(2) by simp
  from accept_steps_spec [OF assms(1) this, of now "[]" "{||}"] that show ?thesis
    by (auto simp: try_accept_blocks_def try_accept_blocks_internal_def)
qed

lemma manager_ok_exempt: "manager_ok cx D E bm st \<Longrightarrow> manager_ok cx D (E \<union> E') bm st"
  unfolding manager_ok_def bm_inv_def by blast

lemma try_accept_committed_blocks_spec:
  assumes "manager_ok cx D E bm st" and "\<forall>b \<in> set bs. D (vb_reference b) = Some b \<and> 0 < vb_round b"
  obtains bm' st' new where "try_accept_committed_blocks cx now bm st bs = Some (bm', st', new)"
    "manager_ok cx D (E \<union> incomplete cx st bs) bm' st'" "grows cx D bm st new bm' st'" "vb_reference ` set bs \<subseteq> dom (ds_lookup st')"
proof -
  let ?bs = "sort_key vb_round bs" and ?E = "E \<union> incomplete cx st bs"
  have "manager_ok cx D ?E bm st" using assms(1) by (rule manager_ok_exempt)
  moreover have "\<forall>b \<in> set ?bs. D (vb_reference b) = Some b \<and> 0 < vb_round b" "sorted (map vb_round ?bs)"
    "\<forall>b \<in> set ?bs. vb_reference b \<notin> ?E \<longrightarrow>
       (\<forall>y \<in> set (vb_ancestors b). gc_round cx st < br_round y \<longrightarrow> y \<in> dom (ds_lookup st) \<union> vb_reference ` set ?bs)"
    using assms(2) by (auto simp: incomplete_def get_block_lookup)
  note accept_steps_committed_spec [OF calculation this, of now "[]" "{||}"]
  with that show ?thesis
    by (auto simp: try_accept_committed_blocks_def try_accept_blocks_internal_def)
qed

lemma grows_runs_on: "grows cx D bm st new bm' st' \<Longrightarrow> runs_on C cx D st \<Longrightarrow> runs_on C cx D st'"
  unfolding grows_def by (erule runs_on_accepting [OF conjunct1])

lemma manager_reach_ok:
  assumes src: "dag_source C cx D" and "manager_reach C cx D E bm st"
  shows "runs_on C cx D st \<and> manager_ok cx D E bm st"
  using assms(2)
proof induction
  case (reach_start now st)
  then show ?case using manager_start [OF src] by blast
next
  case (reach_receive E bm st bs now bm' st' accepted missing)
  then have ok: "manager_ok cx D E bm st" by blast
  obtain bm1 st1 new missing1 where "try_accept_blocks cx now bm st bs = Some (bm1, st1, new, missing1)"
    "manager_ok cx D E bm1 st1" "grows cx D bm st new bm1 st1" "\<forall>b \<in> set bs. received cx b bm1 st1"
    by (rule try_accept_blocks_spec [OF ok reach_receive.hyps(2)])
  then show ?case using reach_receive.hyps(3) reach_receive.IH grows_runs_on by simp
next
  case (reach_committed E bm st bs now bm' st' accepted)
  then have ok: "manager_ok cx D E bm st" by blast
  obtain bm1 st1 new where "try_accept_committed_blocks cx now bm st bs = Some (bm1, st1, new)"
    "manager_ok cx D (E \<union> incomplete cx st bs) bm1 st1" "grows cx D bm st new bm1 st1" "vb_reference ` set bs \<subseteq> dom (ds_lookup st1)"
    by (rule try_accept_committed_blocks_spec [OF ok reach_committed.hyps(2)])
  then show ?case using reach_committed.hyps(3) reach_committed.IH grows_runs_on by simp
next
  case (reach_find E bm st refs bm' missing)
  then have ok: "manager_ok cx D E bm st" by blast
  obtain bm1 missing1 where "try_find_blocks cx bm st refs = Some (bm1, missing1)" "manager_ok cx D E bm1 st"
    by (rule try_find_blocks_spec [OF ok reach_find.hyps(2)])
  then show ?case using reach_find.hyps(3) reach_find.IH by simp
next
  case (reach_unsuspend E bm st now bm' st')
  then have ok: "manager_ok cx D E bm st" by blast
  from gc_loop_spec [OF ok refl, of now] obtain bm1 st1 new where "gc_loop cx now (gc_round cx st) bm st = Some (bm1, st1)"
    "manager_ok cx D E bm1 st1" "grows cx D bm st new bm1 st1" by blast
  then show ?case using reach_unsuspend.hyps(2) reach_unsuspend.IH grows_runs_on
    by (simp add: try_unsuspend_blocks_for_latest_gc_round_def)
next
  case (reach_other E bm st op st')
  have "runs_on C cx D st'"
    by (rule runs_on_step [OF _ reach_other.hyps(4,3)]) (use reach_other.IH reach_other.hyps(2) in auto)
  then show ?case using manager_other [OF _ _ reach_other.hyps(2-4)] reach_other.IH by blast
qed

text \<open>Blocks of the DAG state, but for exempt ones, have their ancestors above the garbage collection round.\<close>

definition complete_except :: "(block_ref \<Rightarrow> verified_block option) \<Rightarrow> round \<Rightarrow> block_ref set \<Rightarrow> bool" where
  "complete_except m gc E \<longleftrightarrow> (\<forall>r b y. m r = Some b \<longrightarrow> r \<notin> E \<longrightarrow> y \<in> set (vb_ancestors b) \<longrightarrow> gc < br_round y \<longrightarrow> m y \<noteq> None)"

lemma manager_ok_complete:
  assumes "manager_ok cx D E bm st"
  shows "complete_except (get_block st) (gc_round cx st) E"
  unfolding complete_except_def get_block_lookup
  using bm_inv_missing(5) [OF manager_okD(2) [OF assms]] dag_partD(4) [OF manager_okD(1) [OF assms]] by blast

lemma complete_except_none: "complete_except m gc {} \<longleftrightarrow> complete_above m gc"
  by (simp add: complete_except_def complete_above_def)

text \<open>Without incomplete certified commits, the DAG state behind the manager is what the committer needs.\<close>

lemma manager_validator_view:
  assumes src: "dag_source C cx D" and reach: "manager_reach C cx D {} bm st"
    and small: "fcard (fmdom (ds_recent_blocks st)) * cm_total_stake (cx_committee cx) < 2 ^ 64"
  shows "\<exists>ops. validator_view C cx D ops st"
proof -
  have ok: "manager_ok cx D {} bm st" using manager_reach_ok [OF src reach] by blast
  obtain ops where "dag_reach C cx ops st" "\<forall>b \<in> set (accepted_blocks ops). D (vb_reference b) = Some b"
    using manager_reach_ok [OF src reach] by (auto simp: runs_on_def)
  moreover have "complete_above (get_block st) (gc_round cx st)"
    using manager_ok_complete [OF ok] by (simp add: complete_except_none)
  ultimately show ?thesis using src small by (auto simp: validator_view_def dag_source_def)
qed

section \<open>An example\<close>

declare unsuspend_loop.simps [code] gc_loop.simps [code]

lemma example_source: "dag_source example_crypto example_context example_dag"
proof -
  have "distinct (map vb_reference example_blocks)" by code_simp
  then have "example_dag (vb_reference b) = Some b" if "b \<in> set example_blocks" for b
    unfolding example_dag_def example_blocks_def [symmetric] using that by (intro map_of_is_SomeI) (auto simp: comp_def)
  moreover have "genesis_blocks example_crypto example_context = Some gs \<Longrightarrow> b \<in> set gs \<Longrightarrow> b \<in> set example_blocks" for gs b
    by (simp add: example_blocks_def example_genesis_def)
  ultimately show ?thesis using example_dag_ok
    by (simp add: dag_source_def dag_ok_def few_equivocators_def own_unique_def)
qed

definition example_receive :: "verified_block list list \<Rightarrow> (block_manager \<times> dag_state) option" where
  "example_receive bss = Option.bind (dag_state_new example_crypto example_context 5 mem_store_new) (\<lambda>st.
     foldM (\<lambda>(bm, st) bs. map_option (\<lambda>(bm', st', _, _). (bm', st')) (try_accept_blocks example_context 7 bm st bs))
       (block_manager_new example_context, st) bss)"

lemma example_receive_reach:
  assumes "example_receive bss = Some (bm, st)" and "\<forall>bs \<in> set bss. \<forall>b \<in> set bs. example_dag (vb_reference b) = Some b"
  shows "manager_reach example_crypto example_context example_dag {} bm st"
proof -
  let ?R = "\<lambda>(bm, st). manager_reach example_crypto example_context example_dag {} bm st"
  obtain st0 where st0: "dag_state_new example_crypto example_context 5 mem_store_new = Some st0"
    and fold: "foldM (\<lambda>(bm, st) bs. map_option (\<lambda>(bm', st', _, _). (bm', st')) (try_accept_blocks example_context 7 bm st bs))
       (block_manager_new example_context, st0) bss = Some (bm, st)"
    using assms(1) by (auto simp: example_receive_def elim: bind_SomeE)
  from fold have "?R (bm, st)"
  proof (rule foldM_invariant)
    show "?R (block_manager_new example_context, st0)" using reach_start [OF context_ok_example st0] by simp
    show "?R s'" if "bs \<in> set bss" "?R s" "(case s of (bm, st) \<Rightarrow> \<lambda>bs. map_option (\<lambda>(bm', st', _, _). (bm', st'))
        (try_accept_blocks example_context 7 bm st bs)) bs = Some s'" for s bs s'
      using that assms(2) by (auto intro: reach_receive)
  qed
  then show ?thesis by simp
qed

text \<open>Round two arrives before round one.\<close>

lemma example_suspended:
  "map_option (\<lambda>(bm, st). (sorted_list_of_fset (fmdom (bm_suspended_blocks bm)), sorted_list_of_fset (bm_missing_blocks bm)))
     (example_receive [example_layer 2]) = Some (map vb_reference (example_layer 2), map vb_reference (example_layer 1))"
  "map_option (\<lambda>(bm, st). (sorted_list_of_fset (fmdom (bm_suspended_blocks bm)), sorted_list_of_fset (bm_missing_blocks bm)))
     (example_receive [example_layer 2, example_layer 1]) = Some ([], [])"
  by code_simp+

lemma example_layers_source: "list_all (\<lambda>b. example_dag (vb_reference b) = Some b) (example_layer 1 @ example_layer 2)"
  by code_simp

lemma example_waiting:
  obtains bm st where "example_receive [example_layer 2] = Some (bm, st)"
    "manager_reach example_crypto example_context example_dag {} bm st"
    "sorted_list_of_fset (fmdom (bm_suspended_blocks bm)) = map vb_reference (example_layer 2)"
proof -
  obtain bm st where run: "example_receive [example_layer 2] = Some (bm, st)"
    "sorted_list_of_fset (fmdom (bm_suspended_blocks bm)) = map vb_reference (example_layer 2)"
    using example_suspended(1) by auto
  then show ?thesis using that example_receive_reach [OF run(1)] example_layers_source by (simp add: list_all_iff)
qed

text \<open>Then a certified commit brings a block of round two, and a commit collects round one.\<close>

lemma example_layer_source:
  "list_all (\<lambda>b. example_dag (vb_reference b) = Some b \<and> 0 < vb_round b) [example_layer 2 ! 0]"
  by code_simp

lemma example_committed_run:
  "map_option (\<lambda>(bm, _). vb_reference (example_layer 2 ! 1) |\<in>| fmdom (bm_suspended_blocks bm))
     (Option.bind (example_receive [example_layer 2]) (\<lambda>(bm, st). try_accept_committed_blocks example_context 8 bm st [example_layer 2 ! 0])) = Some True"
  by code_simp

lemma example_committed:
  obtains bm st bm' st' accepted where "example_receive [example_layer 2] = Some (bm, st)"
    "try_accept_committed_blocks example_context 8 bm st [example_layer 2 ! 0] = Some (bm', st', accepted)"
    "vb_reference (example_layer 2 ! 1) |\<in>| fmdom (bm_suspended_blocks bm')"
    "manager_reach example_crypto example_context example_dag ({} \<union> incomplete example_context st [example_layer 2 ! 0]) bm' st'"
proof -
  obtain bm st where run: "example_receive [example_layer 2] = Some (bm, st)"
    and reach: "manager_reach example_crypto example_context example_dag {} bm st" by (rule example_waiting)
  then obtain bm' st' accepted where step: "try_accept_committed_blocks example_context 8 bm st [example_layer 2 ! 0] = Some (bm', st', accepted)"
    "vb_reference (example_layer 2 ! 1) |\<in>| fmdom (bm_suspended_blocks bm')"
    using example_committed_run by auto
  have "\<forall>b \<in> set [example_layer 2 ! 0]. example_dag (vb_reference b) = Some b \<and> 0 < vb_round b"
    using example_layer_source unfolding list_all_iff .
  then show ?thesis using that run step reach_committed [OF reach _ step(1)] by blast
qed

definition example_late_commit :: trusted_commit where
  "example_late_commit = new_trusted (\<lambda>_. 0) (commit_new 1 0 10 (BlockRef 61 0 0) []) []"

lemma example_collected:
  obtains bm st st1 where "example_receive [example_layer 2] = Some (bm, st)"
    "dag_step example_crypto example_context st (OpAddCommit 8 example_late_commit) = Some st1" "gc_round example_context st1 = 1"
    "manager_reach example_crypto example_context example_dag {} bm st1"
proof -
  obtain bm st where run: "example_receive [example_layer 2] = Some (bm, st)"
    and reach: "manager_reach example_crypto example_context example_dag {} bm st" by (rule example_waiting)
  have "map_option (\<lambda>(bm, st). (op_allowed st (OpAddCommit 8 example_late_commit), map_option (gc_round example_context)
      (dag_step example_crypto example_context st (OpAddCommit 8 example_late_commit)))) (example_receive [example_layer 2]) = Some (True, Some 1)"
    by code_simp
  then obtain st1 where st1: "op_allowed st (OpAddCommit 8 example_late_commit)"
    "dag_step example_crypto example_context st (OpAddCommit 8 example_late_commit) = Some st1" "gc_round example_context st1 = 1"
    using run by (auto simp del: dag_step.simps op_allowed.simps)
  have "manager_reach example_crypto example_context example_dag {} bm st1" by (rule reach_other [OF reach _ st1(1,2)]) simp
  then show ?thesis using that run st1 by blast
qed

lemma growsD:
  assumes "grows cx D bm st new bm' st'"
  shows "ds_last_commit st' = ds_last_commit st"
    and "dom (ds_lookup st') = dom (ds_lookup st) \<union> vb_reference ` set new"
    and "vb_reference ` set new \<inter> dom (ds_lookup st) = {}"
    and "distinct (map vb_reference new)"
    and "fset (fmdom (bm_suspended_blocks bm)) \<subseteq> fset (fmdom (bm_suspended_blocks bm')) \<union> dom (ds_lookup st')"
  using assms unfolding grows_def by blast+

section \<open>Properties\<close>

text \<open>
  C8: Whatever blocks of a valid DAG arrive, in any order and in batches, on their own or in certified commits,
  while the validator commits, collects garbage and flushes, every block in its DAG state has its
  ancestors above the garbage collection round there too, except the blocks that a certified commit brought
  without an ancestor (those in \<open>E\<close>). No suspended block is in the DAG state, and each waits, through a chain of
  suspended ancestors, for a block that is reported missing. The blocks reported missing are exactly the
  missing ancestors that are not suspended.
\<close>

theorem manager_dag_complete:
  assumes src: "dag_source C cx D" and reach: "manager_reach C cx D E bm st"
  shows "complete_except (get_block st) (gc_round cx st) E \<and>
     (\<forall>x s. fmlookup (bm_suspended_blocks bm) x = Some s \<longrightarrow> get_block st x = None \<and>
        (\<exists>y. y |\<in>| bm_missing_blocks bm \<and> linked_to (\<lambda>r. map_option sb_block (fmlookup (bm_suspended_blocks bm) r)) 0 {x} y)) \<and>
     bm_missing_blocks bm = fmdom (bm_missing_ancestors bm) |-| fmdom (bm_suspended_blocks bm)"
proof -
  have ok: "manager_ok cx D E bm st" using manager_reach_ok [OF src reach] by blast
  note inv = manager_okD(2) [OF ok] and part = dag_partD [OF manager_okD(1) [OF ok]]
  have "get_block st x = None" if "fmlookup (bm_suspended_blocks bm) x = Some s" for x s
    using bm_inv_suspended(1) [OF inv that] by (auto simp: get_block_lookup)
  moreover have "bm_missing_blocks bm = fmdom (bm_missing_ancestors bm) |-| fmdom (bm_suspended_blocks bm)"
    using bm_inv_missing(4) [OF inv] by (auto simp: fset_eq_iff)
  ultimately show ?thesis using manager_ok_complete [OF ok] waits_for_missing [OF part(2) inv] by blast
qed

theorem manager_dag_complete_witness:
  "\<exists>bm st bm' st' accepted E y. example_receive [example_layer 2] = Some (bm, st) \<and>
     try_accept_committed_blocks example_context 8 bm st [example_layer 2 ! 0] = Some (bm', st', accepted) \<and>
     E \<subseteq> {vb_reference (example_layer 2 ! 0)} \<and> complete_except (get_block st') (gc_round example_context st') E \<and>
     y |\<in>| bm_missing_blocks bm' \<and> linked_to (\<lambda>r. map_option sb_block (fmlookup (bm_suspended_blocks bm') r)) 0 {vb_reference (example_layer 2 ! 1)} y"
proof -
  obtain bm st bm' st' accepted where run: "example_receive [example_layer 2] = Some (bm, st)"
    and step: "try_accept_committed_blocks example_context 8 bm st [example_layer 2 ! 0] = Some (bm', st', accepted)"
    and sus: "vb_reference (example_layer 2 ! 1) |\<in>| fmdom (bm_suspended_blocks bm')"
    and reach: "manager_reach example_crypto example_context example_dag ({} \<union> incomplete example_context st [example_layer 2 ! 0]) bm' st'"
    by (rule example_committed)
  obtain s where "fmlookup (bm_suspended_blocks bm') (vb_reference (example_layer 2 ! 1)) = Some s" using sus by (auto simp: fmlookup_dom_iff)
  then obtain y where y: "y |\<in>| bm_missing_blocks bm'"
    "linked_to (\<lambda>r. map_option sb_block (fmlookup (bm_suspended_blocks bm') r)) 0 {vb_reference (example_layer 2 ! 1)} y"
    using manager_dag_complete [OF example_source reach] by blast
  have "{} \<union> incomplete example_context st [example_layer 2 ! 0] \<subseteq> {vb_reference (example_layer 2 ! 0)}" by (auto simp: incomplete_def)
  moreover have "complete_except (get_block st') (gc_round example_context st') ({} \<union> incomplete example_context st [example_layer 2 ! 0])"
    using manager_dag_complete [OF example_source reach] by (rule conjunct1)
  ultimately show ?thesis using run step y by (intro exI conjI)
qed

text \<open>
  C9: \<open>try_accept_blocks\<close> never panics on blocks of a valid DAG. The blocks it returns are exactly
  those that enter the DAG state, each once; every block passed to it above the garbage collection
  round is then in the DAG state or suspended, and nothing suspended before is lost.
\<close>

theorem try_accept_blocks_total:
  assumes src: "dag_source C cx D" and reach: "manager_reach C cx D E bm st" and bs: "\<forall>b \<in> set bs. D (vb_reference b) = Some b"
  shows "\<exists>bm' st' accepted missing. try_accept_blocks cx now bm st bs = Some (bm', st', accepted, missing) \<and>
     dom (get_block st') = dom (get_block st) \<union> vb_reference ` set accepted \<and>
     vb_reference ` set accepted \<inter> dom (get_block st) = {} \<and> distinct (map vb_reference accepted) \<and>
     (\<forall>b \<in> set bs. gc_round cx st < vb_round b \<longrightarrow>
        vb_reference b \<in> dom (get_block st') \<or> vb_reference b |\<in>| fmdom (bm_suspended_blocks bm')) \<and>
     (\<forall>x. x |\<in>| fmdom (bm_suspended_blocks bm) \<longrightarrow> x |\<in>| fmdom (bm_suspended_blocks bm') \<or> x \<in> dom (get_block st'))"
proof -
  have ok: "manager_ok cx D E bm st" using manager_reach_ok [OF src reach] by blast
  have get: "get_block st = ds_lookup st" for st by (rule ext) (rule get_block_lookup)
  obtain bm' st' new missing where run: "try_accept_blocks cx now bm st bs = Some (bm', st', new, missing)"
    "manager_ok cx D E bm' st'" "grows cx D bm st new bm' st'" "\<forall>b \<in> set bs. received cx b bm' st'"
    by (rule try_accept_blocks_spec [OF ok bs])
  note g = growsD [OF run(3)]
  have "\<forall>b \<in> set bs. gc_round cx st < vb_round b \<longrightarrow>
      vb_reference b \<in> dom (ds_lookup st') \<or> vb_reference b |\<in>| fmdom (bm_suspended_blocks bm')"
    using run(4) gc_round_cong [OF g(1), of cx] by (fastforce simp: received_def)
  moreover have "\<forall>x. x |\<in>| fmdom (bm_suspended_blocks bm) \<longrightarrow> x |\<in>| fmdom (bm_suspended_blocks bm') \<or> x \<in> dom (ds_lookup st')"
    using g(5) by blast
  ultimately show ?thesis using run(1) g(2-4) unfolding get by blast
qed

theorem try_accept_blocks_total_witness:
  "\<exists>bm st bm' st' accepted missing. example_receive [example_layer 2] = Some (bm, st) \<and>
     try_accept_blocks example_context 8 bm st (example_layer 1) = Some (bm', st', accepted, missing) \<and>
     dom (get_block st') = dom (get_block st) \<union> vb_reference ` set accepted"
proof -
  obtain bm st where run: "example_receive [example_layer 2] = Some (bm, st)"
    and reach: "manager_reach example_crypto example_context example_dag {} bm st" by (rule example_waiting)
  have "\<forall>b \<in> set (example_layer 1). example_dag (vb_reference b) = Some b"
    using example_layers_source unfolding list_all_iff set_append ball_Un by (rule conjunct1)
  from try_accept_blocks_total [OF example_source reach this, of 8] obtain bm' st' accepted missing where
    "try_accept_blocks example_context 8 bm st (example_layer 1) = Some (bm', st', accepted, missing)"
    "dom (get_block st') = dom (get_block st) \<union> vb_reference ` set accepted" by (elim exE conjE) rule
  then show ?thesis using run by (intro exI conjI)
qed

text \<open>
  C10: When the garbage collection round has advanced, giving up the missing ancestors at or below it never
  panics: none of them is itself suspended, and the blocks that only waited for them enter the DAG state in
  one pass. Every ancestor missing afterwards is above the round, and the DAG state is still complete, but for
  the blocks in \<open>E\<close> that a certified commit brought without an ancestor.
\<close>

theorem gc_unsuspend_total:
  assumes src: "dag_source C cx D" and reach: "manager_reach C cx D E bm st"
  shows "\<exists>bm' st'. try_unsuspend_blocks_for_latest_gc_round cx now bm st = Some (bm', st') \<and>
     (\<forall>y. y |\<in>| fmdom (bm_missing_ancestors bm') \<longrightarrow> gc_round cx st < br_round y) \<and>
     (\<forall>x. x |\<in>| fmdom (bm_suspended_blocks bm) \<longrightarrow> x |\<in>| fmdom (bm_suspended_blocks bm') \<or> x \<in> dom (get_block st')) \<and>
     complete_except (get_block st') (gc_round cx st') E"
proof -
  have ok: "manager_ok cx D E bm st" using manager_reach_ok [OF src reach] by blast
  have get: "get_block st = ds_lookup st" for st by (rule ext) (rule get_block_lookup)
  from gc_loop_spec [OF ok refl, of now] obtain bm' st' new where
    run: "gc_loop cx now (gc_round cx st) bm st = Some (bm', st')" "manager_ok cx D E bm' st'" "grows cx D bm st new bm' st'"
      "\<forall>y. y |\<in>| fmdom (bm_missing_ancestors bm') \<longrightarrow> gc_round cx st < br_round y" by blast
  have "complete_except (ds_lookup st') (gc_round cx st') E" using manager_ok_complete [OF run(2)] unfolding get .
  moreover have "fset (fmdom (bm_suspended_blocks bm)) \<subseteq> fset (fmdom (bm_suspended_blocks bm')) \<union> dom (ds_lookup st')"
    by (rule growsD(5) [OF run(3)])
  ultimately show ?thesis using run(1,4) unfolding get try_unsuspend_blocks_for_latest_gc_round_def by blast
qed

theorem gc_unsuspend_total_witness:
  "\<exists>bm st st1 bm' st'. example_receive [example_layer 2] = Some (bm, st) \<and>
     dag_step example_crypto example_context st (OpAddCommit 8 example_late_commit) = Some st1 \<and> gc_round example_context st1 = 1 \<and>
     try_unsuspend_blocks_for_latest_gc_round example_context 9 bm st1 = Some (bm', st') \<and>
     (\<forall>y. y |\<in>| fmdom (bm_missing_ancestors bm') \<longrightarrow> 1 < br_round y) \<and> complete_above (get_block st') (gc_round example_context st')"
proof -
  obtain bm st st1 where run: "example_receive [example_layer 2] = Some (bm, st)"
    "dag_step example_crypto example_context st (OpAddCommit 8 example_late_commit) = Some st1" "gc_round example_context st1 = 1"
    and reach: "manager_reach example_crypto example_context example_dag {} bm st1" by (rule example_collected)
  from gc_unsuspend_total [OF example_source reach, of 9, unfolded run(3) complete_except_none] obtain bm' st' where
    "try_unsuspend_blocks_for_latest_gc_round example_context 9 bm st1 = Some (bm', st')"
    "\<forall>y. y |\<in>| fmdom (bm_missing_ancestors bm') \<longrightarrow> 1 < br_round y"
    "complete_above (get_block st') (gc_round example_context st')" by (elim exE conjE) rule
  then show ?thesis using run by (intro exI conjI)
qed

end
