(* ===== verification/Verified_Dag.thy ===== *)
theory Verified_Dag
  imports Block_Verifier Manager_Machine
begin

text \<open>
  From the block verifier to the DAG: the blocks a validator passes to its block manager are genesis blocks
  or blocks that passed \<open>verify_block\<close> and were wrapped by \<open>VerifiedBlock::new_verified\<close>. Such
  blocks form a valid DAG, which is what the block manager, the committer and the linearizer build on.
\<close>

section \<open>Verified blocks form a valid DAG\<close>

definition verified :: "crypto \<Rightarrow> signed_block_verifier \<Rightarrow> verified_block \<Rightarrow> bool" where
  "verified C V b \<longleftrightarrow> b = new_verified C (vb_block b) (vb_serialized b) \<and> verify_block C V (vb_block b) = Some (Inr ())"

definition verified_dag :: "crypto \<Rightarrow> signed_block_verifier \<Rightarrow> (block_ref \<rightharpoonup> verified_block) \<Rightarrow> bool" where
  "verified_dag C V D \<longleftrightarrow> (\<exists>gs. genesis_blocks C (sv_context V) = Some gs \<and> (\<forall>b \<in> set gs. D (vb_reference b) = Some b) \<and>
     (\<forall>r b. D r = Some b \<longrightarrow> vb_reference b = r \<and> (b \<in> set gs \<or> verified C V b)))"

lemma verify_block_accepts:
  assumes "committee_ok (cx_committee (sv_context V))" and "verify_block C V sb = Some (Inr ())"
  shows "0 < block_round (sb_inner sb)" and "block_author (sb_inner sb) < committee_size (cx_committee (sv_context V))"
    and "ancestors_valid (cx_committee (sv_context V)) (sv_genesis V) (sb_inner sb)"
proof -
  let ?c = "cx_committee (sv_context V)" and ?b = "sb_inner sb"
  have b: "0 < block_round ?b" "block_author ?b < committee_size ?c" "block_ancestors ?b \<noteq> []"
    "\<exists>s. verify_ancestors ?c (sv_genesis V) ?b 0 (replicate (committee_size ?c) False) 0 (block_ancestors ?b) = Some (Inr s) \<and>
       reached_quorum ?c s"
    using assms(2) by (auto simp: verify_block_def Let_def is_valid_index_def elim!: bind_SomeE split: sum.splits if_splits)
  then show "0 < block_round ?b" "block_author ?b < committee_size ?c" "ancestors_valid ?c (sv_genesis V) ?b"
    using verify_ancestors_block [OF assms(1) b(1,3)] by auto
qed

lemma verified_block_ok:
  assumes "committee_ok (cx_committee (sv_context V))" and "verified C V b"
  shows "block_ok (cx_committee (sv_context V)) b" and "0 < vb_round b"
    and "y \<in> set (vb_ancestors b) \<Longrightarrow> br_round y = 0 \<Longrightarrow> y |\<in>| sv_genesis V"
  using verify_block_accepts [OF assms(1), of C "vb_block b"] assms(2)
  by (auto simp: verified_def block_ok_def ancestors_valid_def vb_accessors)

lemma genesis_block_ok:
  assumes "genesis_blocks C cx = Some gs" and "g \<in> set gs"
  shows "block_ok (cx_committee cx) g"
  using genesis_blocks_in_set [OF assms] by (simp add: block_ok_def)

lemma verified_dag_valid_dag:
  assumes ok: "committee_ok (cx_committee (sv_context V))" and dag: "verified_dag C V D"
  shows "valid_dag (cx_committee (sv_context V)) D"
  unfolding valid_dag_def
proof (intro allI impI)
  fix r b assume b: "D r = Some b"
  obtain gs where gs: "genesis_blocks C (sv_context V) = Some gs"
    and "vb_reference b = r \<and> (b \<in> set gs \<or> verified C V b)" using dag b unfolding verified_dag_def by blast
  then show "vb_reference b = r \<and> block_ok (cx_committee (sv_context V)) b"
    using genesis_block_ok [OF gs] verified_block_ok(1) [OF ok] by blast
qed

lemma verified_dag_source:
  assumes dag: "verified_dag C V D" and ok: "committee_ok (cx_committee cx)"
    and cx: "cx_committee (sv_context V) = cx_committee cx" "genesis_blocks C cx = genesis_blocks C (sv_context V)"
    and few: "few_equivocators (cx_committee cx) Byz D" and own: "cx_own_index cx \<notin> Byz"
  shows "dag_source C cx D"
proof -
  have "valid_dag (cx_committee cx) D" using verified_dag_valid_dag [OF _ dag] ok cx(1) by simp
  moreover have "own_unique cx D" using few own by (auto simp: own_unique_def few_equivocators_def)
  ultimately show ?thesis using dag cx(2) by (auto simp: dag_source_def verified_dag_def)
qed

section \<open>An example\<close>

definition example_block_verifier :: signed_block_verifier where
  "example_block_verifier = (case signed_block_verifier_new example_crypto example_context (\<lambda>_. Inr ()) (\<lambda>_. Inr []) of Some V \<Rightarrow> V)"

lemma example_blocks_verified:
  "list_all (\<lambda>b. vb_digest b = cr_hash example_crypto (vb_serialized b) \<and>
     verify_block example_crypto example_block_verifier (vb_block b) = Some (Inr ())) (example_layers 4)"
  by code_simp

lemma example_block_verifier_new:
  "signed_block_verifier_new example_crypto example_context (\<lambda>_. Inr ()) (\<lambda>_. Inr []) = Some example_block_verifier"
proof -
  have "genesis_blocks example_crypto example_context \<noteq> None" by code_simp
  then show ?thesis by (auto simp: example_block_verifier_def signed_block_verifier_new_def)
qed

lemma verifier_new:
  assumes "signed_block_verifier_new C cx vb vvb = Some V"
  obtains gs where "sv_context V = cx" "genesis_blocks C cx = Some gs" "sv_genesis V = fset_of_list (map vb_reference gs)"
  using assms that by (auto simp: signed_block_verifier_new_def elim!: bind_SomeE)

lemma example_verified_dag: "verified_dag example_crypto example_block_verifier example_dag"
proof -
  obtain gs where gs: "sv_context example_block_verifier = example_context" "genesis_blocks example_crypto example_context = Some gs"
    by (rule verifier_new [OF example_block_verifier_new])
  have eq: "gs = example_genesis" using gs(2) by (simp add: example_genesis_def)
  have mem: "b \<in> set example_genesis \<or> b \<in> set (example_layers 4)" "vb_reference b = r" if "example_dag r = Some b" for r b
    using map_of_SomeD [OF that [unfolded example_dag_def]] by auto
  have "verified example_crypto example_block_verifier b" if "b \<in> set (example_layers 4)" for b
    using example_blocks_verified that by (auto simp: verified_def new_verified_def list_all_iff)
  moreover have "example_dag (vb_reference b) = Some b" if "b \<in> set example_genesis" for b
    using example_source gs(2) that unfolding eq dag_source_def by blast
  ultimately show ?thesis using mem unfolding verified_dag_def gs(1) gs(2) [unfolded eq] by blast
qed

section \<open>Properties\<close>

text \<open>
  C11: The blocks that pass \<open>verify_block\<close>, together with the genesis blocks, are a well-formed DAG: every
  block is stored under its own reference, comes from an authority of the committee, names at most one
  ancestor per authority, all of lower rounds and with a quorum in the round before, and an ancestor of
  round zero is a genesis block.
\<close>

theorem verified_blocks_form_dag:
  assumes ok: "committee_ok (cx_committee cx)" and V: "signed_block_verifier_new C cx vb vvb = Some V"
    and dag: "verified_dag C V D"
  shows "valid_dag (cx_committee cx) D \<and>
     (\<forall>r b y. D r = Some b \<longrightarrow> y \<in> set (vb_ancestors b) \<longrightarrow> br_round y = 0 \<longrightarrow>
        (\<exists>g. D y = Some g \<and> vb_ancestors g = []))"
proof -
  obtain gs where gs: "sv_context V = cx" "genesis_blocks C cx = Some gs" "sv_genesis V = fset_of_list (map vb_reference gs)"
    by (rule verifier_new [OF V])
  have D: "D (vb_reference g) = Some g" if "g \<in> set gs" for g
    using dag that gs(1,2) by (auto simp: verified_dag_def)
  have "\<exists>g. D y = Some g \<and> vb_ancestors g = []"
    if b: "D r = Some b" and y: "y \<in> set (vb_ancestors b)" "br_round y = 0" for r b y
  proof -
    have "b \<in> set gs \<or> verified C V b" using dag b gs(1,2) by (auto simp: verified_dag_def)
    then have "verified C V b" using genesis_blocks_in_set(3) [OF gs(2), of b] y(1) by auto
    then have "y |\<in>| sv_genesis V" using verified_block_ok(3) ok y gs(1) by blast
    then obtain g where "g \<in> set gs" "vb_reference g = y" unfolding gs(3) by (auto simp: fset_of_list.rep_eq)
    then show ?thesis using D genesis_blocks_in_set(3) [OF gs(2)] by blast
  qed
  moreover have "valid_dag (cx_committee cx) D" using verified_dag_valid_dag [OF _ dag] ok gs(1) by simp
  ultimately show ?thesis by blast
qed

theorem verified_blocks_form_dag_witness:
  "verified_dag example_crypto example_block_verifier example_dag \<and> valid_dag example_committee example_dag"
  using verified_blocks_form_dag [OF _ example_block_verifier_new example_verified_dag] example_verified_dag
  by (simp add: example_context_def)

end
