(* ===== verification/Transaction_Consumer.thy ===== *)
theory Transaction_Consumer
  imports Block_Verifier
begin

text \<open>
  The way of a transaction into a block (\<open>consensus/core/src/transaction.rs\<close>): the client checks a bundle
  and puts it into the queue, the consumer takes bundles for the next block within the limits of the
  protocol, acknowledges them once the block exists, and reports the fate of the block to the
  submitters.

  A bundle carries the identity of its submitter, a number, in place of the one-shot sender of the
  acknowledgement; the acknowledgements and block statuses sent are returned as lists of messages. The
  queue holds the bundles sent and not yet received. \<open>debug_fatal!\<close> only logs in a release build.
\<close>

section \<open>Definitions\<close>

definition MAX_PENDING_TRANSACTIONS :: nat where
  "MAX_PENDING_TRANSACTIONS = 2000"

record transactions_guard =
  tg_transactions :: "transaction list"
  tg_submitter :: nat

datatype block_status = Sequenced block_ref | GarbageCollected block_ref

datatype limit_reached = MaxNumOfTransactions | MaxBytes | AllTransactionsIncluded

record transaction_consumer =
  tn_queue :: "transactions_guard list"
  tn_max_transactions_in_block_bytes :: nat
  tn_max_num_transactions_in_block :: nat
  tn_pending_transactions :: "transactions_guard option"
  tn_block_status_subscribers :: "(block_ref, nat list) fmap"

definition transaction_consumer_new :: "consensus_context \<Rightarrow> transaction_consumer" where
  "transaction_consumer_new cx = \<lparr>tn_queue = [],
     tn_max_transactions_in_block_bytes = pc_max_transactions_in_block_bytes (cx_protocol_config cx),
     tn_max_num_transactions_in_block = pc_max_num_transactions_in_block (cx_protocol_config cx),
     tn_pending_transactions = None, tn_block_status_subscribers = fmempty\<rparr>"

text \<open>The local variables of \<open>next\<close> that the closure \<open>handle_txs\<close> captures.\<close>

record pull =
  pu_transactions :: "transaction list"
  pu_acks :: "(nat \<times> transaction_index list) list"
  pu_total_bytes :: nat
  pu_limit_reached :: limit_reached

definition guard_bytes :: "transactions_guard \<Rightarrow> nat" where
  "guard_bytes t = sum_list (map (length \<circ> tx_data) (tg_transactions t))"

text \<open>The indices are \<open>u16\<close>: both casts and the sum wrap.\<close>

definition wrap16 :: "nat \<Rightarrow> nat" where
  "wrap16 n = n mod 2 ^ 16"

lemma wrap16_code [code]: "wrap16 n = nat (int n mod 65536)"
  by (simp add: wrap16_def nat_mod_distrib)

lemma wrap16_id [simp]: "n < 2 ^ 16 \<Longrightarrow> wrap16 n = n"
  by (simp add: wrap16_def)

definition handle_txs :: "transaction_consumer \<Rightarrow> pull \<Rightarrow> transactions_guard \<Rightarrow> pull \<times> transactions_guard option" where
  "handle_txs tn p t = (
     if pu_total_bytes p + guard_bytes t > tn_max_transactions_in_block_bytes tn
     then (p\<lparr>pu_limit_reached := MaxBytes\<rparr>, Some t)
     else if length (pu_transactions p) + length (tg_transactions t) > tn_max_num_transactions_in_block tn
     then (p\<lparr>pu_limit_reached := MaxNumOfTransactions\<rparr>, Some t)
     else (let start_idx = wrap16 (length (pu_transactions p));
               indices = [start_idx ..< wrap16 (start_idx + wrap16 (length (tg_transactions t)))] in
       (p\<lparr>pu_transactions := pu_transactions p @ tg_transactions t,
          pu_acks := pu_acks p @ [(tg_submitter t, indices)],
          pu_total_bytes := pu_total_bytes p + guard_bytes t\<rparr>, None)))"

text \<open>The \<open>while\<close> loop: what it leaves pending, and the rest of the queue.\<close>

fun pull_queue :: "transaction_consumer \<Rightarrow> pull \<Rightarrow> transactions_guard list \<Rightarrow>
    pull \<times> transactions_guard option \<times> transactions_guard list" where
  "pull_queue tn p [] = (p, None, [])"
| "pull_queue tn p (t # ts) = (case handle_txs tn p t of
       (p', Some t') \<Rightarrow> (p', Some t', ts)
     | (p', None) \<Rightarrow> pull_queue tn p' ts)"

definition next_transactions :: "transaction_consumer \<Rightarrow>
    transaction_consumer \<times> transaction list \<times> (nat \<times> transaction_index list) list \<times> limit_reached" where
  "next_transactions tn = (
     let p = \<lparr>pu_transactions = [], pu_acks = [], pu_total_bytes = 0, pu_limit_reached = AllTransactionsIncluded\<rparr>;
         p1 = (case tn_pending_transactions tn of Some t \<Rightarrow> fst (handle_txs tn p t) | None \<Rightarrow> p);
         (p2, pending, queue) = pull_queue tn p1 (tn_queue tn) in
     (tn\<lparr>tn_queue := queue, tn_pending_transactions := pending\<rparr>,
      pu_transactions p2, pu_acks p2, pu_limit_reached p2))"

text \<open>The callback: the submitters subscribe to the block and are told where their transactions are.\<close>

definition ack_transactions :: "transaction_consumer \<Rightarrow> (nat \<times> transaction_index list) list \<Rightarrow> block_ref \<Rightarrow>
    transaction_consumer \<times> (nat \<times> block_ref \<times> transaction_index list) list" where
  "ack_transactions tn acks r = (
     let subscribers = foldl (\<lambda>m (submitter, _).
           fmupd r ((case fmlookup m r of Some ss \<Rightarrow> ss | None \<Rightarrow> []) @ [submitter]) m)
           (tn_block_status_subscribers tn) acks in
     (tn\<lparr>tn_block_status_subscribers := subscribers\<rparr>, map (\<lambda>(submitter, indices). (submitter, r, indices)) acks))"

type_synonym status_messages = "(nat \<times> block_status) list"

definition notify_committed :: "(block_ref, nat list) fmap \<times> status_messages \<Rightarrow> block_ref \<Rightarrow>
    (block_ref, nat list) fmap \<times> status_messages" where
  "notify_committed = (\<lambda>(m, out) r. case fmlookup m r of
       Some ss \<Rightarrow> (fmdrop r m, out @ map (\<lambda>s. (s, Sequenced r)) ss)
     | None \<Rightarrow> (m, out))"

text \<open>The loop over \<open>pop_first\<close>, on the entries in ascending order.\<close>

fun notify_collected :: "round \<Rightarrow> (block_ref \<times> nat list) list \<Rightarrow> (block_ref, nat list) fmap \<times> status_messages \<Rightarrow>
    (block_ref, nat list) fmap \<times> status_messages" where
  "notify_collected gc [] (m, out) = (m, out)"
| "notify_collected gc ((r, ss) # entries) (m, out) =
     (if br_round r \<le> gc then notify_collected gc entries (fmdrop r m, out @ map (\<lambda>s. (s, GarbageCollected r)) ss)
      else (m, out))"

definition notify_own_blocks_status :: "transaction_consumer \<Rightarrow> block_ref list \<Rightarrow> round \<Rightarrow>
    transaction_consumer \<times> status_messages" where
  "notify_own_blocks_status tn committed_blocks gc = (
     let (m, out) = foldl notify_committed (tn_block_status_subscribers tn, []) committed_blocks;
         (m', out') = notify_collected gc (sorted_list_of_fmap m) (m, out) in
     (tn\<lparr>tn_block_status_subscribers := m'\<rparr>, out'))"

section \<open>The client\<close>

datatype client_error =
    ConsensusShuttingDown
  | OversizedTransaction nat nat
  | OversizedTransactionBundleBytes nat nat
  | OversizedTransactionBundleCount nat nat

record transaction_client =
  tl_max_transaction_size :: nat
  tl_max_transactions_in_block_bytes :: nat
  tl_max_transactions_in_block_count :: nat

definition transaction_client_new :: "consensus_context \<Rightarrow> transaction_client" where
  "transaction_client_new cx = \<lparr>
     tl_max_transaction_size = pc_max_transaction_size_bytes (cx_protocol_config cx),
     tl_max_transactions_in_block_bytes = pc_max_transactions_in_block_bytes (cx_protocol_config cx),
     tl_max_transactions_in_block_count = pc_max_num_transactions_in_block (cx_protocol_config cx)\<rparr>"

fun check_bundle :: "transaction_client \<Rightarrow> nat \<Rightarrow> bytes list \<Rightarrow> client_error + unit" where
  "check_bundle client bundle_size [] = Inr ()"
| "check_bundle client bundle_size (t # ts) =
     (if length t > tl_max_transaction_size client then Inl (OversizedTransaction (length t) (tl_max_transaction_size client))
      else if bundle_size + length t > tl_max_transactions_in_block_bytes client
      then Inl (OversizedTransactionBundleBytes (bundle_size + length t) (tl_max_transactions_in_block_bytes client))
      else check_bundle client (bundle_size + length t) ts)"

text \<open>
  \<open>receiver_alive\<close> tells whether the consumer still exists; with a full queue \<open>send\<close> waits, and the
  bundle arrives later.
\<close>

definition submit_no_wait :: "transaction_client \<Rightarrow> bool \<Rightarrow> nat \<Rightarrow> bytes list \<Rightarrow> transaction_consumer \<Rightarrow>
    (client_error + transaction_consumer)" where
  "submit_no_wait client receiver_alive submitter transactions tn =
     (if length transactions > tl_max_transactions_in_block_count client
      then Inl (OversizedTransactionBundleCount (length transactions) (tl_max_transactions_in_block_count client))
      else result_bind (check_bundle client 0 transactions) (\<lambda>_.
        if receiver_alive
        then Inr (tn\<lparr>tn_queue := tn_queue tn @ [\<lparr>tg_transactions = map (\<lambda>d. \<lparr>tx_data = d\<rparr>) transactions, tg_submitter = submitter\<rparr>]\<rparr>)
        else Inl ConsensusShuttingDown))"

section \<open>Invariant\<close>

text \<open>Every bundle in the queue fits into an empty block, and its transactions are not too large.\<close>

definition guard_ok :: "consensus_context \<Rightarrow> transactions_guard \<Rightarrow> bool" where
  "guard_ok cx t \<longleftrightarrow> (let pc = cx_protocol_config cx in
     guard_bytes t \<le> pc_max_transactions_in_block_bytes pc \<and>
     length (tg_transactions t) \<le> pc_max_num_transactions_in_block pc \<and>
     (\<forall>x \<in> set (tg_transactions t). length (tx_data x) \<le> pc_max_transaction_size_bytes pc))"

definition waiting_guards :: "transaction_consumer \<Rightarrow> transactions_guard list" where
  "waiting_guards tn = (case tn_pending_transactions tn of Some t \<Rightarrow> [t] | None \<Rightarrow> []) @ tn_queue tn"

definition consumer_inv :: "consensus_context \<Rightarrow> transaction_consumer \<Rightarrow> bool" where
  "consumer_inv cx tn \<longleftrightarrow>
     tn_max_transactions_in_block_bytes tn = pc_max_transactions_in_block_bytes (cx_protocol_config cx) \<and>
     tn_max_num_transactions_in_block tn = pc_max_num_transactions_in_block (cx_protocol_config cx) \<and>
     list_all (guard_ok cx) (waiting_guards tn)"

lemma consumer_inv_new [wf_intros]: "consumer_inv cx (transaction_consumer_new cx)"
  by (simp add: consumer_inv_def transaction_consumer_new_def waiting_guards_def)

lemma check_bundle_iff:
  "check_bundle client bundle_size ts = Inr u \<longleftrightarrow> (\<forall>t \<in> set ts. length t \<le> tl_max_transaction_size client) \<and>
     (ts \<noteq> [] \<longrightarrow> bundle_size + sum_list (map length ts) \<le> tl_max_transactions_in_block_bytes client)"
proof (induction ts arbitrary: bundle_size)
  case (Cons t ts)
  then show ?case by (cases "ts = []") (auto simp: add.assoc)
qed simp

lemma submit_keeps [wf_intros]:
  assumes "consumer_inv cx tn" and "submit_no_wait (transaction_client_new cx) alive submitter txs tn = Inr tn'"
  shows "consumer_inv cx tn'"
proof -
  have "check_bundle (transaction_client_new cx) 0 txs = Inr ()" "length txs \<le> pc_max_num_transactions_in_block (cx_protocol_config cx)"
    and tn': "tn' = tn\<lparr>tn_queue := tn_queue tn @ [\<lparr>tg_transactions = map (\<lambda>d. \<lparr>tx_data = d\<rparr>) txs, tg_submitter = submitter\<rparr>]\<rparr>"
    using assms(2) by (auto simp: submit_no_wait_def result_bind_eq_Inr transaction_client_new_def split: if_splits)
  then have "guard_ok cx \<lparr>tg_transactions = map (\<lambda>d. \<lparr>tx_data = d\<rparr>) txs, tg_submitter = submitter\<rparr>"
    by (cases "txs = []") (auto simp: check_bundle_iff guard_ok_def guard_bytes_def comp_def transaction_client_new_def Let_def)
  then show ?thesis using assms(1) by (simp add: tn' consumer_inv_def waiting_guards_def)
qed

section \<open>Taking transactions\<close>

text \<open>What has been pulled so far is a sequence of whole bundles, within the limits.\<close>

fun acks_from :: "nat \<Rightarrow> transactions_guard list \<Rightarrow> (nat \<times> transaction_index list) list" where
  "acks_from n [] = []"
| "acks_from n (t # ts) = (tg_submitter t, [n ..< n + length (tg_transactions t)]) # acks_from (n + length (tg_transactions t)) ts"

lemma acks_from_append:
  "acks_from n (ts @ us) = acks_from n ts @ acks_from (n + length (concat (map tg_transactions ts))) us"
  by (induction ts arbitrary: n) (simp_all add: add.assoc)

lemma acks_from_nth:
  assumes "i < length ts"
  shows "length (acks_from n ts) = length ts" and "fst (acks_from n ts ! i) = tg_submitter (ts ! i)"
    and "map (\<lambda>k. concat (map tg_transactions ts) ! (k - n)) (snd (acks_from n ts ! i)) = tg_transactions (ts ! i)"
proof -
  show len: "length (acks_from n ts) = length ts" for n by (induction ts arbitrary: n) auto
  show "fst (acks_from n ts ! i) = tg_submitter (ts ! i)"
    using assms by (induction ts arbitrary: n i) (auto simp: nth_Cons split: nat.splits)
  show "map (\<lambda>k. concat (map tg_transactions ts) ! (k - n)) (snd (acks_from n ts ! i)) = tg_transactions (ts ! i)"
    using assms
  proof (induction ts arbitrary: n i)
    case (Cons t ts)
    show ?case
    proof (cases i)
      case 0
      have "map (\<lambda>k. (tg_transactions t @ concat (map tg_transactions ts)) ! (k - n)) [n ..< n + length (tg_transactions t)] = tg_transactions t"
        by (rule nth_equalityI) (auto simp: nth_append)
      then show ?thesis by (simp add: 0)
    next
      case (Suc j)
      let ?m = "n + length (tg_transactions t)"
      have ge: "k \<ge> ?m" if "k \<in> set (snd (acks_from ?m ts ! j))" for k
      proof -
        have "j < length ts \<Longrightarrow> k \<in> set (snd (acks_from m ts ! j)) \<Longrightarrow> m \<le> k" for m j
          by (induction ts arbitrary: m j) (fastforce simp: nth_Cons split: nat.splits)+
        then show ?thesis using that Cons.prems by (simp add: Suc)
      qed
      have "map (\<lambda>k. (tg_transactions t @ concat (map tg_transactions ts)) ! (k - n)) (snd (acks_from ?m ts ! j)) =
          map (\<lambda>k. concat (map tg_transactions ts) ! (k - ?m)) (snd (acks_from ?m ts ! j))"
        by (intro map_cong refl) (auto simp: nth_append dest!: ge)
      also have "\<dots> = tg_transactions (ts ! j)" using Cons.IH [of j ?m] Cons.prems by (simp add: Suc)
      finally show ?thesis by (simp add: Suc)
    qed
  qed simp
qed

definition pulled :: "transaction_consumer \<Rightarrow> transactions_guard list \<Rightarrow> pull \<Rightarrow> bool" where
  "pulled tn ts p \<longleftrightarrow> pu_transactions p = concat (map tg_transactions ts) \<and>
     (tn_max_num_transactions_in_block tn < 2 ^ 16 \<longrightarrow> pu_acks p = acks_from 0 ts) \<and>
     pu_total_bytes p = sum_list (map guard_bytes ts) \<and>
     pu_total_bytes p \<le> tn_max_transactions_in_block_bytes tn \<and>
     length (pu_transactions p) \<le> tn_max_num_transactions_in_block tn"

lemma handle_txs_cases:
  assumes "pulled tn ts p"
  obtains (taken) p' where "handle_txs tn p t = (p', None)" "pulled tn (ts @ [t]) p'"
  | (left) p' where "handle_txs tn p t = (p', Some t)" "pulled tn ts p'"
      "tn_max_transactions_in_block_bytes tn < sum_list (map guard_bytes (ts @ [t])) \<or>
       tn_max_num_transactions_in_block tn < length (concat (map tg_transactions (ts @ [t])))"
proof -
  consider "tn_max_transactions_in_block_bytes tn < pu_total_bytes p + guard_bytes t"
    | "pu_total_bytes p + guard_bytes t \<le> tn_max_transactions_in_block_bytes tn"
      "tn_max_num_transactions_in_block tn < length (pu_transactions p) + length (tg_transactions t)"
    | "pu_total_bytes p + guard_bytes t \<le> tn_max_transactions_in_block_bytes tn"
      "length (pu_transactions p) + length (tg_transactions t) \<le> tn_max_num_transactions_in_block tn"
    by linarith
  then show thesis
    using assms taken left by cases (auto simp: handle_txs_def pulled_def Let_def acks_from_append)
qed

lemma pull_queue_spec:
  assumes "pulled tn ts p"
  obtains us p' pending queue where "pull_queue tn p q = (p', pending, queue)" "pulled tn (ts @ us) p'"
    "us @ (case pending of Some t \<Rightarrow> [t] | None \<Rightarrow> []) @ queue = q"
    "\<forall>t. pending = Some t \<longrightarrow> tn_max_transactions_in_block_bytes tn < sum_list (map guard_bytes (ts @ us @ [t])) \<or>
       tn_max_num_transactions_in_block tn < length (concat (map tg_transactions (ts @ us @ [t])))"
    "pending = None \<longrightarrow> queue = []"
  using assms
proof (induction q arbitrary: ts p thesis)
  case Nil
  then show ?case using Nil.prems(1) [of p None "[]" "[]"] by simp
next
  case (Cons t q)
  show ?case
    using Cons.prems(2)
  proof (rule handle_txs_cases [of tn ts p t])
    fix p1 assume p1: "handle_txs tn p t = (p1, None)" "pulled tn (ts @ [t]) p1"
    show ?thesis
      by (rule Cons.IH [OF _ p1(2)]) (use Cons.prems(1) [of _ _ _ "t # _"] p1(1) in simp)
  next
    fix p1 assume "handle_txs tn p t = (p1, Some t)" "pulled tn ts p1"
      "tn_max_transactions_in_block_bytes tn < sum_list (map guard_bytes (ts @ [t])) \<or>
       tn_max_num_transactions_in_block tn < length (concat (map tg_transactions (ts @ [t])))"
    then show ?thesis using Cons.prems(1) [of p1 "Some t" q "[]"] by simp
  qed
qed

lemma next_transactions_spec:
  assumes inv: "consumer_inv cx tn"
  obtains tn' us p where "next_transactions tn = (tn', pu_transactions p, pu_acks p, pu_limit_reached p)" "pulled tn us p"
    "waiting_guards tn = us @ waiting_guards tn'" "consumer_inv cx tn'"
    "tn_block_status_subscribers tn' = tn_block_status_subscribers tn"
    "\<forall>t ts. waiting_guards tn' = t # ts \<longrightarrow>
       tn_max_transactions_in_block_bytes tn < sum_list (map guard_bytes (us @ [t])) \<or>
       tn_max_num_transactions_in_block tn < length (concat (map tg_transactions (us @ [t])))"
proof -
  let ?p = "\<lparr>pu_transactions = [], pu_acks = [], pu_total_bytes = 0, pu_limit_reached = AllTransactionsIncluded\<rparr>"
  let ?ps = "case tn_pending_transactions tn of Some t \<Rightarrow> [t] | None \<Rightarrow> []"
  define p1 where "p1 = (case tn_pending_transactions tn of Some t \<Rightarrow> fst (handle_txs tn ?p t) | None \<Rightarrow> ?p)"
  have empty: "pulled tn [] ?p" by (simp add: pulled_def)
  have p1: "pulled tn ?ps p1"
  proof (cases "tn_pending_transactions tn")
    case None
    then show ?thesis using empty by (simp add: p1_def)
  next
    case (Some t)
    have "guard_ok cx t" using inv Some by (simp add: consumer_inv_def waiting_guards_def)
    then have fits: "guard_bytes t \<le> tn_max_transactions_in_block_bytes tn" "length (tg_transactions t) \<le> tn_max_num_transactions_in_block tn"
      using inv by (simp_all add: consumer_inv_def guard_ok_def Let_def)
    show ?thesis
    proof (rule handle_txs_cases [OF empty, of t])
      fix p' assume "handle_txs tn ?p t = (p', None)" "pulled tn ([] @ [t]) p'"
      then show ?thesis by (simp add: p1_def Some)
    qed (use fits in simp)
  qed
  obtain us p2 pending queue where run: "pull_queue tn p1 (tn_queue tn) = (p2, pending, queue)" "pulled tn (?ps @ us) p2"
      "us @ (case pending of Some t \<Rightarrow> [t] | None \<Rightarrow> []) @ queue = tn_queue tn"
      "\<forall>t. pending = Some t \<longrightarrow> tn_max_transactions_in_block_bytes tn < sum_list (map guard_bytes (?ps @ us @ [t])) \<or>
         tn_max_num_transactions_in_block tn < length (concat (map tg_transactions (?ps @ us @ [t])))"
      "pending = None \<longrightarrow> queue = []"
    by (rule pull_queue_spec [OF p1])
  let ?tn = "tn\<lparr>tn_queue := queue, tn_pending_transactions := pending\<rparr>"
  have "next_transactions tn = (?tn, pu_transactions p2, pu_acks p2, pu_limit_reached p2)"
    using run(1) by (simp add: next_transactions_def p1_def [symmetric])
  moreover have wait: "waiting_guards tn = (?ps @ us) @ waiting_guards ?tn" using run(3) by (simp add: waiting_guards_def)
  moreover have "consumer_inv cx ?tn" using inv wait by (simp add: consumer_inv_def)
  moreover have "\<forall>t ts. waiting_guards ?tn = t # ts \<longrightarrow>
       tn_max_transactions_in_block_bytes tn < sum_list (map guard_bytes ((?ps @ us) @ [t])) \<or>
       tn_max_num_transactions_in_block tn < length (concat (map tg_transactions ((?ps @ us) @ [t])))"
    using run(4,5) by (cases pending) (simp_all add: waiting_guards_def)
  ultimately show ?thesis by (intro that [of ?tn p2 "?ps @ us"] run(2)) simp_all
qed

section \<open>Block statuses\<close>

definition to_status :: "block_ref \<Rightarrow> block_status \<Rightarrow> status_messages \<Rightarrow> nat list" where
  "to_status r status out = map fst (filter (\<lambda>m. snd m = status) out)"

lemma to_status_append [simp]: "to_status r status (out @ out') = to_status r status out @ to_status r status out'"
  by (simp add: to_status_def)

lemma to_status_map [simp]: "to_status r status (map (\<lambda>s. (s, status')) ss) = (if status' = status then ss else [])"
  by (simp add: to_status_def comp_def)

text \<open>What is told about a block, and what is left of its subscribers.\<close>

definition subscribers :: "(block_ref, nat list) fmap \<Rightarrow> block_ref \<Rightarrow> nat list" where
  "subscribers m r = (case fmlookup m r of Some ss \<Rightarrow> ss | None \<Rightarrow> [])"

lemma notify_committed_eq: "notify_committed (m, out) c = (fmdrop c m, out @ map (\<lambda>s. (s, Sequenced c)) (subscribers m c))"
  by (cases "fmlookup m c") (auto simp: notify_committed_def subscribers_def fmdom_notI intro!: fmdrop_idle [symmetric])

lemma subscribers_drop [simp]: "subscribers (fmdrop c m) r = (if r = c then [] else subscribers m r)"
  by (simp add: subscribers_def)

lemma notify_committed_fold:
  assumes "foldl notify_committed (m, out) cs = (m', out')"
  shows "fmlookup m' r = (if r \<in> set cs then None else fmlookup m r)"
    and "to_status r (Sequenced r) out' = to_status r (Sequenced r) out @ (if r \<in> set cs then subscribers m r else [])"
    and "to_status r (GarbageCollected r) out' = to_status r (GarbageCollected r) out"
  using assms
  by (induction cs arbitrary: m out) (auto simp: notify_committed_eq)

lemma notify_collected_list:
  assumes "sorted (map fst es)" and "distinct (map fst es)" and "notify_collected gc es (m, out) = (m', out')"
  shows "fmlookup m' r = (if r \<in> fst ` set es \<and> br_round r \<le> gc then None else fmlookup m r)"
    and "to_status r (GarbageCollected r) out' = to_status r (GarbageCollected r) out @
       (if br_round r \<le> gc then (case map_of es r of Some ss \<Rightarrow> ss | None \<Rightarrow> []) else [])"
    and "to_status r (Sequenced r) out' = to_status r (Sequenced r) out"
proof -
  have low: "br_round a \<le> br_round b" if "a \<le> b" for a b :: block_ref
    using that by (auto simp: less_eq_block_ref_def block_ref_le_def)
  have "fmlookup m' r = (if r \<in> fst ` set es \<and> br_round r \<le> gc then None else fmlookup m r) \<and>
      to_status r (GarbageCollected r) out' = to_status r (GarbageCollected r) out @
        (if br_round r \<le> gc then (case map_of es r of Some ss \<Rightarrow> ss | None \<Rightarrow> []) else []) \<and>
      to_status r (Sequenced r) out' = to_status r (Sequenced r) out"
    using assms
  proof (induction es arbitrary: m out)
    case (Cons e es)
    obtain x ss where e: "e = (x, ss)" by force
    show ?case
    proof (cases "br_round x \<le> gc")
      case True
      moreover from Cons.prems(2) have "map_of es x = None" by (simp add: e map_of_eq_None_iff)
      ultimately show ?thesis using Cons.IH [of "fmdrop x m" "out @ map (\<lambda>s. (s, GarbageCollected x)) ss"] Cons.prems
        by (auto simp: e)
    next
      case False
      then have "\<not> br_round y \<le> gc" if "y \<in> fst ` set (e # es)" for y
        using that Cons.prems(1) low by (force simp: e)
      then have "r \<in> fst ` set (e # es) \<Longrightarrow> \<not> br_round r \<le> gc" by blast
      moreover have "r \<notin> fst ` set (e # es) \<Longrightarrow> map_of (e # es) r = None" by (simp only: map_of_eq_None_iff not_False_eq_True)
      ultimately show ?thesis using False Cons.prems(3) by (cases "r \<in> fst ` set (e # es)") (auto simp: e)
    qed
  qed simp
  then show "fmlookup m' r = (if r \<in> fst ` set es \<and> br_round r \<le> gc then None else fmlookup m r)"
    "to_status r (GarbageCollected r) out' = to_status r (GarbageCollected r) out @
       (if br_round r \<le> gc then (case map_of es r of Some ss \<Rightarrow> ss | None \<Rightarrow> []) else [])"
    "to_status r (Sequenced r) out' = to_status r (Sequenced r) out" by blast+
qed

section \<open>Properties\<close>

text \<open>
  C14: Whole bundles are taken first in, first out: none is dropped, split or overtaken, the consumer stops
  only at a bundle that does not fit any more, the transactions taken pass the check every peer makes of
  a block, and each submitter is given exactly the positions of their own transactions.
\<close>

theorem next_transactions_valid:
  assumes inv: "consumer_inv cx tn" and small: "pc_max_num_transactions_in_block (cx_protocol_config cx) < 2 ^ 16"
    and "next_transactions tn = (tn', txs, acks, limit)"
  shows "\<exists>us. waiting_guards tn = us @ waiting_guards tn' \<and> consumer_inv cx tn' \<and>
     check_transactions cx (map tx_data txs) = Inr () \<and>
     (\<forall>t ts. waiting_guards tn' = t # ts \<longrightarrow>
        pc_max_transactions_in_block_bytes (cx_protocol_config cx) < sum_list (map guard_bytes (us @ [t])) \<or>
        pc_max_num_transactions_in_block (cx_protocol_config cx) < length txs + length (tg_transactions t)) \<and>
     length acks = length us \<and>
     (\<forall>i < length us. fst (acks ! i) = tg_submitter (us ! i) \<and> map ((!) txs) (snd (acks ! i)) = tg_transactions (us ! i))"
proof -
  obtain us p where p: "txs = pu_transactions p" "acks = pu_acks p" "pulled tn us p" "waiting_guards tn = us @ waiting_guards tn'"
      "consumer_inv cx tn'" and stop: "\<forall>t ts. waiting_guards tn' = t # ts \<longrightarrow>
        tn_max_transactions_in_block_bytes tn < sum_list (map guard_bytes (us @ [t])) \<or>
        tn_max_num_transactions_in_block tn < length (concat (map tg_transactions (us @ [t])))"
    by (rule next_transactions_spec [OF inv]) (use assms(3) in auto)
  have max: "tn_max_transactions_in_block_bytes tn = pc_max_transactions_in_block_bytes (cx_protocol_config cx)"
    "tn_max_num_transactions_in_block tn = pc_max_num_transactions_in_block (cx_protocol_config cx)"
    and guards: "\<forall>t \<in> set us. guard_ok cx t"
    using inv p(4) by (simp_all add: consumer_inv_def list_all_iff)
  have txs: "txs = concat (map tg_transactions us)" "acks = acks_from 0 us" "length txs \<le> tn_max_num_transactions_in_block tn"
    using p(1-3) small max unfolding pulled_def by simp_all metis
  have "sum_list (map guard_bytes us) = sum_list (map length (map tx_data txs))"
    unfolding txs(1) by (induction us) (simp_all add: guard_bytes_def)
  then have "sum_list (map length (map tx_data txs)) \<le> tn_max_transactions_in_block_bytes tn" using p(3) by (simp add: pulled_def)
  moreover have "\<forall>x \<in> set txs. length (tx_data x) \<le> pc_max_transaction_size_bytes (cx_protocol_config cx)"
    using guards unfolding txs(1) by (auto simp: guard_ok_def Let_def)
  ultimately have "check_transactions cx (map tx_data txs) = Inr ()"
    using txs(3) max by (auto simp: check_transactions_Inr Let_def comp_def not_less)
  moreover have "length acks = length us"
    using acks_from_nth(1) [of 0 us 0] by (cases us) (simp_all add: txs(2))
  moreover have "fst (acks ! i) = tg_submitter (us ! i) \<and> map ((!) txs) (snd (acks ! i)) = tg_transactions (us ! i)" if "i < length us" for i
    using acks_from_nth(2,3) [OF that, of 0] txs(1,2) by simp
  ultimately show ?thesis using p(4,5) stop max txs(1) by (intro exI [of _ us]) simp
qed

definition example_consumer :: "client_error + transaction_consumer" where
  "example_consumer = (let client = transaction_client_new example_context in
     result_bind (submit_no_wait client True 7 [replicate 200 1, replicate 200 2] (transaction_consumer_new example_context))
       (submit_no_wait client True 8 [replicate 200 3]))"

lemma example_consumer_next:
  "case example_consumer of Inr tn \<Rightarrow> (case next_transactions tn of (tn', txs, acks, limit) \<Rightarrow>
     acks = [(7, [0, 1])] \<and> limit = MaxBytes \<and> map tg_submitter (waiting_guards tn') = [8]) | Inl _ \<Rightarrow> False"
  by code_simp

theorem next_transactions_valid_witness:
  "\<exists>tn tn' txs acks limit. example_consumer = Inr tn \<and> next_transactions tn = (tn', txs, acks, limit) \<and>
     map tg_submitter (waiting_guards tn') = [8] \<and> check_transactions example_context (map tx_data txs) = Inr ()"
proof -
  obtain tn where tn: "example_consumer = Inr tn" using example_consumer_next by (auto split: sum.splits)
  obtain tn' txs acks limit where run: "next_transactions tn = (tn', txs, acks, limit)" by (rule prod_cases4)
  have "\<exists>tn1. submit_no_wait (transaction_client_new example_context) True 7 [replicate 200 1, replicate 200 2]
      (transaction_consumer_new example_context) = Inr tn1 \<and>
    submit_no_wait (transaction_client_new example_context) True 8 [replicate 200 3] tn1 = Inr tn"
    using tn unfolding example_consumer_def Let_def result_bind_eq_Inr .
  then have inv: "consumer_inv example_context tn" using submit_keeps consumer_inv_new by blast
  have "pc_max_num_transactions_in_block (cx_protocol_config example_context) < 2 ^ 16"
    by (simp add: example_context_def example_config_def)
  from next_transactions_valid [OF inv this run] have "check_transactions example_context (map tx_data txs) = Inr ()" by blast
  moreover have "map tg_submitter (waiting_guards tn') = [8]" using example_consumer_next unfolding tn by (simp add: run)
  ultimately show ?thesis using tn run by (intro exI conjI)
qed

text \<open>
  C15: Every submitter waiting for a block learns its fate exactly once: those of a committed block that it
  is sequenced, those of any other block at or below the garbage collection round that it is garbage
  collected, and all others keep waiting.
\<close>

theorem block_status_once:
  "case notify_own_blocks_status tn committed gc of (tn', out) \<Rightarrow>
     subscribers (tn_block_status_subscribers tn') r =
       (if r \<in> set committed \<or> br_round r \<le> gc then [] else subscribers (tn_block_status_subscribers tn) r) \<and>
     to_status r (Sequenced r) out = (if r \<in> set committed then subscribers (tn_block_status_subscribers tn) r else []) \<and>
     to_status r (GarbageCollected r) out =
       (if r \<notin> set committed \<and> br_round r \<le> gc then subscribers (tn_block_status_subscribers tn) r else [])"
proof -
  obtain tn' out where run: "notify_own_blocks_status tn committed gc = (tn', out)" by force
  obtain m out1 where fold: "foldl notify_committed (tn_block_status_subscribers tn, []) committed = (m, out1)" by force
  obtain m' where coll: "notify_collected gc (sorted_list_of_fmap m) (m, out1) = (m', out)" "tn_block_status_subscribers tn' = m'"
    using run by (auto simp: notify_own_blocks_status_def fold split: prod.splits)
  have es: "fst ` set (sorted_list_of_fmap m) = fset (fmdom m)" "map_of (sorted_list_of_fmap m) = fmlookup m"
    using arg_cong [OF map_fst_sorted_list_of_fmap [of m], of set] by (simp_all add: map_of_sorted_list del: map_fst_sorted_list_of_fmap)
  note f = notify_committed_fold [OF fold, of r] and c = notify_collected_list [OF _ _ coll(1), of r, unfolded es, simplified]
  show ?thesis using f c unfolding run coll(2) [symmetric] by (auto simp: coll(2) subscribers_def to_status_def fmdom_notD split: option.splits)
qed

end
