(* ===== verification/Transaction_Certifier.thy ===== *)
theory Transaction_Certifier
  imports Block_Verifier Committer_Agreement
begin

text \<open>
  Votes on transactions (\<open>consensus/core/src/transaction_certifier.rs\<close>): the certifier counts the reject votes
  blocks carry, and the accept votes implicit in the parents of the blocks the validator proposes, and
  certifies a block for the fast path once each of its transactions has a quorum for or against it.

  The certified blocks sent to the fast path are the result of each operation. The shared DAG state is an
  argument of the operations that read it. The counters are left out, but for the committee
  lookups on the way to them, which can panic; \<open>debug_fatal!\<close> only logs in a release build.
\<close>

section \<open>Votes on one block\<close>

record vote_info =
  vi_block :: "verified_block option"
  vi_own_reject_txn_votes :: "transaction_index list"
  vi_accept_block_votes :: stake_aggregator
  vi_reject_txn_votes :: "(transaction_index, stake_aggregator) fmap"
  vi_is_certified :: bool

definition vote_info_default :: vote_info where
  "vote_info_default = \<lparr>vi_block = None, vi_own_reject_txn_votes = [], vi_accept_block_votes = sa_new,
     vi_reject_txn_votes = fmempty, vi_is_certified = False\<rparr>"

text \<open>The loop over the reject votes; \<open>None\<close> is the early return of a block that cannot be certified.\<close>

fun scan_rejects :: "committee \<Rightarrow> stake \<Rightarrow> (transaction_index \<times> stake_aggregator) list \<Rightarrow> transaction_index list \<Rightarrow>
    transaction_index list option" where
  "scan_rejects c accept_stake [] rejected = Some rejected"
| "scan_rejects c accept_stake ((idx, sa) # rest) rejected =
     (if sa_reached_threshold QuorumThreshold c sa then scan_rejects c accept_stake rest (rejected @ [idx])
      else if accept_stake - sa_stake sa < cm_quorum_threshold c then None
      else scan_rejects c accept_stake rest rejected)"

definition take_certified_output :: "consensus_context \<Rightarrow> vote_info \<Rightarrow> (vote_info \<times> certified_block option) option" where
  "take_certified_output cx vi = (let c = cx_committee cx in
     if vi_is_certified vi then Some (vi, None)
     else case vi_block vi of
       None \<Rightarrow> Some (vi, None)
     | Some b \<Rightarrow> do {
         _ \<leftarrow> committee_authority c (vb_author b);
         if \<not> sa_reached_threshold QuorumThreshold c (vi_accept_block_votes vi) then Some (vi, None)
         else (case scan_rejects c (sa_stake (vi_accept_block_votes vi)) (sorted_list_of_fmap (vi_reject_txn_votes vi)) [] of
             None \<Rightarrow> Some (vi, None)
           | Some rejected \<Rightarrow> Some (vi\<lparr>vi_is_certified := True\<rparr>, Some \<lparr>cb_block = b, cb_rejected = rejected\<rparr>))
       })"

section \<open>The state of the certifier\<close>

record certifier_state =
  ct_votes :: "(block_ref, vote_info) fmap"
  ct_gc_round :: round

definition certifier_state_new :: certifier_state where
  "certifier_state_new = \<lparr>ct_votes = fmempty, ct_gc_round = GENESIS_ROUND\<rparr>"

text \<open>\<open>entry(..).or_default()\<close>\<close>

definition vote_entry :: "certifier_state \<Rightarrow> block_ref \<Rightarrow> vote_info" where
  "vote_entry ct r = (case fmlookup (ct_votes ct) r of Some vi \<Rightarrow> vi | None \<Rightarrow> vote_info_default)"

definition set_entry :: "certifier_state \<Rightarrow> block_ref \<Rightarrow> vote_info \<Rightarrow> certifier_state" where
  "set_entry ct r vi = ct\<lparr>ct_votes := fmupd r vi (ct_votes ct)\<rparr>"

definition option_list :: "'a option \<Rightarrow> 'a list" where
  "option_list x = (case x of Some y \<Rightarrow> [y] | None \<Rightarrow> [])"

definition add_reject :: "consensus_context \<Rightarrow> authority_index \<Rightarrow> vote_info \<Rightarrow> transaction_index \<Rightarrow> vote_info option" where
  "add_reject cx author vi reject = do {
     let sa = (case fmlookup (vi_reject_txn_votes vi) reject of Some sa \<Rightarrow> sa | None \<Rightarrow> sa_new);
     (sa', _) \<leftarrow> sa_add_unique (cx_committee cx) sa author;
     Some (vi\<lparr>vi_reject_txn_votes := fmupd reject sa' (vi_reject_txn_votes vi)\<rparr>)
   }"

text \<open>The body of the loop over the votes a block carries.\<close>

definition add_block_votes :: "consensus_context \<Rightarrow> authority_index \<Rightarrow> certifier_state \<times> certified_block list \<Rightarrow>
    block_transaction_votes \<Rightarrow> (certifier_state \<times> certified_block list) option" where
  "add_block_votes cx author = (\<lambda>(ct, out) bv.
     if br_round (btv_block_ref bv) \<le> ct_gc_round ct then Some (ct, out)
     else do {
       vi \<leftarrow> foldM (add_reject cx author) (vote_entry ct (btv_block_ref bv)) (btv_rejects bv);
       (vi', certified) \<leftarrow> take_certified_output cx vi;
       Some (set_entry ct (btv_block_ref bv) vi', out @ option_list certified)
     })"

definition add_voted_block :: "consensus_context \<Rightarrow> certifier_state \<Rightarrow> verified_block \<times> transaction_index list \<Rightarrow>
    (certifier_state \<times> certified_block list) option" where
  "add_voted_block cx ct = (\<lambda>(voted_block, reject_txn_votes).
     if vb_round voted_block \<le> ct_gc_round ct then Some (ct, [])
     else do {
       _ \<leftarrow> committee_authority (cx_committee cx) (vb_author voted_block);
       let vi = vote_entry ct (vb_reference voted_block);
       if vi_block vi \<noteq> None then Some (ct, [])
       else foldM (add_block_votes cx (vb_author voted_block))
         (set_entry ct (vb_reference voted_block) (vi\<lparr>vi_block := Some voted_block, vi_own_reject_txn_votes := reject_txn_votes\<rparr>), [])
         (vb_transaction_votes voted_block)
     })"

definition certifier_add_voted_blocks :: "consensus_context \<Rightarrow> certifier_state \<Rightarrow> (verified_block \<times> transaction_index list) list \<Rightarrow>
    (certifier_state \<times> certified_block list) option" where
  "certifier_add_voted_blocks cx ct voted_blocks = foldM (\<lambda>(ct, out) vb. do {
       (ct', blocks) \<leftarrow> add_voted_block cx ct vb;
       Some (ct', out @ blocks)
     }) (ct, []) voted_blocks"

text \<open>The two nested loops over the parents of a proposed block and over their parents.\<close>

definition accept_target :: "consensus_context \<Rightarrow> verified_block \<Rightarrow> certifier_state \<times> certified_block list \<Rightarrow> block_ref \<Rightarrow>
    (certifier_state \<times> certified_block list) option" where
  "accept_target cx voting_block = (\<lambda>(ct, out) target.
     if br_round target + 1 \<noteq> vb_round voting_block then Some (ct, out)
     else case fmlookup (ct_votes ct) target of
       None \<Rightarrow> Some (ct, out)
     | Some vi \<Rightarrow> do {
         (sa, _) \<leftarrow> sa_add_unique (cx_committee cx) (vi_accept_block_votes vi) (vb_author voting_block);
         (vi', certified) \<leftarrow> take_certified_output cx (vi\<lparr>vi_accept_block_votes := sa\<rparr>);
         Some (set_entry ct target vi', out @ option_list certified)
       })"

definition accept_votes_of :: "consensus_context \<Rightarrow> verified_block \<Rightarrow> certifier_state \<times> certified_block list \<Rightarrow> block_ref \<Rightarrow>
    (certifier_state \<times> certified_block list) option" where
  "accept_votes_of cx proposed_block = (\<lambda>(ct, out) voting_ancestor.
     if br_round voting_ancestor + 1 \<noteq> vb_round proposed_block then Some (ct, out)
     else case fmlookup (ct_votes ct) voting_ancestor of
       None \<Rightarrow> Some (ct, out)
     | Some voting_info \<Rightarrow> (case vi_block voting_info of
           None \<Rightarrow> Some (ct, out)
         | Some voting_block \<Rightarrow> foldM (accept_target cx voting_block) (ct, out) (vb_ancestors voting_block)))"

definition certifier_add_proposed_block :: "consensus_context \<Rightarrow> certifier_state \<Rightarrow> verified_block \<Rightarrow>
    (certifier_state \<times> certified_block list) option" where
  "certifier_add_proposed_block cx ct proposed_block =
     (if vb_round proposed_block \<le> ct_gc_round ct + 2 then Some (ct, [])
      else do {
        assert_that (vb_reference proposed_block |\<in>| fmdom (ct_votes ct));
        foldM (accept_votes_of cx proposed_block) (ct, []) (vb_ancestors proposed_block)
      })"

text \<open>\<open>pop_first\<close> while the first entry is at or below the round.\<close>

fun pop_collected :: "round \<Rightarrow> block_ref list \<Rightarrow> (block_ref, vote_info) fmap \<Rightarrow> (block_ref, vote_info) fmap" where
  "pop_collected gc [] m = m"
| "pop_collected gc (r # rs) m = (if br_round r \<le> gc then pop_collected gc rs (fmdrop r m) else m)"

definition update_gc_round :: "certifier_state \<Rightarrow> round \<Rightarrow> certifier_state" where
  "update_gc_round ct gc = \<lparr>ct_votes = pop_collected gc (sorted_list_of_fset (fmdom (ct_votes ct))) (ct_votes ct), ct_gc_round = gc\<rparr>"

section \<open>The certifier\<close>

definition get_own_votes :: "certifier_state \<Rightarrow> block_ref list \<Rightarrow> block_transaction_votes list option" where
  "get_own_votes ct block_refs = foldM (\<lambda>votes r.
       if br_round r \<le> ct_gc_round ct then Some votes
       else do {
         vi \<leftarrow> fmlookup (ct_votes ct) r;
         Some (if vi_own_reject_txn_votes vi \<noteq> []
               then votes @ [\<lparr>btv_block_ref = r, btv_rejects = vi_own_reject_txn_votes vi\<rparr>] else votes)
       }) [] block_refs"

definition get_reject_votes :: "certifier_state \<Rightarrow> block_ref \<Rightarrow> (transaction_index \<times> stake) list option" where
  "get_reject_votes ct r = map_option (\<lambda>vi. map (\<lambda>(idx, sa). (idx, sa_stake sa)) (sorted_list_of_fmap (vi_reject_txn_votes vi)))
     (fmlookup (ct_votes ct) r)"

definition run_gc :: "consensus_context \<Rightarrow> dag_state \<Rightarrow> certifier_state \<Rightarrow> round \<Rightarrow> certifier_state option" where
  "run_gc cx st ct gc = do {
     assert_that (gc \<le> gc_round cx st);
     Some (update_gc_round ct gc)
   }"

text \<open>Own votes on the stored blocks of one authority, given again where they are still needed.\<close>

definition recover_votes :: "crypto \<Rightarrow> signed_block_verifier \<Rightarrow> dag_state \<Rightarrow> round \<Rightarrow> verified_block \<Rightarrow>
    (verified_block \<times> transaction_index list) option" where
  "recover_votes C V st dag_gc b =
     (if vb_round b \<le> dag_gc then Some (b, [])
      else do {
        linked \<leftarrow> is_hard_linked st (vb_reference b);
        if linked then Some (b, [])
        else do {
          verified \<leftarrow> verify_and_vote C V (vb_block b);
          votes \<leftarrow> expect_ok verified;
          Some (b, votes)
        }
      })"

definition certifier_recover :: "crypto \<Rightarrow> consensus_context \<Rightarrow> signed_block_verifier \<Rightarrow> dag_state \<Rightarrow> certifier_state \<Rightarrow> commit_index \<Rightarrow>
    (certifier_state \<times> certified_block list) option" where
  "certifier_recover C cx V st ct last_processed_commit_index =
     (if \<not> pc_mysticeti_fastpath (cx_protocol_config cx) then Some (ct, [])
      else do {
        let commits = ms_scan_commits (ds_store st) (commit_range_new last_processed_commit_index last_processed_commit_index);
        let certifier_gc_round = (if commits = [] then GENESIS_ROUND else calculate_gc_round cx (tc_round (last commits)));
        assert_that (certifier_gc_round \<le> gc_round cx st);
        foldM (\<lambda>(ct, out) authority_index. do {
            blocks \<leftarrow> ms_scan_blocks_by_author (ds_store st) authority_index (certifier_gc_round + 1);
            _ \<leftarrow> committee_authority (cx_committee cx) authority_index;
            voted_blocks \<leftarrow> mapM (recover_votes C V st (gc_round cx st)) blocks;
            (ct', certified) \<leftarrow> certifier_add_voted_blocks cx ct voted_blocks;
            Some (ct', out @ certified)
          }) (update_gc_round ct certifier_gc_round, []) (map fst (committee_authorities (cx_committee cx)))
      })"

section \<open>What the votes mean\<close>

text \<open>The authorities with a block in \<open>D\<close> that rejects, or as a child of the block accepts, a transaction.\<close>

definition rejects :: "verified_block \<Rightarrow> block_ref \<Rightarrow> transaction_index \<Rightarrow> bool" where
  "rejects v r i \<longleftrightarrow> (\<exists>bv \<in> set (vb_transaction_votes v). btv_block_ref bv = r \<and> i \<in> set (btv_rejects bv))"

definition rejecters :: "(block_ref \<rightharpoonup> verified_block) \<Rightarrow> block_ref \<Rightarrow> transaction_index \<Rightarrow> authority_index set" where
  "rejecters D r i = {vb_author v |v. D (vb_reference v) = Some v \<and> rejects v r i}"

definition child_of :: "(block_ref \<rightharpoonup> verified_block) \<Rightarrow> block_ref \<Rightarrow> verified_block \<Rightarrow> bool" where
  "child_of D r v \<longleftrightarrow> D (vb_reference v) = Some v \<and> r \<in> set (vb_ancestors v) \<and> br_round r + 1 = vb_round v"

definition accepters :: "(block_ref \<rightharpoonup> verified_block) \<Rightarrow> block_ref \<Rightarrow> transaction_index \<Rightarrow> authority_index set" where
  "accepters D r i = {vb_author v |v. child_of D r v \<and> \<not> rejects v r i}"

definition reject_votes :: "vote_info \<Rightarrow> transaction_index \<Rightarrow> authority_index set" where
  "reject_votes vi i = (case fmlookup (vi_reject_txn_votes vi) i of Some sa \<Rightarrow> fset (sa_votes sa) | None \<Rightarrow> {})"

text \<open>
  The votes counted for a block are votes cast in \<open>D\<close>, and a child counted as accepting has its own
  reject votes counted as well.
\<close>

definition entry_ok :: "consensus_context \<Rightarrow> (block_ref \<rightharpoonup> verified_block) \<Rightarrow> block_ref \<Rightarrow> vote_info \<Rightarrow> bool" where
  "entry_ok cx D r vi \<longleftrightarrow> sa_inv (cx_committee cx) (vi_accept_block_votes vi) \<and>
     (\<forall>i sa. fmlookup (vi_reject_txn_votes vi) i = Some sa \<longrightarrow> sa_inv (cx_committee cx) sa) \<and>
     (\<forall>i. reject_votes vi i \<subseteq> rejecters D r i) \<and>
     (\<forall>b. vi_block vi = Some b \<longrightarrow> D r = Some b) \<and>
     (\<forall>a. a |\<in>| sa_votes (vi_accept_block_votes vi) \<longrightarrow>
        (\<exists>v. child_of D r v \<and> vb_author v = a \<and> (\<forall>i. rejects v r i \<longrightarrow> a \<in> reject_votes vi i)))"

definition certified_ok :: "consensus_context \<Rightarrow> (block_ref \<rightharpoonup> verified_block) \<Rightarrow> certified_block \<Rightarrow> bool" where
  "certified_ok cx D cb \<longleftrightarrow> (let r = vb_reference (cb_block cb); c = cx_committee cx in
     D r = Some (cb_block cb) \<and>
     (\<forall>i. reached_quorum c (weight c (if i \<in> set (cb_rejected cb) then rejecters D r i else accepters D r i))))"

definition counted :: "certifier_state \<Rightarrow> authority_index \<Rightarrow> block_transaction_votes list \<Rightarrow> bool" where
  "counted ct a bvs \<longleftrightarrow> (\<forall>bv \<in> set bvs. ct_gc_round ct < br_round (btv_block_ref bv) \<longrightarrow>
     (\<exists>vi. fmlookup (ct_votes ct) (btv_block_ref bv) = Some vi \<and> set (btv_rejects bv) \<subseteq> {i. a \<in> reject_votes vi i}))"

text \<open>\<open>X\<close> holds the block whose votes are being counted.\<close>

definition certifier_inv ::
  "consensus_context \<Rightarrow> (block_ref \<rightharpoonup> verified_block) \<Rightarrow> block_ref set \<Rightarrow> certifier_state \<Rightarrow> certified_block list \<Rightarrow> bool" where
  "certifier_inv cx D X ct outs \<longleftrightarrow>
     (\<forall>r vi. fmlookup (ct_votes ct) r = Some vi \<longrightarrow> ct_gc_round ct < br_round r \<and> entry_ok cx D r vi \<and>
        (\<forall>b. r \<notin> X \<longrightarrow> vi_block vi = Some b \<longrightarrow> counted ct (vb_author b) (vb_transaction_votes b))) \<and>
     (\<forall>cb \<in> set outs. certified_ok cx D cb \<and> (ct_gc_round ct < vb_round (cb_block cb) \<longrightarrow>
        (\<exists>vi. fmlookup (ct_votes ct) (vb_reference (cb_block cb)) = Some vi \<and> vi_is_certified vi))) \<and>
     distinct (map (vb_reference \<circ> cb_block) outs)"

lemma certifier_invD:
  assumes "certifier_inv cx D X ct outs" and "fmlookup (ct_votes ct) r = Some vi"
  shows "ct_gc_round ct < br_round r" "entry_ok cx D r vi"
    "\<And>b. r \<notin> X \<Longrightarrow> vi_block vi = Some b \<Longrightarrow> counted ct (vb_author b) (vb_transaction_votes b)"
  using assms unfolding certifier_inv_def by blast+

section \<open>Certifying one block\<close>

lemma scan_rejects_spec:
  assumes "scan_rejects c s es rejected = Some out" and "distinct (map fst es)"
  shows "set out = set rejected \<union> {i. \<exists>sa. (i, sa) \<in> set es \<and> sa_reached_threshold QuorumThreshold c sa}"
    and "(i, sa) \<in> set es \<Longrightarrow> sa_reached_threshold QuorumThreshold c sa \<or> cm_quorum_threshold c \<le> s - sa_stake sa"
proof -
  show "set out = set rejected \<union> {i. \<exists>sa. (i, sa) \<in> set es \<and> sa_reached_threshold QuorumThreshold c sa}"
    using assms by (induction c s es rejected rule: scan_rejects.induct) (force split: if_splits)+
  show "sa_reached_threshold QuorumThreshold c sa \<or> cm_quorum_threshold c \<le> s - sa_stake sa" if "(i, sa) \<in> set es"
    using assms(1) that by (induction c s es rejected rule: scan_rejects.induct) (auto split: if_splits)
qed

lemma weight_minus:
  assumes "cm_quorum_threshold c \<le> weight c A - weight c B" 
  shows "reached_quorum c (weight c (A - B))"
proof -
  have "weight c ((A - B) \<union> B) \<le> weight c (A - B) + weight c B" unfolding weight_def Int_Un_distrib2 by (rule sum_Un_le_nat) auto
  moreover have "weight c A \<le> weight c ((A - B) \<union> B)" by (rule weight_mono) auto
  ultimately show ?thesis using assms by (simp add: reached_quorum_def)
qed

lemma take_certified_output_spec:
  assumes valid: "valid_dag (cx_committee cx) D" and entry: "entry_ok cx D r vi"
  obtains (none) "take_certified_output cx vi = Some (vi, None)"
  | (certified) cb where "take_certified_output cx vi = Some (vi\<lparr>vi_is_certified := True\<rparr>, Some cb)" "\<not> vi_is_certified vi"
      "certified_ok cx D cb" "vb_reference (cb_block cb) = r"
proof (cases "vi_is_certified vi \<or> vi_block vi = None")
  case True
  then show ?thesis by (intro none) (auto simp: take_certified_output_def Let_def)
next
  case False
  let ?c = "cx_committee cx" and ?sa = "vi_accept_block_votes vi"
  obtain b where b: "vi_block vi = Some b" "D r = Some b" using False entry by (auto simp: entry_ok_def)
  have auth: "vb_author b < committee_size ?c" and ref: "vb_reference b = r" using valid_dagD [OF valid b(2)] by auto
  then have run: "take_certified_output cx vi = (if \<not> sa_reached_threshold QuorumThreshold ?c ?sa then Some (vi, None)
      else (case scan_rejects ?c (sa_stake ?sa) (sorted_list_of_fmap (vi_reject_txn_votes vi)) [] of
          None \<Rightarrow> Some (vi, None)
        | Some rejected \<Rightarrow> Some (vi\<lparr>vi_is_certified := True\<rparr>, Some \<lparr>cb_block = b, cb_rejected = rejected\<rparr>)))"
    using False b(1) by (simp add: take_certified_output_def Let_def committee_authority_def committee_size_def)
  show ?thesis
  proof (cases "sa_reached_threshold QuorumThreshold ?c ?sa \<and>
      scan_rejects ?c (sa_stake ?sa) (sorted_list_of_fmap (vi_reject_txn_votes vi)) [] \<noteq> None")
    case fail: False
    then show ?thesis using run by (intro none) auto
  next
    case ok: True
    then obtain rejected where scan: "scan_rejects ?c (sa_stake ?sa) (sorted_list_of_fmap (vi_reject_txn_votes vi)) [] = Some rejected" by auto
    note s = scan_rejects_spec [OF scan, simplified]
    have stake: "sa_stake ?sa = weight ?c (fset (sa_votes ?sa))" using entry by (simp add: entry_ok_def sa_inv_stake)
    have "reached_quorum ?c (weight ?c (if i \<in> set rejected then rejecters D r i else accepters D r i))" for i
    proof (cases "i \<in> set rejected")
      case True
      then obtain sa where sa: "fmlookup (vi_reject_txn_votes vi) i = Some sa" "sa_reached_threshold QuorumThreshold ?c sa"
        using s(1) by auto
      have "sa_stake sa = weight ?c (fset (sa_votes sa))" "fset (sa_votes sa) \<subseteq> rejecters D r i"
        using entry sa(1) by (auto simp: entry_ok_def sa_inv_stake reject_votes_def dest!: spec [of _ i])
      then show ?thesis using sa(2) True cq.quorum_superset
        by (auto simp: sa_reached_threshold_def)
    next
      case rej: False
      have "reached_quorum ?c (weight ?c (fset (sa_votes ?sa) - reject_votes vi i))"
      proof (cases "fmlookup (vi_reject_txn_votes vi) i")
        case None
        then show ?thesis using ok stake by (simp add: reject_votes_def sa_reached_threshold_def)
      next
        case (Some sa)
        then have "cm_quorum_threshold ?c \<le> sa_stake ?sa - sa_stake sa" using s rej by auto
        moreover have "sa_stake sa = weight ?c (reject_votes vi i)"
          using entry Some by (auto simp: entry_ok_def reject_votes_def sa_inv_stake)
        ultimately show ?thesis unfolding stake by (intro weight_minus) simp
      qed
      moreover have "fset (sa_votes ?sa) - reject_votes vi i \<subseteq> accepters D r i"
        using entry unfolding entry_ok_def accepters_def by blast
      ultimately show ?thesis using rej cq.quorum_superset by auto
    qed
    then have "certified_ok cx D \<lparr>cb_block = b, cb_rejected = rejected\<rparr>" using b(2) ref by (simp add: certified_ok_def Let_def)
    then show ?thesis using certified run ok scan False ref by simp
  qed
qed

section \<open>Operations keep the invariant\<close>

lemma entry_ok_default [simp]: "entry_ok cx D r vote_info_default"
  by (simp add: entry_ok_def vote_info_default_def reject_votes_def)

lemma entry_ok_certified [simp]: "entry_ok cx D r (vi\<lparr>vi_is_certified := x\<rparr>) \<longleftrightarrow> entry_ok cx D r vi"
  by (simp add: entry_ok_def reject_votes_def)

lemma reject_votes_frame [simp]:
  "reject_votes (vi\<lparr>vi_is_certified := x\<rparr>) = reject_votes vi" "reject_votes (vi\<lparr>vi_accept_block_votes := sa\<rparr>) = reject_votes vi"
  "reject_votes (vi\<lparr>vi_block := b, vi_own_reject_txn_votes := own\<rparr>) = reject_votes vi"
  by (simp_all add: reject_votes_def fun_eq_iff)

lemma set_entry_sel [simp]:
  "fmlookup (ct_votes (set_entry ct r vi)) x = (if x = r then Some vi else fmlookup (ct_votes ct) x)"
  "ct_gc_round (set_entry ct r vi) = ct_gc_round ct"
  by (simp_all add: set_entry_def)

text \<open>An entry changes by more votes, and a certification, only.\<close>

definition entry_grows :: "block_ref set \<Rightarrow> certifier_state \<Rightarrow> block_ref \<Rightarrow> vote_info \<Rightarrow> bool" where
  "entry_grows X ct r vi \<longleftrightarrow> ct_gc_round ct < br_round r \<and> (\<forall>i. reject_votes (vote_entry ct r) i \<subseteq> reject_votes vi i) \<and>
     (r \<notin> X \<longrightarrow> vi_block vi = vi_block (vote_entry ct r)) \<and>
     (vi_is_certified (vote_entry ct r) \<longrightarrow> vi_is_certified vi)"

lemma entry_grows_certified: "entry_grows X ct r vi \<Longrightarrow> entry_grows X ct r (vi\<lparr>vi_is_certified := True\<rparr>)"
  by (simp add: entry_grows_def)

lemma counted_set_entry:
  assumes "counted ct a bvs" and "entry_grows X ct r vi"
  shows "counted (set_entry ct r vi) a bvs"
  unfolding counted_def
proof (intro ballI impI)
  fix bv assume bv: "bv \<in> set bvs" "ct_gc_round (set_entry ct r vi) < br_round (btv_block_ref bv)"
  then obtain vi' where vi': "fmlookup (ct_votes ct) (btv_block_ref bv) = Some vi'" "set (btv_rejects bv) \<subseteq> {i. a \<in> reject_votes vi' i}"
    using assms(1) by (auto simp: counted_def)
  show "\<exists>vi'. fmlookup (ct_votes (set_entry ct r vi)) (btv_block_ref bv) = Some vi' \<and> set (btv_rejects bv) \<subseteq> {i. a \<in> reject_votes vi' i}"
  proof (cases "btv_block_ref bv = r")
    case True
    then have "vote_entry ct r = vi'" using vi'(1) by (simp add: vote_entry_def)
    then show ?thesis using True vi'(2) assms(2) by (auto simp: entry_grows_def)
  next
    case False
    then show ?thesis using vi' by simp
  qed
qed

lemma set_entry_inv:
  assumes inv: "certifier_inv cx D X ct outs" and grow: "entry_grows X ct r vi" and entry: "entry_ok cx D r vi"
  shows "certifier_inv cx D X (set_entry ct r vi) outs"
proof -
  have "ct_gc_round ct < br_round x \<and> entry_ok cx D x vi' \<and>
      (\<forall>b. x \<notin> X \<longrightarrow> vi_block vi' = Some b \<longrightarrow> counted (set_entry ct r vi) (vb_author b) (vb_transaction_votes b))"
    if x: "fmlookup (ct_votes (set_entry ct r vi)) x = Some vi'" for x vi'
  proof (cases "x = r")
    case True
    have "counted ct (vb_author b) (vb_transaction_votes b)" if "r \<notin> X" "vi_block vi = Some b" for b
      using that grow certifier_invD(3) [OF inv, of r]
      by (auto simp: entry_grows_def vote_entry_def vote_info_default_def split: option.splits)
    then show ?thesis using True x entry grow counted_set_entry by (auto simp: entry_grows_def)
  next
    case False
    then show ?thesis using x certifier_invD [OF inv, of x vi'] counted_set_entry [OF _ grow] by auto
  qed
  moreover have "\<exists>vi'. fmlookup (ct_votes (set_entry ct r vi)) x = Some vi' \<and> vi_is_certified vi'"
    if "fmlookup (ct_votes ct) x = Some vi'" "vi_is_certified vi'" for x vi'
    using that grow by (auto simp: entry_grows_def vote_entry_def)
  ultimately show ?thesis using inv unfolding certifier_inv_def set_entry_sel(2) by blast
qed

lemma certifier_inv_output:
  assumes "certifier_inv cx D X ct outs" and "certified_ok cx D cb" and "vb_reference (cb_block cb) \<notin> (vb_reference \<circ> cb_block) ` set outs"
    and "fmlookup (ct_votes ct) (vb_reference (cb_block cb)) = Some vi" and "vi_is_certified vi"
  shows "certifier_inv cx D X ct (outs @ [cb])"
proof -
  have "\<forall>cb' \<in> set (outs @ [cb]). certified_ok cx D cb' \<and> (ct_gc_round ct < vb_round (cb_block cb') \<longrightarrow>
      (\<exists>vi. fmlookup (ct_votes ct) (vb_reference (cb_block cb')) = Some vi \<and> vi_is_certified vi))"
    using assms(1,2,4,5) unfolding certifier_inv_def by simp
  moreover have "distinct (map (vb_reference \<circ> cb_block) (outs @ [cb]))" using assms(1,3) by (simp add: certifier_inv_def)
  ultimately show ?thesis using assms(1) unfolding certifier_inv_def by blast
qed

lemma record_votes:
  assumes valid: "valid_dag (cx_committee cx) D" and inv: "certifier_inv cx D X ct outs" and grow: "entry_grows X ct r vi"
    and entry: "entry_ok cx D r vi"
  obtains vi' cert where "take_certified_output cx vi = Some (vi', cert)" "vi' = vi \<or> vi' = vi\<lparr>vi_is_certified := True\<rparr>"
    "certifier_inv cx D X (set_entry ct r vi') (outs @ option_list cert)"
  using valid entry
proof (rule take_certified_output_spec)
  assume "take_certified_output cx vi = Some (vi, None)"
  then show thesis using that set_entry_inv [OF inv grow entry] by (simp add: option_list_def)
next
  fix cb assume cb: "take_certified_output cx vi = Some (vi\<lparr>vi_is_certified := True\<rparr>, Some cb)" "\<not> vi_is_certified vi"
    "certified_ok cx D cb" "vb_reference (cb_block cb) = r"
  let ?vi = "vi\<lparr>vi_is_certified := True\<rparr>"
  have inv': "certifier_inv cx D X (set_entry ct r ?vi) outs"
    by (rule set_entry_inv [OF inv]) (use grow entry in \<open>simp_all add: entry_grows_def\<close>)
  have new: "vb_reference (cb_block cb') \<noteq> r" if cb': "cb' \<in> set outs" for cb'
  proof
    assume r: "vb_reference (cb_block cb') = r"
    then have "ct_gc_round ct < vb_round (cb_block cb')" using grow by (auto simp: entry_grows_def)
    then obtain vi' where "fmlookup (ct_votes ct) r = Some vi'" "vi_is_certified vi'"
      using inv cb' r unfolding certifier_inv_def by blast
    then show False using grow cb(2) by (simp add: entry_grows_def vote_entry_def)
  qed
  have "certifier_inv cx D X (set_entry ct r ?vi) (outs @ [cb])"
    by (rule certifier_inv_output [OF inv' cb(3), of ?vi]) (use cb(4) in \<open>auto dest: new\<close>)
  then show thesis using that cb(1) by (simp add: option_list_def)
qed

lemma add_rejects_spec:
  assumes ok: "committee_ok (cx_committee cx)" and a: "a < committee_size (cx_committee cx)"
    and "entry_ok cx D r vi" and "\<forall>i \<in> set is. a \<in> rejecters D r i"
  shows "\<exists>vi'. foldM (add_reject cx a) vi is = Some vi' \<and> entry_ok cx D r vi' \<and>
     reject_votes vi' = (\<lambda>i. reject_votes vi i \<union> (if i \<in> set is then {a} else {})) \<and>
     vi_block vi' = vi_block vi \<and> vi_is_certified vi' = vi_is_certified vi"
  using assms(3,4)
proof (induction "is" arbitrary: vi)
  case (Cons i "is")
  let ?sa = "case fmlookup (vi_reject_txn_votes vi) i of Some sa \<Rightarrow> sa | None \<Rightarrow> sa_new"
  let ?vi = "vi\<lparr>vi_reject_txn_votes := fmupd i (sa_count (cx_committee cx) ?sa a) (vi_reject_txn_votes vi)\<rparr>"
  have sa: "sa_inv (cx_committee cx) ?sa" "fset (sa_votes ?sa) = reject_votes vi i"
    using Cons.prems(1) by (auto simp: entry_ok_def reject_votes_def split: option.splits)
  have step: "add_reject cx a vi i = Some ?vi" using sa_add_unique_eq [OF ok sa(1) a] by (simp add: add_reject_def)
  have votes: "reject_votes ?vi j = reject_votes vi j \<union> (if j = i then {a} else {})" for j
    using sa(2) by (auto simp: reject_votes_def)
  have "entry_ok cx D r ?vi"
    unfolding entry_ok_def votes using Cons.prems sa_inv_count [OF sa(1) a] by (auto simp: entry_ok_def) blast+
  from Cons.IH [OF this] Cons.prems(2) step votes show ?case by (auto simp: fun_eq_iff)
qed simp

text \<open>What stays of a state: the round, the blocks received, the votes counted.\<close>

definition votes_grow :: "certifier_state \<Rightarrow> certifier_state \<Rightarrow> bool" where
  "votes_grow ct ct' \<longleftrightarrow> ct_gc_round ct' = ct_gc_round ct \<and> (\<forall>a bvs. counted ct a bvs \<longrightarrow> counted ct' a bvs) \<and>
     (\<forall>r vi b. fmlookup (ct_votes ct) r = Some vi \<longrightarrow> vi_block vi = Some b \<longrightarrow>
        (\<exists>vi'. fmlookup (ct_votes ct') r = Some vi' \<and> vi_block vi' = Some b))"

lemma votes_grow_refl [simp]: "votes_grow ct ct"
  by (simp add: votes_grow_def)

lemma votes_grow_trans: "votes_grow ct1 ct2 \<Longrightarrow> votes_grow ct2 ct3 \<Longrightarrow> votes_grow ct1 ct3"
  unfolding votes_grow_def by (elim conjE, intro conjI) (simp, blast, blast)

lemma votes_grow_set_entry:
  assumes "entry_grows X ct r vi" and "vi_block vi = vi_block (vote_entry ct r)"
  shows "votes_grow ct (set_entry ct r vi)"
  using assms counted_set_entry [OF _ assms(1)] by (auto simp: votes_grow_def vote_entry_def)

lemma vote_entry_ok: "certifier_inv cx D X ct outs \<Longrightarrow> entry_ok cx D r (vote_entry ct r)"
  using certifier_invD(2) by (auto simp: vote_entry_def split: option.splits)

lemma add_block_votes_spec:
  assumes ok: "committee_ok (cx_committee cx)" and valid: "valid_dag (cx_committee cx) D"
    and inv: "certifier_inv cx D X ct (outs @ out)" and b: "D (vb_reference b) = Some b" and bv: "bv \<in> set (vb_transaction_votes b)"
  obtains ct' out' where "add_block_votes cx (vb_author b) (ct, out) bv = Some (ct', out')" "certifier_inv cx D X ct' (outs @ out')"
    "votes_grow ct ct'" "counted ct' (vb_author b) [bv]"
proof (cases "br_round (btv_block_ref bv) \<le> ct_gc_round ct")
  case True
  then show ?thesis using that inv by (simp add: add_block_votes_def counted_def)
next
  case False
  let ?r = "btv_block_ref bv" and ?a = "vb_author b"
  have a: "?a < committee_size (cx_committee cx)" using valid_dagD [OF valid b] by simp
  have "\<forall>i \<in> set (btv_rejects bv). ?a \<in> rejecters D ?r i" using b bv by (auto simp: rejecters_def rejects_def)
  from add_rejects_spec [OF ok a vote_entry_ok [OF inv] this] obtain vi where
    vi: "foldM (add_reject cx ?a) (vote_entry ct ?r) (btv_rejects bv) = Some vi" "entry_ok cx D ?r vi"
      "reject_votes vi = (\<lambda>i. reject_votes (vote_entry ct ?r) i \<union> (if i \<in> set (btv_rejects bv) then {?a} else {}))"
      "vi_block vi = vi_block (vote_entry ct ?r)" "vi_is_certified vi = vi_is_certified (vote_entry ct ?r)" by blast
  have grow: "entry_grows X ct ?r vi" using vi(3-5) False by (auto simp: entry_grows_def)
  obtain vi' cert where run: "take_certified_output cx vi = Some (vi', cert)" "vi' = vi \<or> vi' = vi\<lparr>vi_is_certified := True\<rparr>"
      "certifier_inv cx D X (set_entry ct ?r vi') ((outs @ out) @ option_list cert)"
    by (rule record_votes [OF valid inv grow vi(2)])
  have "entry_grows X ct ?r vi'" "vi_block vi' = vi_block (vote_entry ct ?r)" using run(2) grow vi(4) entry_grows_certified by auto
  then have "votes_grow ct (set_entry ct ?r vi')" by (rule votes_grow_set_entry)
  moreover have "counted (set_entry ct ?r vi') ?a [bv]" using run(2) vi(3) by (auto simp: counted_def)
  ultimately show ?thesis using that False vi(1) run(1,3) by (simp add: add_block_votes_def)
qed

lemma counted_Cons: "counted ct a (bv # bvs) \<longleftrightarrow> counted ct a [bv] \<and> counted ct a bvs"
  by (auto simp: counted_def)

lemma add_votes_spec:
  assumes ok: "committee_ok (cx_committee cx)" and valid: "valid_dag (cx_committee cx) D" and b: "D (vb_reference b) = Some b"
    and "certifier_inv cx D X ct (outs @ out)" and "set bvs \<subseteq> set (vb_transaction_votes b)"
  shows "\<exists>ct' out'. foldM (add_block_votes cx (vb_author b)) (ct, out) bvs = Some (ct', out') \<and>
     certifier_inv cx D X ct' (outs @ out') \<and> votes_grow ct ct' \<and> counted ct' (vb_author b) bvs"
  using assms(4,5)
proof (induction bvs arbitrary: ct out)
  case Nil
  then show ?case by (simp add: counted_def)
next
  case (Cons bv bvs)
  have bv: "bv \<in> set (vb_transaction_votes b)" "set bvs \<subseteq> set (vb_transaction_votes b)" using Cons.prems(2) by simp_all
  obtain ct1 out1 where step: "add_block_votes cx (vb_author b) (ct, out) bv = Some (ct1, out1)"
      "certifier_inv cx D X ct1 (outs @ out1)" "votes_grow ct ct1" "counted ct1 (vb_author b) [bv]"
    by (rule add_block_votes_spec [OF ok valid Cons.prems(1) b bv(1)])
  from Cons.IH [OF step(2) bv(2)] obtain ct' out' where rest:
    "foldM (add_block_votes cx (vb_author b)) (ct1, out1) bvs = Some (ct', out')"
    "certifier_inv cx D X ct' (outs @ out')" "votes_grow ct1 ct'" "counted ct' (vb_author b) bvs" by blast
  have "counted ct' (vb_author b) [bv]" using step(4) rest(3) by (simp add: votes_grow_def)
  then have "counted ct' (vb_author b) (bv # bvs)" using rest(4) by (subst counted_Cons) (rule conjI)
  then show ?case using step(1,3) rest votes_grow_trans [OF step(3) rest(3)] by simp
qed

lemma certifier_inv_close:
  assumes "certifier_inv cx D {r} ct outs"
    and "\<And>vi b. fmlookup (ct_votes ct) r = Some vi \<Longrightarrow> vi_block vi = Some b \<Longrightarrow> counted ct (vb_author b) (vb_transaction_votes b)"
  shows "certifier_inv cx D {} ct outs"
  using assms unfolding certifier_inv_def by blast

lemma add_voted_block_spec:
  assumes ok: "committee_ok (cx_committee cx)" and valid: "valid_dag (cx_committee cx) D" and b: "D (vb_reference b) = Some b"
    and inv: "certifier_inv cx D {} ct outs"
  obtains ct' out where "add_voted_block cx ct (b, own) = Some (ct', out)" "certifier_inv cx D {} ct' (outs @ out)"
    "ct_gc_round ct' = ct_gc_round ct"
    "ct_gc_round ct < vb_round b \<Longrightarrow> \<exists>vi. fmlookup (ct_votes ct') (vb_reference b) = Some vi \<and> vi_block vi = Some b"
proof -
  let ?r = "vb_reference b" and ?vi = "vote_entry ct (vb_reference b)"
  have a: "vb_author b < committee_size (cx_committee cx)" using valid_dagD [OF valid b] by simp
  consider "vb_round b \<le> ct_gc_round ct" | b' where "ct_gc_round ct < vb_round b" "vi_block ?vi = Some b'"
    | "ct_gc_round ct < vb_round b" "vi_block ?vi = None" by fastforce
  then show thesis
  proof cases
    case 1
    then show thesis using that inv by (simp add: add_voted_block_def)
  next
    case (2 b')
    then have "fmlookup (ct_votes ct) ?r = Some ?vi" by (auto simp: vote_entry_def vote_info_default_def split: option.splits)
    moreover have "b' = b" using vote_entry_ok [OF inv, of ?r] 2(2) b by (auto simp: entry_ok_def)
    ultimately show thesis using that [of ct "[]"] 2 inv a
      by (simp add: add_voted_block_def committee_authority_def committee_size_def)
  next
    case 3
    let ?vi' = "?vi\<lparr>vi_block := Some b, vi_own_reject_txn_votes := own\<rparr>"
    have entry: "entry_ok cx D ?r ?vi'" using vote_entry_ok [OF inv, of ?r] b by (simp add: entry_ok_def)
    have "certifier_inv cx D {?r} ct outs" using inv unfolding certifier_inv_def by blast
    moreover have "entry_grows {?r} ct ?r ?vi'" using 3(1) by (simp add: entry_grows_def)
    ultimately have "certifier_inv cx D {?r} (set_entry ct ?r ?vi') (outs @ [])" using set_entry_inv [OF _ _ entry] by simp
    from add_votes_spec [OF ok valid b this subset_refl] obtain ct' out where
      run: "foldM (add_block_votes cx (vb_author b)) (set_entry ct ?r ?vi', []) (vb_transaction_votes b) = Some (ct', out)"
        "certifier_inv cx D {?r} ct' (outs @ out)" "votes_grow (set_entry ct ?r ?vi') ct'" "counted ct' (vb_author b) (vb_transaction_votes b)"
      by blast
    have entry': "\<exists>vi. fmlookup (ct_votes ct') ?r = Some vi \<and> vi_block vi = Some b" "ct_gc_round ct' = ct_gc_round ct"
      using run(3) unfolding votes_grow_def by (force, simp)
    have "certifier_inv cx D {} ct' (outs @ out)"
      by (rule certifier_inv_close [OF run(2)]) (use run(4) entry'(1) in auto)
    then show thesis using that [of ct' out] entry' 3 run(1) a
      by (simp add: add_voted_block_def committee_authority_def committee_size_def Let_def)
  qed
qed

lemma add_voted_blocks_spec:
  assumes ok: "committee_ok (cx_committee cx)" and valid: "valid_dag (cx_committee cx) D"
    and inv: "certifier_inv cx D {} ct outs" and bs: "\<forall>(b, own) \<in> set vbs. D (vb_reference b) = Some b"
  shows "\<exists>ct' out. certifier_add_voted_blocks cx ct vbs = Some (ct', out) \<and> certifier_inv cx D {} ct' (outs @ out) \<and>
     ct_gc_round ct' = ct_gc_round ct"
proof -
  let ?I = "\<lambda>(ct', out). certifier_inv cx D {} ct' (outs @ out) \<and> ct_gc_round ct' = ct_gc_round ct"
  have "\<exists>t. foldM (\<lambda>(ct, out) vb. Option.bind (add_voted_block cx ct vb) (\<lambda>(ct', blocks). Some (ct', out @ blocks))) (ct, []) vbs = Some t \<and> ?I t"
  proof (rule foldM_total)
    fix s vb assume vb: "vb \<in> set vbs" and s: "?I s"
    obtain ct1 out1 b own where eq: "s = (ct1, out1)" "vb = (b, own)" by (cases s; cases vb) auto
    have b: "D (vb_reference b) = Some b" and inv1: "certifier_inv cx D {} ct1 (outs @ out1)" using bs vb s eq by auto
    obtain ct2 new where "add_voted_block cx ct1 (b, own) = Some (ct2, new)" "certifier_inv cx D {} ct2 ((outs @ out1) @ new)"
        "ct_gc_round ct2 = ct_gc_round ct1"
      by (rule add_voted_block_spec [OF ok valid b inv1])
    then show "\<exists>s'. (case s of (ct, out) \<Rightarrow> \<lambda>vb. Option.bind (add_voted_block cx ct vb) (\<lambda>(ct', blocks). Some (ct', out @ blocks))) vb = Some s' \<and> ?I s'"
      using s by (simp add: eq)
  qed (use inv in simp)
  then show ?thesis by (auto simp: certifier_add_voted_blocks_def)
qed

lemma accept_target_spec:
  assumes ok: "committee_ok (cx_committee cx)" and valid: "valid_dag (cx_committee cx) D"
    and v: "D (vb_reference v) = Some v" "r \<in> set (vb_ancestors v)"
    and inv: "certifier_inv cx D {} ct (outs @ out)" and votes: "counted ct (vb_author v) (vb_transaction_votes v)"
  obtains ct' out' where "accept_target cx v (ct, out) r = Some (ct', out')" "certifier_inv cx D {} ct' (outs @ out')" "votes_grow ct ct'"
proof (cases "br_round r + 1 = vb_round v \<and> r |\<in>| fmdom (ct_votes ct)")
  case False
  then show ?thesis using that [of ct out] inv by (auto simp: accept_target_def fmdom_notD)
next
  case True
  then obtain vi where vi: "fmlookup (ct_votes ct) r = Some vi" by (auto simp: fmlookup_dom_iff)
  note entry = certifier_invD [OF inv vi]
  let ?c = "cx_committee cx"
  let ?sa = "sa_count ?c (vi_accept_block_votes vi) (vb_author v)" and ?a = "vb_author v"
  have a: "?a < committee_size ?c" using valid_dagD [OF valid v(1)] by simp
  have sa: "sa_inv ?c (vi_accept_block_votes vi)" using entry(2) by (simp add: entry_ok_def)
  have "?a \<in> reject_votes vi i" if "rejects v r i" for i
    using that votes entry(1) vi unfolding rejects_def counted_def by force
  then have "entry_ok cx D r (vi\<lparr>vi_accept_block_votes := ?sa\<rparr>)"
    using entry(2) sa_inv_count [OF sa a] v True unfolding entry_ok_def child_of_def by auto
  moreover have e: "vote_entry ct r = vi" using vi by (simp add: vote_entry_def)
  moreover from e have grow: "entry_grows {} ct r (vi\<lparr>vi_accept_block_votes := ?sa\<rparr>)" using entry(1) by (simp add: entry_grows_def)
  ultimately obtain vi' cert where run: "take_certified_output cx (vi\<lparr>vi_accept_block_votes := ?sa\<rparr>) = Some (vi', cert)"
      "vi' = vi\<lparr>vi_accept_block_votes := ?sa\<rparr> \<or> vi' = vi\<lparr>vi_accept_block_votes := ?sa, vi_is_certified := True\<rparr>"
      "certifier_inv cx D {} (set_entry ct r vi') ((outs @ out) @ option_list cert)"
    using record_votes [OF valid inv] by blast
  have "votes_grow ct (set_entry ct r vi')"
    by (rule votes_grow_set_entry [of "{}"]) (use run(2) grow entry_grows_certified [OF grow] e in auto)
  then show ?thesis using that run(1,3) True vi sa_add_unique_eq [OF ok sa a] by (simp add: accept_target_def)
qed

lemma accept_votes_of_spec:
  assumes ok: "committee_ok (cx_committee cx)" and valid: "valid_dag (cx_committee cx) D" and inv: "certifier_inv cx D {} ct (outs @ out)"
  shows "\<exists>ct' out'. accept_votes_of cx p (ct, out) r = Some (ct', out') \<and> certifier_inv cx D {} ct' (outs @ out') \<and>
     ct_gc_round ct' = ct_gc_round ct"
proof (cases "br_round r + 1 = vb_round p \<and> (\<exists>vi v. fmlookup (ct_votes ct) r = Some vi \<and> vi_block vi = Some v)")
  case False
  then show ?thesis using inv by (auto simp: accept_votes_of_def split: option.splits)
next
  case True
  then obtain vi v where vi: "fmlookup (ct_votes ct) r = Some vi" "vi_block vi = Some v" by blast
  have v: "D (vb_reference v) = Some v"
    using certifier_invD(2) [OF inv vi(1)] vi(2) valid_dagD(1) [OF valid] by (auto simp: entry_ok_def)
  let ?I = "\<lambda>(ct', out'). certifier_inv cx D {} ct' (outs @ out') \<and> votes_grow ct ct'"
  have count: "counted ct (vb_author v) (vb_transaction_votes v)" using certifier_invD(3) [OF inv vi(1) _ vi(2)] by simp
  have "\<exists>t. foldM (accept_target cx v) (ct, out) (vb_ancestors v) = Some t \<and> ?I t"
  proof (rule foldM_total)
    fix s y assume y: "y \<in> set (vb_ancestors v)" and s: "?I s"
    obtain ct1 out1 where eq: "s = (ct1, out1)" by force
    have inv1: "certifier_inv cx D {} ct1 (outs @ out1)" and count1: "counted ct1 (vb_author v) (vb_transaction_votes v)"
      using s count by (auto simp: eq votes_grow_def)
    obtain ct2 out2 where "accept_target cx v (ct1, out1) y = Some (ct2, out2)" "certifier_inv cx D {} ct2 (outs @ out2)" "votes_grow ct1 ct2"
      by (rule accept_target_spec [OF ok valid v y inv1 count1])
    then show "\<exists>s'. accept_target cx v s y = Some s' \<and> ?I s'" using s votes_grow_trans [of ct ct1 ct2] by (simp add: eq)
  qed (use inv in simp)
  then show ?thesis using True vi by (auto simp: accept_votes_of_def votes_grow_def)
qed

lemma add_proposed_block_spec:
  assumes ok: "committee_ok (cx_committee cx)" and valid: "valid_dag (cx_committee cx) D" and inv: "certifier_inv cx D {} ct outs"
    and "ct_gc_round ct + 2 < vb_round p \<Longrightarrow> vb_reference p |\<in>| fmdom (ct_votes ct)"
  shows "\<exists>ct' out. certifier_add_proposed_block cx ct p = Some (ct', out) \<and> certifier_inv cx D {} ct' (outs @ out) \<and>
     ct_gc_round ct' = ct_gc_round ct"
proof (cases "vb_round p \<le> ct_gc_round ct + 2")
  case True
  then show ?thesis using inv by (simp add: certifier_add_proposed_block_def)
next
  case False
  let ?I = "\<lambda>(ct', out). certifier_inv cx D {} ct' (outs @ out) \<and> ct_gc_round ct' = ct_gc_round ct"
  have "\<exists>t. foldM (accept_votes_of cx p) (ct, []) (vb_ancestors p) = Some t \<and> ?I t"
  proof (rule foldM_total)
    fix s y assume s: "?I s"
    obtain ct1 out1 where eq: "s = (ct1, out1)" by force
    show "\<exists>s'. accept_votes_of cx p s y = Some s' \<and> ?I s'"
      using accept_votes_of_spec [OF ok valid, of ct1 outs out1 p y] s by (auto simp: eq)
  qed (use inv in simp)
  then show ?thesis using False assms(4) by (auto simp: certifier_add_proposed_block_def)
qed

lemma pop_collected_lookup:
  assumes "sorted rs"
  shows "fmlookup (pop_collected gc rs m) r = (if r \<in> set rs \<and> br_round r \<le> gc then None else fmlookup m r)"
  using assms
proof (induction rs arbitrary: m)
  case (Cons x rs)
  have "br_round a \<le> br_round b" if "a \<le> b" for a b :: block_ref
    using that by (auto simp: less_eq_block_ref_def block_ref_le_def)
  then have "\<not> br_round x \<le> gc \<Longrightarrow> r \<in> set (x # rs) \<Longrightarrow> \<not> br_round r \<le> gc" using Cons.prems by fastforce
  then show ?case using Cons by auto
qed simp

lemma update_gc_round_lookup [simp]:
  "fmlookup (ct_votes (update_gc_round ct gc)) r = (if br_round r \<le> gc then None else fmlookup (ct_votes ct) r)"
  "ct_gc_round (update_gc_round ct gc) = gc"
  by (auto simp: update_gc_round_def pop_collected_lookup fmdom_notD)

lemma update_gc_round_inv:
  assumes inv: "certifier_inv cx D {} ct outs" and gc: "ct_gc_round ct \<le> gc"
  shows "certifier_inv cx D {} (update_gc_round ct gc) outs"
proof -
  have "counted (update_gc_round ct gc) a bvs" if "counted ct a bvs" for a bvs
    using that gc unfolding counted_def by (auto dest: le_less_trans)
  then show ?thesis using inv gc unfolding certifier_inv_def by (auto simp del: split_paired_All split: if_splits)
qed

section \<open>Runs of the certifier\<close>

inductive certifier_reach :: "consensus_context \<Rightarrow> (block_ref \<rightharpoonup> verified_block) \<Rightarrow> certifier_state \<Rightarrow> certified_block list \<Rightarrow> bool"
  for cx D where
  cert_new: "certifier_reach cx D certifier_state_new []"
| cert_voted: "certifier_reach cx D ct outs \<Longrightarrow> \<forall>(b, own) \<in> set vbs. D (vb_reference b) = Some b \<Longrightarrow>
    certifier_add_voted_blocks cx ct vbs = Some (ct', out) \<Longrightarrow> certifier_reach cx D ct' (outs @ out)"
| cert_proposed: "certifier_reach cx D ct outs \<Longrightarrow> certifier_add_proposed_block cx ct p = Some (ct', out) \<Longrightarrow>
    certifier_reach cx D ct' (outs @ out)"
| cert_gc: "certifier_reach cx D ct outs \<Longrightarrow> ct_gc_round ct \<le> gc \<Longrightarrow> certifier_reach cx D (update_gc_round ct gc) outs"

lemma certifier_reach_inv:
  assumes ok: "committee_ok (cx_committee cx)" and valid: "valid_dag (cx_committee cx) D" and "certifier_reach cx D ct outs"
  shows "certifier_inv cx D {} ct outs"
  using assms(3)
proof induction
  case cert_new
  show ?case by (simp add: certifier_inv_def certifier_state_new_def)
next
  case (cert_voted ct outs vbs ct' out)
  then show ?case using add_voted_blocks_spec [OF ok valid cert_voted.IH cert_voted.hyps(2)] by auto
next
  case (cert_proposed ct outs p ct' out)
  have "ct_gc_round ct + 2 < vb_round p \<Longrightarrow> vb_reference p |\<in>| fmdom (ct_votes ct)"
    using cert_proposed.hyps(2) by (auto simp: certifier_add_proposed_block_def split: if_splits)
  then show ?case using add_proposed_block_spec [OF ok valid cert_proposed.IH, of p] cert_proposed.hyps(2) by auto
next
  case (cert_gc ct outs gc)
  then show ?case by (intro update_gc_round_inv)
qed

text \<open>
  An authority that follows the protocol votes once: \<open>try_new_block\<close> adds its reject votes on a block to the
  first of its blocks that links it, so it does not accept in one block and reject in another.
\<close>

definition votes_once :: "authority_index set \<Rightarrow> (block_ref \<rightharpoonup> verified_block) \<Rightarrow> bool" where
  "votes_once Byz D \<longleftrightarrow> (\<forall>a r i. a \<notin> Byz \<longrightarrow> a \<in> accepters D r i \<longrightarrow> a \<notin> rejecters D r i)"

lemma certified_okD:
  assumes "certified_ok cx D cb"
  shows "i \<in> set (cb_rejected cb) \<Longrightarrow> reached_quorum (cx_committee cx) (weight (cx_committee cx) (rejecters D (vb_reference (cb_block cb)) i))"
    and "i \<notin> set (cb_rejected cb) \<Longrightarrow> reached_quorum (cx_committee cx) (weight (cx_committee cx) (accepters D (vb_reference (cb_block cb)) i))"
proof -
  have "reached_quorum (cx_committee cx) (weight (cx_committee cx) (if i \<in> set (cb_rejected cb)
      then rejecters D (vb_reference (cb_block cb)) i else accepters D (vb_reference (cb_block cb)) i))"
    using assms unfolding certified_ok_def Let_def by blast
  then show "i \<in> set (cb_rejected cb) \<Longrightarrow> reached_quorum (cx_committee cx) (weight (cx_committee cx) (rejecters D (vb_reference (cb_block cb)) i))"
    "i \<notin> set (cb_rejected cb) \<Longrightarrow> reached_quorum (cx_committee cx) (weight (cx_committee cx) (accepters D (vb_reference (cb_block cb)) i))"
    by simp_all
qed

lemma entry_ok_rejects:
  assumes "entry_ok cx D r vi" and "fmlookup (vi_reject_txn_votes vi) i = Some sa"
    and "sa_reached_threshold QuorumThreshold (cx_committee cx) sa"
  shows "reached_quorum (cx_committee cx) (weight (cx_committee cx) (rejecters D r i))"
proof -
  have "sa_inv (cx_committee cx) sa" "reject_votes vi i \<subseteq> rejecters D r i" using assms(1,2) unfolding entry_ok_def by blast+
  then show ?thesis using assms(2,3) cq.quorum_superset by (auto simp: reject_votes_def sa_reached_threshold_def sa_inv_stake)
qed

lemma no_two_quorums:
  assumes "committee_ok c" and "\<not> reached_validity c (weight c Byz)" and "votes_once Byz D"
    and "reached_quorum c (weight c (accepters D r i))"
  shows "\<not> reached_quorum c (weight c (rejecters D r i))"
proof
  assume "reached_quorum c (weight c (rejecters D r i))"
  then obtain a where "a \<in> accepters D r i" "a \<in> rejecters D r i" "a \<notin> Byz"
    using cq.honest_in_both [OF assms(1) assms(4)] assms(2) by blast
  then show False using assms(3) unfolding votes_once_def by blast
qed

section \<open>An example\<close>

text \<open>
  Three rounds of four authorities, of which all but the first reject a transaction of the first block. One
  validator sees every block; the other does not see the block of round two that accepts the
  transaction, and sees the others in another order.
\<close>

definition voting_block :: "round \<Rightarrow> authority_index \<Rightarrow> block_ref list \<Rightarrow> block_transaction_votes list \<Rightarrow> verified_block" where
  "voting_block r a ancestors votes = \<lparr>vb_block = \<lparr>sb_inner = BlockV2
       \<lparr>b2_epoch = 0, b2_round = r, b2_author = a, b2_timestamp_ms = 10 * r + a, b2_ancestors = ancestors, b2_transactions = [],
        b2_transaction_votes = votes, b2_commit_votes = [], b2_misbehavior_reports = []\<rparr>, sb_signature = [1]\<rparr>,
     vb_digest = 1, vb_serialized = [r, a]\<rparr>"

definition voted_on :: block_ref where
  "voted_on = vb_reference (example_layer 1 ! 0)"

definition voting_round2 :: "verified_block list" where
  "voting_round2 = map (\<lambda>a. voting_block 2 a (rotate a (map vb_reference (example_layer 1)))
     (if a = 0 then [] else [\<lparr>btv_block_ref = voted_on, btv_rejects = [0]\<rparr>])) [0, 1, 2, 3]"

definition voting_round3 :: "verified_block list" where
  "voting_round3 = map (\<lambda>a. voting_block 3 a (rotate a (map vb_reference voting_round2)) []) [0, 1, 2, 3]"

definition voting_blocks :: "verified_block list" where
  "voting_blocks = example_genesis @ example_layer 1 @ voting_round2 @ voting_round3"

definition voting_dag :: "block_ref \<rightharpoonup> verified_block" where
  "voting_dag = map_of (map (\<lambda>b. (vb_reference b, b)) voting_blocks)"

definition voting_certify :: "verified_block list \<Rightarrow> authority_index \<Rightarrow> (certifier_state \<times> certified_block list) option" where
  "voting_certify bs a = Option.bind (certifier_add_voted_blocks example_context certifier_state_new (map (\<lambda>b. (b, [])) bs))
     (\<lambda>(ct, out). map_option (\<lambda>(ct', out'). (ct', out @ out')) (certifier_add_proposed_block example_context ct (voting_round3 ! a)))"

definition first_view :: "verified_block list" where
  "first_view = example_layer 1 @ voting_round2 @ voting_round3"

definition second_view :: "verified_block list" where
  "second_view = example_layer 1 @ rev (drop 1 voting_round2) @ [voting_round3 ! 1]"

lemma voting_outputs:
  "map_option (filter (\<lambda>(r, _). r = voted_on) \<circ> map (\<lambda>cb. (vb_reference (cb_block cb), cb_rejected cb)) \<circ> snd) (voting_certify first_view 0) =
     Some [(voted_on, [0])]"
  "map_option (filter (\<lambda>(r, _). r = voted_on) \<circ> map (\<lambda>cb. (vb_reference (cb_block cb), cb_rejected cb)) \<circ> snd) (voting_certify second_view 1) =
     Some [(voted_on, [0])]"
  by code_simp+

lemma voting_blocks_check:
  "list_all (block_check example_committee) voting_blocks" "distinct (map vb_reference voting_blocks)"
  "list_all (\<lambda>b. b \<in> set voting_blocks) (first_view @ second_view)"
  by code_simp+

lemma voting_dag_blocks: "voting_dag r = Some b \<longleftrightarrow> b \<in> set voting_blocks \<and> vb_reference b = r"
  unfolding voting_dag_def using voting_blocks_check(2)
  by (subst map_of_eq_Some_iff) (auto simp: comp_def)

lemma voting_dag_valid: "valid_dag (cx_committee example_context) voting_dag"
  using voting_blocks_check(1) block_check_ok unfolding valid_dag_def voting_dag_blocks by (auto simp: list_all_iff)

lemma voting_certify_reach:
  assumes "voting_certify bs a = Some (ct, outs)" and "set bs \<subseteq> set voting_blocks"
  shows "certifier_reach example_context voting_dag ct outs"
proof -
  obtain ct1 out1 out2 where voted: "certifier_add_voted_blocks example_context certifier_state_new (map (\<lambda>b. (b, [])) bs) = Some (ct1, out1)"
    and proposed: "certifier_add_proposed_block example_context ct1 (voting_round3 ! a) = Some (ct, out2)" and outs: "outs = out1 @ out2"
    using assms(1) unfolding voting_certify_def by (auto elim!: bind_SomeE)
  have "\<forall>(b, own) \<in> set (map (\<lambda>b. (b, [])) bs). voting_dag (vb_reference b) = Some b"
    using assms(2) by (auto simp: voting_dag_blocks)
  then have "certifier_reach example_context voting_dag ct1 ([] @ out1)" by (rule cert_voted [OF cert_new _ voted])
  from cert_proposed [OF this proposed] show ?thesis by (simp add: outs)
qed

text \<open>The rule on votes in executable form: a child of a block rejects what its author rejects anywhere.\<close>

definition votes_check :: "verified_block list \<Rightarrow> bool" where
  "votes_check bs \<longleftrightarrow> list_all (\<lambda>v. list_all (\<lambda>w. vb_author v = vb_author w \<longrightarrow> list_all (\<lambda>bv.
     btv_block_ref bv \<in> set (vb_ancestors v) \<and> br_round (btv_block_ref bv) + 1 = vb_round v \<longrightarrow>
       list_all (\<lambda>i. list_ex (\<lambda>bv'. btv_block_ref bv' = btv_block_ref bv \<and> i \<in> set (btv_rejects bv')) (vb_transaction_votes v))
         (btv_rejects bv)) (vb_transaction_votes w)) bs) bs"

lemma votes_check_once:
  assumes "votes_check bs" and "\<And>r b. D r = Some b \<Longrightarrow> b \<in> set bs"
  shows "votes_once {} D"
proof -
  have False if v: "child_of D r v" "\<not> rejects v r i" and w: "D (vb_reference w) = Some w" "rejects w r i" and a: "vb_author v = vb_author w" for v w r i
  proof -
    obtain bv where bv: "bv \<in> set (vb_transaction_votes w)" "btv_block_ref bv = r" "i \<in> set (btv_rejects bv)" using w(2) by (auto simp: rejects_def)
    have "v \<in> set bs" "w \<in> set bs" using v(1) w(1) assms(2) by (auto simp: child_of_def)
    then have "\<exists>bv' \<in> set (vb_transaction_votes v). btv_block_ref bv' = r \<and> i \<in> set (btv_rejects bv')"
      using assms(1) a bv v(1) unfolding votes_check_def list_all_iff list_ex_iff child_of_def by blast
    then show False using v(2) by (auto simp: rejects_def)
  qed
  note no = this
  show ?thesis unfolding votes_once_def accepters_def rejecters_def
  proof (intro allI impI notI)
    fix a r i
    assume "a \<in> {vb_author v |v. child_of D r v \<and> \<not> rejects v r i}" "a \<in> {vb_author v |v. D (vb_reference v) = Some v \<and> rejects v r i}"
    then show False using no by auto
  qed
qed

lemma voting_votes_once: "votes_once {} voting_dag"
  by (rule votes_check_once [of voting_blocks]) (code_simp, simp add: voting_dag_blocks)

lemma voting_runs:
  obtains ct outs ct' outs' cb cb' where "voting_certify first_view 0 = Some (ct, outs)" "voting_certify second_view 1 = Some (ct', outs')"
    "certifier_reach example_context voting_dag ct outs" "certifier_reach example_context voting_dag ct' outs'"
    "cb \<in> set outs" "cb' \<in> set outs'" "vb_reference (cb_block cb) = voted_on" "vb_reference (cb_block cb') = voted_on" "cb_rejected cb = [0]"
proof -
  have one: "\<exists>ct outs cb. voting_certify bs a = Some (ct, outs) \<and> cb \<in> set outs \<and> vb_reference (cb_block cb) = voted_on \<and> cb_rejected cb = [0]"
    if filtered: "map_option (filter (\<lambda>(r, _). r = voted_on) \<circ> map (\<lambda>cb. (vb_reference (cb_block cb), cb_rejected cb)) \<circ> snd) (voting_certify bs a) =
     Some [(voted_on, [0])]" for bs a
  proof -
    obtain ct outs where run: "voting_certify bs a = Some (ct, outs)"
      "filter (\<lambda>(r, _). r = voted_on) (map (\<lambda>cb. (vb_reference (cb_block cb), cb_rejected cb)) outs) = [(voted_on, [0])]"
      using filtered by (cases "voting_certify bs a") auto
    have "(voted_on, [0]) \<in> set (map (\<lambda>cb. (vb_reference (cb_block cb), cb_rejected cb)) outs)"
      using arg_cong [OF run(2), of set] by auto
    then show ?thesis using run(1) by auto
  qed
  have views: "set first_view \<subseteq> set voting_blocks" "set second_view \<subseteq> set voting_blocks"
    using voting_blocks_check(3) by (auto simp: list_all_iff)
  show ?thesis
    using one [OF voting_outputs(1)] one [OF voting_outputs(2)] that voting_certify_reach [OF _ views(1)] voting_certify_reach [OF _ views(2)] by metis
qed

section \<open>Properties\<close>

text \<open>
  C12: Fast path safety. Two validators run their certifiers on blocks of the same DAG, in any order and with
  garbage collection at any time. The authorities in \<open>Byz\<close>, which may accept a transaction in one
  block and reject it in another, hold less than the validity threshold. If one
  certifies a block, then a transaction it does not list as rejected has no quorum of reject votes at
  the other, and if both certify the block they reject the same transactions.
\<close>

theorem certification_consistent:
  assumes ok: "committee_ok (cx_committee cx)" and valid: "valid_dag (cx_committee cx) D"
    and same: "cx_committee cx' = cx_committee cx" and few: "\<not> reached_validity (cx_committee cx) (weight (cx_committee cx) Byz)"
    and once: "votes_once Byz D" and reach: "certifier_reach cx D ct outs" "certifier_reach cx' D ct' outs'"
    and cb: "cb \<in> set outs"
  shows "(\<forall>i vi sa. fmlookup (ct_votes ct') (vb_reference (cb_block cb)) = Some vi \<longrightarrow> fmlookup (vi_reject_txn_votes vi) i = Some sa \<longrightarrow>
       sa_reached_threshold QuorumThreshold (cx_committee cx) sa \<longrightarrow> i \<in> set (cb_rejected cb)) \<and>
     (\<forall>cb' \<in> set outs'. vb_reference (cb_block cb') = vb_reference (cb_block cb) \<longrightarrow> set (cb_rejected cb') = set (cb_rejected cb))"
proof -
  let ?c = "cx_committee cx" and ?r = "vb_reference (cb_block cb)"
  note inv = certifier_reach_inv [OF ok valid reach(1)] and inv' = certifier_reach_inv [of cx' D, unfolded same, OF ok valid reach(2)]
  note two = no_two_quorums [OF ok few once]
  have c: "certified_ok cx D cb" using inv cb by (simp add: certifier_inv_def)
  have "i \<in> set (cb_rejected cb)"
    if vi: "fmlookup (ct_votes ct') ?r = Some vi" "fmlookup (vi_reject_txn_votes vi) i = Some sa" "sa_reached_threshold QuorumThreshold ?c sa" for i vi sa
  proof (rule ccontr)
    assume "i \<notin> set (cb_rejected cb)"
    then have "reached_quorum ?c (weight ?c (accepters D ?r i))" by (rule certified_okD(2) [OF c])
    moreover have "reached_quorum ?c (weight ?c (rejecters D ?r i))"
      using entry_ok_rejects [OF certifier_invD(2) [OF inv' vi(1)] vi(2)] vi(3) same by simp
    ultimately show False using two by blast
  qed
  moreover have "set (cb_rejected cb') = set (cb_rejected cb)" if cb': "cb' \<in> set outs'" "vb_reference (cb_block cb') = ?r" for cb'
  proof -
    have c': "certified_ok cx' D cb'" using inv' cb'(1) by (simp add: certifier_inv_def)
    have "i \<in> set (cb_rejected cb') \<longleftrightarrow> i \<in> set (cb_rejected cb)" for i
      using certified_okD [OF c, of i] certified_okD [OF c', of i, unfolded same cb'(2)] two [of ?r i] by blast
    then show ?thesis by blast
  qed
  ultimately show ?thesis by blast
qed

theorem certification_consistent_witness:
  "\<exists>ct outs ct' outs' cb cb'. voting_certify first_view 0 = Some (ct, outs) \<and> voting_certify second_view 1 = Some (ct', outs') \<and>
     cb \<in> set outs \<and> cb' \<in> set outs' \<and> vb_reference (cb_block cb) = voted_on \<and> vb_reference (cb_block cb') = voted_on \<and>
     set (cb_rejected cb) = {0} \<and> set (cb_rejected cb') = {0}"
proof -
  obtain ct outs ct' outs' cb cb' where run: "voting_certify first_view 0 = Some (ct, outs)" "voting_certify second_view 1 = Some (ct', outs')"
    and reach: "certifier_reach example_context voting_dag ct outs" "certifier_reach example_context voting_dag ct' outs'"
    and cb: "cb \<in> set outs" "cb' \<in> set outs'" "vb_reference (cb_block cb) = voted_on" "vb_reference (cb_block cb') = voted_on" "cb_rejected cb = [0]"
    by (rule voting_runs)
  have ok: "committee_ok (cx_committee example_context)" by simp
  have "\<not> reached_validity (cx_committee example_context) (weight (cx_committee example_context) {})"
    using example_dag_ok by (simp add: dag_ok_def few_equivocators_def example_context_def)
  from certification_consistent [OF ok voting_dag_valid refl this voting_votes_once reach cb(1)] cb
  have "set (cb_rejected cb') = {0}" by simp
  moreover have "set (cb_rejected cb) = {0}" using cb(5) by simp
  ultimately show ?thesis using run cb(1-4) by (intro exI conjI)
qed

text \<open>
  C13: The certifier never panics on blocks of a valid DAG, for any own votes, nor on a proposed block it
  was given before; what it certifies is in the DAG, and no block is certified twice.
\<close>

theorem certifier_never_panics:
  assumes ok: "committee_ok (cx_committee cx)" and valid: "valid_dag (cx_committee cx) D" and reach: "certifier_reach cx D ct outs"
  shows "(\<forall>vbs. (\<forall>(b, own) \<in> set vbs. D (vb_reference b) = Some b) \<longrightarrow> (\<exists>result. certifier_add_voted_blocks cx ct vbs = Some result)) \<and>
     (\<forall>p. vb_reference p |\<in>| fmdom (ct_votes ct) \<longrightarrow> (\<exists>result. certifier_add_proposed_block cx ct p = Some result)) \<and>
     (\<forall>cb \<in> set outs. D (vb_reference (cb_block cb)) = Some (cb_block cb)) \<and> distinct (map (vb_reference \<circ> cb_block) outs)"
proof -
  note inv = certifier_reach_inv [OF assms]
  have "\<exists>result. certifier_add_voted_blocks cx ct vbs = Some result" if "\<forall>(b, own) \<in> set vbs. D (vb_reference b) = Some b" for vbs
    using add_voted_blocks_spec [OF ok valid inv that] by blast
  moreover have "\<exists>result. certifier_add_proposed_block cx ct p = Some result" if "vb_reference p |\<in>| fmdom (ct_votes ct)" for p
    using add_proposed_block_spec [OF ok valid inv that] by blast
  moreover have "\<forall>cb \<in> set outs. D (vb_reference (cb_block cb)) = Some (cb_block cb)" "distinct (map (vb_reference \<circ> cb_block) outs)"
    using inv by (simp_all add: certifier_inv_def certified_ok_def Let_def)
  ultimately show ?thesis by blast
qed

theorem certifier_never_panics_witness:
  "\<exists>ct outs. voting_certify first_view 0 = Some (ct, outs) \<and> distinct (map (vb_reference \<circ> cb_block) outs) \<and>
     (\<exists>result. certifier_add_voted_blocks example_context ct (map (\<lambda>b. (b, [])) voting_round3) = Some result)"
proof -
  obtain ct outs where run: "voting_certify first_view 0 = Some (ct, outs)" and reach: "certifier_reach example_context voting_dag ct outs"
    by (rule voting_runs)
  have ok: "committee_ok (cx_committee example_context)" by simp
  have "\<forall>(b, own) \<in> set (map (\<lambda>b. (b, [])) voting_round3). voting_dag (vb_reference b) = Some b"
    by (auto simp: voting_dag_blocks voting_blocks_def)
  with certifier_never_panics [OF ok voting_dag_valid reach]
  have "distinct (map (vb_reference \<circ> cb_block) outs)"
    "\<exists>result. certifier_add_voted_blocks example_context ct (map (\<lambda>b. (b, [])) voting_round3) = Some result" by blast+
  then show ?thesis using run by blast
qed

end
