(* ===== verification/Spec2Isabelle.thy ===== *)
theory Spec2Isabelle
  imports Commit_Vote_Monitor Round_Tracker Ancestor_State Verified_Dag Transaction_Consumer Transaction_Certifier
begin

text \<open>
  A verification of the Mysticeti consensus core (\<open>src/consensus\<close>).

  \<^bold>\<open>The program.\<close> A committee of authorities builds a DAG of signed blocks. A block names blocks of lower
  rounds as its ancestors, among them a quorum by stake of the round below, and so votes for them. Each
  validator verifies the blocks it receives (\<open>block_verifier.rs\<close>), holds them back until their ancestors
  are there (\<open>block_manager.rs\<close>), and keeps them in memory and in a store (\<open>dag_state.rs\<close>, \<open>storage\<close>). The
  committer (\<open>base_committer.rs\<close>, \<open>universal_committer.rs\<close>) elects a leader for each round from a schedule
  (\<open>leader_schedule.rs\<close>, \<open>leader_scoring.rs\<close>) and decides from the local DAG alone whether its block is
  committed or skipped. The linearizer (\<open>linearizer.rs\<close>) turns each committed leader into a commit: the part
  of its history that is not yet committed, in a fixed order. Beside this, transactions are pulled into blocks
  (\<open>transaction.rs\<close>), voted on and certified for the fast path (\<open>transaction_certifier.rs\<close>), and the
  clock, the vote monitor, the round tracker and the ancestor manager aggregate what the peers report.

  \<^bold>\<open>Conventions\<close> (\<open>Prelude\<close>). Code is translated into functions that take a state and return the new one.
  A function of type \<open>_ option\<close> returns \<open>None\<close> where the Rust code panics: an \<open>assert!\<close>, \<open>unwrap\<close>, \<open>expect\<close>
  or an index out of range; the release profile aborts on a panic. A \<open>Result\<close> is a sum with the error at the
  left. Stake is summed modulo \<open>2 ^ 64\<close> (\<open>wrap64\<close>) and transaction indices modulo \<open>2 ^ 16\<close> (\<open>wrap16\<close>); rounds
  and commit indices are natural numbers, so that the theorems speak of runs in which the 32-bit rounds do
  not overflow. A \<open>BTreeMap\<close> is an \<open>fmap\<close> read in ascending order of its keys, a \<open>BTreeSet\<close> an \<open>fset\<close>, a
  \<open>Vec\<close> a list with \<open>vec_get\<close> and \<open>vec_set\<close>, which panic out of range. The local time is an argument. Locks
  are not modelled: every operation runs to its end under the lock the code takes. Log lines and metrics are
  left out, but for lookups in them that may panic.

  \<^bold>\<open>Parameters.\<close> Code that is not in the repository is an argument of the definitions that use it: hashing,
  signatures and BCS serialisation (record \<open>crypto\<close>, \<open>Blocks\<close>), the serialisation of commits (record
  \<open>commit_codec\<close>, \<open>Linearizer\<close>), the seeded generator of the crate \<open>rand\<close> (record \<open>rng_ops\<close>, \<open>Leader_Schedule\<close>),
  and the transaction verifier of the application (fields of \<open>signed_block_verifier\<close>). What a theorem needs of
  them is a named hypothesis that states documented behaviour, for instance that verification accepts what the
  key has signed, and the theorem's witness instantiates the parameter with a concrete function.

  \<^bold>\<open>The theories\<close>, in the order of their dependencies.

  \<^item> \<open>Committee\<close>: \<open>config/src/committee.rs\<close> and \<open>stake_aggregator.rs\<close>. Two quorums share an authority outside
    every set below the validity threshold, the authorities outside such a set form a quorum, and the
    aggregator holds exactly the weight of its voters. The locale \<open>quorum_system\<close> states what the DAG argument
    uses of a committee, and is interpreted on it.
  \<^item> \<open>Blocks\<close>, \<open>Commits\<close>: \<open>block.rs\<close>, \<open>types/src/block.rs\<close>, \<open>context.rs\<close>, \<open>commit.rs\<close>: the data the components
    exchange, with the orders on references that the code derives.
  \<^item> \<open>Block_Verifier\<close>: \<open>block_verifier.rs\<close>. Verification succeeds exactly if every check of the code passes, and
    what an author signs passes the signature check.
  \<^item> \<open>Threshold_Clock\<close>: \<open>threshold_clock.rs\<close>. The clock's round is justified by blocks it saw, and it passes
    every round with a quorum of blocks, but for a corner case with a single quorum author.
  \<^item> \<open>Stake_Scan\<close>, \<open>Commit_Vote_Monitor\<close>, \<open>Round_Tracker\<close>, \<open>Ancestor_State\<close>: \<open>commit_vote_monitor.rs\<close>,
    \<open>round_tracker.rs\<close>, \<open>ancestor.rs\<close>. The walk over ranked reports that all of them share is characterised
    once, in the locale \<open>stake_order\<close>, and interpreted for the ascending and the descending order.
  \<^item> \<open>Store\<close>: \<open>storage/mod.rs\<close> and \<open>storage/mem_store.rs\<close>, the recovery of sub-dags (\<open>commit.rs\<close>). The locale
    \<open>block_store\<close> is the contract of the trait \<open>Store\<close>, interpreted on the in-memory store. Scans are complete
    and ordered; the theory also shows where the reverse scan returns too few blocks.
  \<^item> \<open>Leader_Scoring\<close>, \<open>Leader_Schedule\<close>: \<open>leader_scoring.rs\<close>, \<open>leader_schedule.rs\<close>. Scores are the weight of
    the strong links to votes for committed leaders; the swap table separates good from bad nodes; a bad node
    is never elected; the schedule is updated exactly when the scored range continues the one in use.
  \<^item> \<open>Dag_State\<close>, \<open>Dag_Invariant\<close>, \<open>Dag_Operations\<close>, \<open>Dag_Recovery\<close>, \<open>Dag_Machine\<close>: \<open>dag_state.rs\<close>. The operations,
    the invariant that ties cache, store and genesis together, recovery, and the state as an inductive machine
    with flushes, crashes and restarts. It refines an abstract database with durable and volatile
    content, and the walks over the DAG are exact.
  \<^item> \<open>Base_Committer\<close>, \<open>Universal_Committer\<close>: the decision rules. \<open>Dag_Agreement\<close> holds the argument on DAGs,
    \<open>Committer_View\<close> ties each check of the code to it, and \<open>Committer_Agreement\<close> shows that \<open>try_decide\<close> never
    panics and that validators with any parts of the DAG never decide a round differently, if the
    equivocating authorities hold less than the validity threshold and there is one leader per round.
  \<^item> \<open>Linearizer\<close>, \<open>Commit_Chain\<close>: \<open>linearizer.rs\<close>. The locale \<open>commit_marks\<close> is the interface
    \<open>BlockStoreAPI\<close> of the linearizer, interpreted on the DAG state. A sub-dag is exactly the uncommitted history of the leader
    above the garbage collection round; commits have consecutive indices, chained digests, monotone
    timestamps and disjoint blocks; two validators in the same state commit the same sequence, one being
    a prefix of the other.
  \<^item> \<open>Block_Manager\<close>, \<open>Suspension\<close>, \<open>Block_Acceptance\<close>, \<open>Manager_Machine\<close>: \<open>block_manager.rs\<close>. However blocks
    arrive, nothing panics, no block above the garbage collection round is lost, and the DAG state is
    complete above that round, but for blocks a certified commit brought without their ancestors.
  \<^item> \<open>Verified_Dag\<close>: the blocks that pass the verifier are a DAG of the kind the other theories assume.
  \<^item> \<open>Transaction_Consumer\<close>: \<open>transaction.rs\<close>. Bundles are taken whole, in order and within the limits, and
    every submitter learns the fate of its block once.
  \<^item> \<open>Transaction_Certifier\<close>: \<open>transaction_certifier.rs\<close>. The certifier does not panic, and two validators that
    certify a block agree on its rejected transactions. This assumes of the voters, but for a set below the
    validity threshold, that they vote on a block once.

  \<^bold>\<open>Termination and bounds.\<close> Loops over lists are total functions. The six work-list loops
  (\<open>link_down\<close>, \<open>link_loop\<close>, \<open>find_in_ancestors\<close>, \<open>linearize_loop\<close>, \<open>unsuspend_loop\<close>, \<open>gc_loop\<close>) are
  \<open>partial_function\<close>s in which \<open>None\<close> is also not to end; the theorems about the operations that run them
  show that they return a value. Nothing has fuel. Witnesses use small committees and DAGs of a few rounds.

  \<^bold>\<open>What is not modelled.\<close> The tasks around the core exchange messages and wait: the network layer, the
  synchronizer, the commit syncer, broadcaster, subscriber, round prober, leader timeout, the core thread
  and the node that wires them. Of \<open>core.rs\<close> only the committer it builds and the leaders it passes on are
  modelled, so that proposing blocks and the loop around \<open>try_decide\<close> are not; the honest behaviour of
  proposers enters as the hypotheses on equivocation and on voting once. \<open>commit_observer.rs\<close> and
  \<open>commit_finalizer.rs\<close> are not modelled. The store on disk wraps RocksDB; the model has the contract of the
  trait and the in-memory store, which only tests use. The repository outside \<open>consensus\<close> (execution, Move,
  the Sui node, SDKs) is outside the development.
\<close>

end
